theory Spec2Isabelle
  imports Main
begin

section \<open>Source locations, tokens and the token buffer\<close>

text \<open>
  A \<open>SourceLocation\<close> is its raw encoding: the comparisons \<open><\<close> and \<open>\<le>\<close> of the
  source are comparisons of raw encodings, and the invalid location is 0.
  Counters and indices (\<open>unsigned\<close> in the source) are natural numbers; the
  arithmetic of \<open>spelledForExpandedToken\<close> on them wraps around as 32-bit unsigned
  arithmetic does, see \<open>unsigned_sub\<close> and \<open>unsigned_add\<close>.
\<close>

type_synonym SourceLocation = nat
type_synonym FileID = nat

definition isValid :: "SourceLocation \<Rightarrow> bool" where
  "isValid L = (L \<noteq> 0)"

definition unsigned_sub :: "nat \<Rightarrow> nat \<Rightarrow> nat" where
  "unsigned_sub a b = (if b \<le> a then a - b else a + 4294967296 - b)"

definition unsigned_add :: "nat \<Rightarrow> nat \<Rightarrow> nat" where
  "unsigned_add a b = (a + b) mod 4294967296"

datatype TokenKind = tok_eof | tok_identifier | tok_raw_identifier | tok_unknown | tok_other nat

datatype error = AssertionFailed | Unreachable | OutOfBounds

record Token =
  Location :: SourceLocation
  Length :: nat
  Kind :: TokenKind

definition endLocation :: "Token \<Rightarrow> SourceLocation" where
  "endLocation T = Location T + Length T"

text \<open>
  The source manager is a collaborator of the code: its queries are parameters of
  the model. \<open>isFileID\<close> is the location's own predicate (file location or macro
  location), supplied with them.
\<close>

record SourceManager =
  isFileID :: "SourceLocation \<Rightarrow> bool"
  getExpansionLoc :: "SourceLocation \<Rightarrow> SourceLocation"
  getFileID :: "SourceLocation \<Rightarrow> FileID"
  getLocForEndOfFile :: "FileID \<Rightarrow> SourceLocation"
  isBeforeInTranslationUnit :: "SourceLocation \<Rightarrow> SourceLocation \<Rightarrow> bool"

record Mapping =
  BeginSpelled :: nat
  EndSpelled :: nat
  BeginExpanded :: nat
  EndExpanded :: nat

text \<open>
  \<open>MarkedFile\<close> has its own \<open>BeginExpanded\<close> and \<open>EndExpanded\<close>; they carry the prefix
  \<open>File_\<close> here, as a record field is a constant of the theory.
\<close>

record MarkedFile =
  SpelledTokens :: "Token list"
  Mappings :: "Mapping list"
  File_BeginExpanded :: nat
  File_EndExpanded :: nat

text \<open>
  \<open>Files\<close> is the map of the source; \<open>FileKeys\<close> lists its keys in the order of
  insertion, which is the order the model iterates them in.
\<close>

record TokenBuffer =
  ExpandedTokens :: "Token list"
  Files :: "FileID \<rightharpoonup> MarkedFile"
  FileKeys :: "FileID list"

text \<open>
  An \<open>ArrayRef\<close> into a vector is the index of its first element and its size;
  a pointer to a spelled token is the file that holds it and an index.
  \<open>makeArrayRef\<close> takes the two ends as pointers into one vector, here their
  indices; the size is the difference of the pointers as a \<open>size_t\<close> of 64 bits, which
  wraps around when the end is before the begin.
\<close>

datatype ArrayRef = ArrayRef (Data: nat) (Size: nat)

definition makeArrayRef :: "nat \<Rightarrow> nat \<Rightarrow> ArrayRef" where
  "makeArrayRef b e = ArrayRef b (if b \<le> e then e - b else e + 18446744073709551616 - b)"

definition slice :: "'a list \<Rightarrow> ArrayRef \<Rightarrow> 'a list" where
  "slice xs R = take (Size R) (drop (Data R) xs)"

type_synonym SpelledPtr = "FileID \<times> nat"

section \<open>partition_point\<close>

text \<open>
  The binary search of the standard library: \<open>first\<close> and \<open>len\<close> delimit the part
  of the vector still to search.
\<close>

function partition_point_loop :: "('a \<Rightarrow> bool) \<Rightarrow> 'a list \<Rightarrow> nat \<Rightarrow> nat \<Rightarrow> nat" where
  "partition_point_loop P xs first len =
     (if len = 0 then first
      else if P (xs ! (first + len div 2))
           then partition_point_loop P xs (first + len div 2 + 1) (len - len div 2 - 1)
           else partition_point_loop P xs first (len div 2))"
  by pat_completeness auto
termination
  by (relation "measure (\<lambda>(P, xs, first, len). len)") auto

declare partition_point_loop.simps [simp del]

definition partition_point :: "'a list \<Rightarrow> ('a \<Rightarrow> bool) \<Rightarrow> nat" where
  "partition_point xs P = partition_point_loop P xs 0 (length xs)"

section \<open>Queries on the token buffer\<close>

definition spelledForExpandedToken ::
  "SourceManager \<Rightarrow> TokenBuffer \<Rightarrow> nat \<Rightarrow> error + (SpelledPtr \<times> Mapping option)" where
  "spelledForExpandedToken SM TB ExpandedIndex =
     (if \<not> ExpandedIndex < length (ExpandedTokens TB) then Inl AssertionFailed
      else
        let FID = getFileID SM (getExpansionLoc SM (Location (ExpandedTokens TB ! ExpandedIndex)))
        in case Files TB FID of
             None \<Rightarrow> Inl AssertionFailed
           | Some File \<Rightarrow>
               let It = partition_point (Mappings File) (\<lambda>M. BeginExpanded M \<le> ExpandedIndex)
               in if It = 0
                  then Inr ((FID, unsigned_sub ExpandedIndex (File_BeginExpanded File)), None)
                  else
                    let M = Mappings File ! (It - 1)
                    in if ExpandedIndex < EndExpanded M
                       then Inr ((FID, BeginSpelled M), Some M)
                       else Inr ((FID, unsigned_add (EndSpelled M)
                                         (unsigned_sub ExpandedIndex (EndExpanded M))), None))"

text \<open>Reading a spelled token through a pointer; outside the vector the read is undefined.\<close>

definition deref :: "TokenBuffer \<Rightarrow> SpelledPtr \<Rightarrow> error + Token" where
  "deref TB p =
     (case Files TB (fst p) of
        None \<Rightarrow> Inl OutOfBounds
      | Some File \<Rightarrow>
          if snd p < length (SpelledTokens File) then Inr (SpelledTokens File ! snd p)
          else Inl OutOfBounds)"

definition spelledForExpanded ::
  "SourceManager \<Rightarrow> TokenBuffer \<Rightarrow> ArrayRef \<Rightarrow> error + (FileID \<times> ArrayRef) option" where
  "spelledForExpanded SM TB Expanded =
     (if Size Expanded = 0 then Inr None
      else
        case spelledForExpandedToken SM TB (Data Expanded) of
          Inl e \<Rightarrow> Inl e
        | Inr (BeginSpelledP, BeginMapping) \<Rightarrow>
        case spelledForExpandedToken SM TB (Data Expanded + Size Expanded - 1) of
          Inl e \<Rightarrow> Inl e
        | Inr (LastSpelledP, LastMapping) \<Rightarrow>
        case deref TB BeginSpelledP of
          Inl e \<Rightarrow> Inl e
        | Inr BeginTok \<Rightarrow>
        case deref TB LastSpelledP of
          Inl e \<Rightarrow> Inl e
        | Inr LastTok \<Rightarrow>
            let FID = getFileID SM (Location BeginTok)
            in if FID \<noteq> getFileID SM (Location LastTok) then Inr None
               else
                 case Files TB FID of
                   None \<Rightarrow> Inl OutOfBounds
                 | Some File \<Rightarrow>
                     let BeginExpandedI = Data Expanded;
                         EndExpandedI = Data Expanded + Size Expanded
                     in if (case BeginMapping of
                              Some M \<Rightarrow> BeginExpanded M < BeginExpandedI | None \<Rightarrow> False)
                        then Inr None
                        else if (case LastMapping of
                                   Some M \<Rightarrow> EndExpandedI < EndExpanded M | None \<Rightarrow> False)
                        then Inr None
                        else Inr (Some (FID,
                               makeArrayRef
                                 (case BeginMapping of
                                    Some M \<Rightarrow> BeginSpelled M | None \<Rightarrow> snd BeginSpelledP)
                                 (case LastMapping of
                                    Some M \<Rightarrow> EndSpelled M | None \<Rightarrow> snd LastSpelledP + 1))))"

record Expansion =
  Spelled :: "FileID \<times> ArrayRef"
  Expanded :: ArrayRef

definition expansionStartingAt ::
  "SourceManager \<Rightarrow> TokenBuffer \<Rightarrow> SpelledPtr \<Rightarrow> error + Expansion option" where
  "expansionStartingAt SM TB SpelledP =
     (case deref TB SpelledP of
        Inl e \<Rightarrow> Inl e
      | Inr Tok \<Rightarrow>
          if \<not> isFileID SM (Location Tok) then Inl AssertionFailed
          else
            case Files TB (getFileID SM (Location Tok)) of
              None \<Rightarrow> Inl AssertionFailed
            | Some File \<Rightarrow>
                if getFileID SM (Location Tok) \<noteq> fst SpelledP then Inl AssertionFailed
                else
                  let SpelledIndex = snd SpelledP;
                      M = partition_point (Mappings File) (\<lambda>M. BeginSpelled M < SpelledIndex)
                  in if M = length (Mappings File)
                        \<or> BeginSpelled (Mappings File ! M) \<noteq> SpelledIndex
                     then Inr None
                     else Inr (Some
                       \<lparr>Spelled = (fst SpelledP,
                          makeArrayRef (BeginSpelled (Mappings File ! M))
                            (EndSpelled (Mappings File ! M))),
                        Expanded = makeArrayRef (BeginExpanded (Mappings File ! M))
                            (EndExpanded (Mappings File ! M))\<rparr>))"

definition spelledTokens :: "TokenBuffer \<Rightarrow> FileID \<Rightarrow> error + Token list" where
  "spelledTokens TB FID =
     (case Files TB FID of None \<Rightarrow> Inl AssertionFailed | Some File \<Rightarrow> Inr (SpelledTokens File))"

definition spelledTokensTouching ::
  "SourceManager \<Rightarrow> SourceLocation \<Rightarrow> TokenBuffer \<Rightarrow> error + (FileID \<times> ArrayRef)" where
  "spelledTokensTouching SM Loc Tokens =
     (if \<not> isFileID SM Loc then Inl AssertionFailed
      else
        case spelledTokens Tokens (getFileID SM Loc) of
          Inl e \<Rightarrow> Inl e
        | Inr AllToks \<Rightarrow>
            let Right = partition_point AllToks (\<lambda>Tok. Location Tok < Loc);
                AcceptRight = (Right \<noteq> length AllToks \<and> Location (AllToks ! Right) \<le> Loc);
                AcceptLeft = (Right \<noteq> 0 \<and> endLocation (AllToks ! (Right - 1)) \<ge> Loc)
            in Inr (getFileID SM Loc,
                 makeArrayRef (Right - (if AcceptLeft then 1 else 0))
                   (Right + (if AcceptRight then 1 else 0))))"

text \<open>The range-for of \<open>spelledIdentifierTouching\<close>, over the indices of the slice.\<close>

fun first_identifier :: "Token list \<Rightarrow> nat \<Rightarrow> nat \<Rightarrow> nat option" where
  "first_identifier AllToks i 0 = None"
| "first_identifier AllToks i (Suc n) =
     (if Kind (AllToks ! i) = tok_identifier then Some i else first_identifier AllToks (i + 1) n)"

definition spelledIdentifierTouching ::
  "SourceManager \<Rightarrow> SourceLocation \<Rightarrow> TokenBuffer \<Rightarrow> error + SpelledPtr option" where
  "spelledIdentifierTouching SM Loc Tokens =
     (case spelledTokensTouching SM Loc Tokens of
        Inl e \<Rightarrow> Inl e
      | Inr (FID, R) \<Rightarrow>
          (case spelledTokens Tokens FID of
             Inl e \<Rightarrow> Inl e
           | Inr AllToks \<Rightarrow>
               (case first_identifier AllToks (Data R) (Size R) of
                  None \<Rightarrow> Inr None
                | Some i \<Rightarrow> Inr (Some (FID, i)))))"

section \<open>The tokenizer\<close>

text \<open>
  The raw lexer and the identifier table are collaborators. \<open>rawLex\<close> is the run of
  the lexer over the buffer of a file: the tokens for which \<open>LexFromRawLexer\<close>
  returns false, then the token with which it returns true. \<open>getTokenID\<close> is the
  token kind the identifier table gives a spelling.
\<close>

record ClangToken =
  getLocation :: SourceLocation
  getLength :: nat
  getKind :: TokenKind
  needsCleaning :: bool
  hasUCN :: bool
  getRawIdentifier :: string
  isAnnotation :: bool

record LexerEnv =
  rawLex :: "FileID \<Rightarrow> ClangToken list \<times> ClangToken"
  getTokenID :: "string \<Rightarrow> TokenKind"

definition Token_of :: "ClangToken \<Rightarrow> error + Token" where
  "Token_of T =
     (if isAnnotation T then Inl AssertionFailed
      else if \<not> isValid (getLocation T) then Inl AssertionFailed
      else Inr \<lparr>Location = getLocation T, Length = getLength T, Kind = getKind T\<rparr>)"

definition AddToken :: "LexerEnv \<Rightarrow> ClangToken \<Rightarrow> Token list \<Rightarrow> error + Token list" where
  "AddToken LE T Tokens =
     (case Token_of
             (if getKind T = tok_raw_identifier \<and> \<not> needsCleaning T \<and> \<not> hasUCN T
              then T\<lparr>getKind := getTokenID LE (getRawIdentifier T)\<rparr> else T) of
        Inl e \<Rightarrow> Inl e
      | Inr Tok \<Rightarrow> Inr (Tokens @ [Tok]))"

fun tokenize_loop :: "LexerEnv \<Rightarrow> ClangToken list \<Rightarrow> Token list \<Rightarrow> error + Token list" where
  "tokenize_loop LE [] Tokens = Inr Tokens"
| "tokenize_loop LE (T # Ts) Tokens =
     (case AddToken LE T Tokens of
        Inl e \<Rightarrow> Inl e
      | Inr Tokens' \<Rightarrow> tokenize_loop LE Ts Tokens')"

definition tokenize :: "LexerEnv \<Rightarrow> FileID \<Rightarrow> error + Token list" where
  "tokenize LE FID =
     (case tokenize_loop LE (fst (rawLex LE FID)) [] of
        Inl e \<Rightarrow> Inl e
      | Inr Tokens \<Rightarrow>
          if getKind (snd (rawLex LE FID)) \<noteq> tok_eof
          then AddToken LE (snd (rawLex LE FID)) Tokens
          else Inr Tokens)"

section \<open>The expansion capturer\<close>

type_synonym PPExpansions = "SourceLocation \<rightharpoonup> SourceLocation"

definition lookup :: "PPExpansions \<Rightarrow> SourceLocation \<Rightarrow> SourceLocation" where
  "lookup CE K = (case CE K of None \<Rightarrow> 0 | Some E \<Rightarrow> E)"

text \<open>
  The state the callback works on: whether the back pointer \<open>Collector\<close> is set,
  the table \<open>Expansions\<close> of the collector it points to, and \<open>LastExpansionEnd\<close>.
\<close>

record CollectPPExpansions =
  Collector :: bool
  Expansions :: PPExpansions
  LastExpansionEnd :: SourceLocation

definition disable :: "CollectPPExpansions \<Rightarrow> CollectPPExpansions" where
  "disable C = C\<lparr>Collector := False\<rparr>"

definition MacroExpands ::
  "SourceManager \<Rightarrow> SourceLocation \<times> SourceLocation \<Rightarrow> CollectPPExpansions
     \<Rightarrow> error + CollectPPExpansions" where
  "MacroExpands SM SrcRange C =
     (if \<not> Collector C then Inr C
      else if \<not> isFileID SM (snd SrcRange) then Inr C
      else if isValid (LastExpansionEnd C)
              \<and> \<not> isBeforeInTranslationUnit SM (LastExpansionEnd C) (snd SrcRange)
      then Inr C
      else if \<not> isFileID SM (fst SrcRange)
      then (if Expansions C (getExpansionLoc SM (fst SrcRange)) = None then Inl AssertionFailed
            else Inr (C\<lparr>Expansions := (Expansions C)(getExpansionLoc SM (fst SrcRange) \<mapsto> snd SrcRange),
                        LastExpansionEnd := snd SrcRange\<rparr>))
      else Inr (C\<lparr>Expansions := (Expansions C)(fst SrcRange \<mapsto> snd SrcRange),
                  LastExpansionEnd := snd SrcRange\<rparr>))"

section \<open>The builder\<close>

record Builder =
  Result :: TokenBuffer
  NextExpanded :: nat
  NextSpelled :: "FileID \<Rightarrow> nat"

text \<open>
  \<open>Result.Files[F]\<close> inserts a default \<open>MarkedFile\<close> when \<open>F\<close> is not a key
  (\<open>Files_emplace\<close>) and then reads it (\<open>Files_at\<close>).
\<close>

definition MarkedFile_default :: MarkedFile where
  "MarkedFile_default =
     \<lparr>SpelledTokens = [], Mappings = [], File_BeginExpanded = 0, File_EndExpanded = 0\<rparr>"

definition Files_emplace :: "TokenBuffer \<Rightarrow> FileID \<Rightarrow> TokenBuffer" where
  "Files_emplace TB F =
     (case Files TB F of
        Some MF \<Rightarrow> TB
      | None \<Rightarrow> TB\<lparr>Files := (Files TB)(F \<mapsto> MarkedFile_default), FileKeys := FileKeys TB @ [F]\<rparr>)"

definition Files_at :: "TokenBuffer \<Rightarrow> FileID \<Rightarrow> MarkedFile" where
  "Files_at TB F = (case Files TB F of Some MF \<Rightarrow> MF | None \<Rightarrow> MarkedFile_default)"

fun buildSpelledTokens_loop ::
  "LexerEnv \<Rightarrow> SourceManager \<Rightarrow> Token list \<Rightarrow> nat \<Rightarrow> TokenBuffer \<Rightarrow> error + TokenBuffer" where
  "buildSpelledTokens_loop LE SM [] I TB = Inr TB"
| "buildSpelledTokens_loop LE SM (Tok # Rest) I TB =
     (case Files TB (getFileID SM (getExpansionLoc SM (Location Tok))) of
        Some File \<Rightarrow>
          buildSpelledTokens_loop LE SM Rest (I + 1)
            (TB\<lparr>Files := (Files TB)(getFileID SM (getExpansionLoc SM (Location Tok)) \<mapsto>
                   File\<lparr>File_EndExpanded := (if Kind Tok = tok_eof then I else I + 1)\<rparr>)\<rparr>)
      | None \<Rightarrow>
          (case tokenize LE (getFileID SM (getExpansionLoc SM (Location Tok))) of
             Inl e \<Rightarrow> Inl e
           | Inr Toks \<Rightarrow>
               buildSpelledTokens_loop LE SM Rest (I + 1)
                 (TB\<lparr>Files := (Files TB)(getFileID SM (getExpansionLoc SM (Location Tok)) \<mapsto>
                        \<lparr>SpelledTokens = Toks, Mappings = [], File_BeginExpanded = I,
                         File_EndExpanded = (if Kind Tok = tok_eof then I else I + 1)\<rparr>),
                      FileKeys := FileKeys TB
                        @ [getFileID SM (getExpansionLoc SM (Location Tok))]\<rparr>)))"

definition buildSpelledTokens :: "LexerEnv \<Rightarrow> SourceManager \<Rightarrow> TokenBuffer \<Rightarrow> error + TokenBuffer" where
  "buildSpelledTokens LE SM TB = buildSpelledTokens_loop LE SM (ExpandedTokens TB) 0 TB"

text \<open>
  \<open>FlushMapping\<close> of \<open>discard\<close>: the pair is the local \<open>Mapping\<close> and the vector
  \<open>Mappings\<close> of the file.
\<close>

definition FlushMapping :: "nat \<Rightarrow> Mapping \<times> Mapping list \<Rightarrow> Mapping \<times> Mapping list" where
  "FlushMapping NextSp MS =
     ((fst MS)\<lparr>BeginSpelled := NextSp, EndSpelled := NextSp\<rparr>,
      (if BeginSpelled (fst MS) \<noteq> NextSp
       then snd MS @ [(fst MS)\<lparr>EndSpelled := NextSp\<rparr>] else snd MS))"

text \<open>The loop \<open>while (NextSpelled < size && location <= End) ++NextSpelled\<close>.\<close>

function consume_spelled :: "Token list \<Rightarrow> SourceLocation \<Rightarrow> nat \<Rightarrow> nat" where
  "consume_spelled ST End n =
     (if n < length ST \<and> Location (ST ! n) \<le> End then consume_spelled ST End (n + 1) else n)"
  by pat_completeness auto
termination
  by (relation "measure (\<lambda>(ST, End, n). length ST - n)") auto

declare consume_spelled.simps [simp del]

text \<open>
  The outer loop of \<open>discard\<close>. It does not terminate when a key of the table has
  a valid end before itself: then the inner loop consumes nothing and the
  iteration repeats.
\<close>

partial_function (option) discard_loop ::
  "Token list \<Rightarrow> PPExpansions \<Rightarrow> SourceLocation \<Rightarrow> nat \<Rightarrow> Mapping \<Rightarrow> Mapping list
     \<Rightarrow> (nat \<times> Mapping \<times> Mapping list) option" where
  "discard_loop ST CE Target n M Ms =
     (if n < length ST \<and> Location (ST ! n) < Target
      then (if isValid (lookup CE (Location (ST ! n)))
            then discard_loop ST CE Target
                   (consume_spelled ST (lookup CE (Location (ST ! n))) n)
                   (fst (FlushMapping (consume_spelled ST (lookup CE (Location (ST ! n))) n)
                           (FlushMapping n (M, Ms))))
                   (snd (FlushMapping (consume_spelled ST (lookup CE (Location (ST ! n))) n)
                           (FlushMapping n (M, Ms))))
            else discard_loop ST CE Target (n + 1) M Ms)
      else Some (n, M, Ms))"

definition discard ::
  "SourceManager \<Rightarrow> PPExpansions \<Rightarrow> FileID option \<Rightarrow> Builder \<Rightarrow> Builder option" where
  "discard SM CE Drain B =
     (let Target = (case Drain of
                      Some D \<Rightarrow> getLocForEndOfFile SM D
                    | None \<Rightarrow> getExpansionLoc SM
                               (Location (ExpandedTokens (Result B) ! NextExpanded B)));
          File = getFileID SM Target;
          TB1 = Files_emplace (Result B) File;
          TB2 = (case Drain of Some D \<Rightarrow> Files_emplace TB1 D | None \<Rightarrow> TB1);
          E = (case Drain of
                 Some D \<Rightarrow> File_EndExpanded (Files_at TB2 D)
               | None \<Rightarrow> NextExpanded B)
      in case discard_loop (SpelledTokens (Files_at TB2 File)) CE Target (NextSpelled B File)
                \<lparr>BeginSpelled = NextSpelled B File, EndSpelled = 0,
                 BeginExpanded = E, EndExpanded = E\<rparr>
                (Mappings (Files_at TB2 File)) of
           None \<Rightarrow> None
         | Some (n, M, Ms) \<Rightarrow>
             Some (B\<lparr>Result := TB2\<lparr>Files := (Files TB2)(File \<mapsto>
                                  (Files_at TB2 File)\<lparr>Mappings := snd (FlushMapping n (M, Ms))\<rparr>)\<rparr>,
                     NextSpelled := (NextSpelled B)(File := n)\<rparr>))"

function file_run :: "Token list \<Rightarrow> Token list \<Rightarrow> nat \<Rightarrow> nat \<Rightarrow> nat \<times> nat" where
  "file_run ST ET n e =
     (if n < length ST \<and> e < length ET \<and> Location (ST ! n) = Location (ET ! e)
      then file_run ST ET (n + 1) (e + 1) else (n, e))"
  by pat_completeness auto
termination
  by (relation "measure (\<lambda>(ST, ET, n, e). length ST - n)") auto

declare file_run.simps [simp del]

function expanded_run :: "SourceManager \<Rightarrow> Token list \<Rightarrow> SourceLocation \<Rightarrow> nat \<Rightarrow> nat" where
  "expanded_run SM ET Expansion e =
     (if e < length ET \<and> getExpansionLoc SM (Location (ET ! e)) = Expansion
      then expanded_run SM ET Expansion (e + 1) else e)"
  by pat_completeness auto
termination
  by (relation "measure (\<lambda>(SM, ET, Expansion, e). length ET - e)") auto

declare expanded_run.simps [simp del]

definition advance :: "SourceManager \<Rightarrow> PPExpansions \<Rightarrow> Builder \<Rightarrow> error + Builder" where
  "advance SM CE B =
     (let Tok = ExpandedTokens (Result B) ! NextExpanded B;
          Expansion = getExpansionLoc SM (Location Tok);
          File = getFileID SM Expansion;
          TB1 = Files_emplace (Result B) File;
          ST = SpelledTokens (Files_at TB1 File)
      in if isFileID SM (Location Tok)
         then Inr (B\<lparr>Result := TB1,
                     NextExpanded :=
                       snd (file_run ST (ExpandedTokens TB1) (NextSpelled B File) (NextExpanded B)),
                     NextSpelled := (NextSpelled B)(File :=
                       fst (file_run ST (ExpandedTokens TB1) (NextSpelled B File) (NextExpanded B)))\<rparr>)
         else if \<not> isValid (lookup CE Expansion) then Inl AssertionFailed
         else Inr (B\<lparr>Result := TB1\<lparr>Files := (Files TB1)(File \<mapsto>
                       (Files_at TB1 File)\<lparr>Mappings := Mappings (Files_at TB1 File) @
                         [\<lparr>BeginSpelled = NextSpelled B File,
                           EndSpelled = consume_spelled ST (lookup CE Expansion) (NextSpelled B File),
                           BeginExpanded = NextExpanded B,
                           EndExpanded = expanded_run SM (ExpandedTokens TB1) Expansion
                                           (NextExpanded B)\<rparr>]\<rparr>)\<rparr>,
                     NextExpanded := expanded_run SM (ExpandedTokens TB1) Expansion (NextExpanded B),
                     NextSpelled := (NextSpelled B)(File :=
                       consume_spelled ST (lookup CE Expansion) (NextSpelled B File))\<rparr>))"

text \<open>
  The main loop of \<open>build\<close>; \<open>diagnoseAdvanceFailure\<close> is the fatal error
  \<open>Unreachable\<close>.
\<close>

partial_function (option) build_loop ::
  "SourceManager \<Rightarrow> PPExpansions \<Rightarrow> Builder \<Rightarrow> (error + Builder) option" where
  "build_loop SM CE B =
     (if NextExpanded B < length (ExpandedTokens (Result B)) - 1
      then (case discard SM CE None B of
              None \<Rightarrow> None
            | Some B1 \<Rightarrow>
                (case advance SM CE B1 of
                   Inl e \<Rightarrow> Some (Inl e)
                 | Inr B2 \<Rightarrow>
                     if NextExpanded B2 = NextExpanded B1 then Some (Inl Unreachable)
                     else build_loop SM CE B2))
      else Some (Inr B))"

fun drain_files :: "SourceManager \<Rightarrow> PPExpansions \<Rightarrow> FileID list \<Rightarrow> Builder \<Rightarrow> Builder option" where
  "drain_files SM CE [] B = Some B"
| "drain_files SM CE (F # Fs) B =
     (case discard SM CE (Some F) B of
        None \<Rightarrow> None
      | Some B' \<Rightarrow> drain_files SM CE Fs B')"

definition build ::
  "LexerEnv \<Rightarrow> SourceManager \<Rightarrow> PPExpansions \<Rightarrow> Token list \<Rightarrow> (error + TokenBuffer) option" where
  "build LE SM CE ExpandedToks =
     (if ExpandedToks = [] then Some (Inl AssertionFailed)
      else if Kind (last ExpandedToks) \<noteq> tok_eof then Some (Inl AssertionFailed)
      else
        case buildSpelledTokens LE SM \<lparr>ExpandedTokens = ExpandedToks, Files = Map.empty, FileKeys = []\<rparr> of
          Inl e \<Rightarrow> Some (Inl e)
        | Inr TB \<Rightarrow>
            (case build_loop SM CE \<lparr>Result = TB, NextExpanded = 0, NextSpelled = (\<lambda>F. 0)\<rparr> of
               None \<Rightarrow> None
             | Some (Inl e) \<Rightarrow> Some (Inl e)
             | Some (Inr B) \<Rightarrow>
                 (case drain_files SM CE (FileKeys (Result B)) B of
                    None \<Rightarrow> None
                  | Some B' \<Rightarrow> Some (Inr (Result B')))))"

section \<open>Facts about partition_point\<close>

text \<open>
  The search is specified for a vector that is partitioned by the predicate: true
  on a prefix and false on the rest.
\<close>

definition partitioned :: "('a \<Rightarrow> bool) \<Rightarrow> 'a list \<Rightarrow> bool" where
  "partitioned P xs = (\<forall>i j. i \<le> j \<and> j < length xs \<and> P (xs ! j) \<longrightarrow> P (xs ! i))"

lemma partition_point_loop_spec:
  "partitioned P xs \<Longrightarrow> first + len \<le> length xs \<Longrightarrow> (\<forall>i<first. P (xs ! i)) \<Longrightarrow>
   (\<forall>i. first + len \<le> i \<and> i < length xs \<longrightarrow> \<not> P (xs ! i)) \<Longrightarrow>
   first \<le> partition_point_loop P xs first len \<and>
   partition_point_loop P xs first len \<le> first + len \<and>
   (\<forall>i<partition_point_loop P xs first len. P (xs ! i)) \<and>
   (\<forall>i. partition_point_loop P xs first len \<le> i \<and> i < length xs \<longrightarrow> \<not> P (xs ! i))"
proof (induction P xs first len rule: partition_point_loop.induct)
  case (1 P xs first len)
  show ?case
  proof (cases "len = 0")
    case True
    have eq: "partition_point_loop P xs first len = first"
      by (subst partition_point_loop.simps) (simp add: True)
    show ?thesis unfolding eq using "1.prems" True by simp
  next
    case False
    let ?mid = "first + len div 2"
    have mid: "?mid < length xs" using False "1.prems"(2) by simp
    show ?thesis
    proof (cases "P (xs ! ?mid)")
      case True
      have below: "\<forall>i<?mid + 1. P (xs ! i)"
      proof (intro allI impI)
        fix i assume "i < ?mid + 1"
        then have "i \<le> ?mid" by simp
        with True mid "1.prems"(1) show "P (xs ! i)"
          unfolding partitioned_def by blast
      qed
      have sum: "?mid + 1 + (len - len div 2 - 1) = first + len" using False by simp
      have IH: "?mid + 1 \<le> partition_point_loop P xs (?mid + 1) (len - len div 2 - 1) \<and>
        partition_point_loop P xs (?mid + 1) (len - len div 2 - 1) \<le> first + len \<and>
        (\<forall>i<partition_point_loop P xs (?mid + 1) (len - len div 2 - 1). P (xs ! i)) \<and>
        (\<forall>i. partition_point_loop P xs (?mid + 1) (len - len div 2 - 1) \<le> i \<and> i < length xs
            \<longrightarrow> \<not> P (xs ! i))"
        using "1.IH"(1) [OF False True "1.prems"(1) _ below] "1.prems"(2,4) sum by simp
      have eq: "partition_point_loop P xs first len =
          partition_point_loop P xs (?mid + 1) (len - len div 2 - 1)"
        by (subst partition_point_loop.simps) (simp add: False True)
      show ?thesis unfolding eq using IH by auto
    next
      case notP: False
      have above: "\<forall>i. first + len div 2 \<le> i \<and> i < length xs \<longrightarrow> \<not> P (xs ! i)"
        using notP "1.prems"(1) unfolding partitioned_def by blast
      have IH: "first \<le> partition_point_loop P xs first (len div 2) \<and>
        partition_point_loop P xs first (len div 2) \<le> first + len div 2 \<and>
        (\<forall>i<partition_point_loop P xs first (len div 2). P (xs ! i)) \<and>
        (\<forall>i. partition_point_loop P xs first (len div 2) \<le> i \<and> i < length xs
            \<longrightarrow> \<not> P (xs ! i))"
        using "1.IH"(2) [OF False notP "1.prems"(1) _ "1.prems"(3) above] "1.prems"(2) by simp
      have eq: "partition_point_loop P xs first len = partition_point_loop P xs first (len div 2)"
        by (subst partition_point_loop.simps) (simp add: False notP)
      show ?thesis unfolding eq using IH by auto
    qed
  qed
qed

lemma partition_point_spec:
  assumes "partitioned P xs"
  shows "partition_point xs P \<le> length xs"
    and "\<And>i. i < partition_point xs P \<Longrightarrow> P (xs ! i)"
    and "\<And>i. partition_point xs P \<le> i \<Longrightarrow> i < length xs \<Longrightarrow> \<not> P (xs ! i)"
proof -
  have "0 \<le> partition_point_loop P xs 0 (length xs) \<and>
   partition_point_loop P xs 0 (length xs) \<le> 0 + length xs \<and>
   (\<forall>i<partition_point_loop P xs 0 (length xs). P (xs ! i)) \<and>
   (\<forall>i. partition_point_loop P xs 0 (length xs) \<le> i \<and> i < length xs \<longrightarrow> \<not> P (xs ! i))"
    by (rule partition_point_loop_spec [OF assms]) auto
  then show "partition_point xs P \<le> length xs"
    and "\<And>i. i < partition_point xs P \<Longrightarrow> P (xs ! i)"
    and "\<And>i. partition_point xs P \<le> i \<Longrightarrow> i < length xs \<Longrightarrow> \<not> P (xs ! i)"
    unfolding partition_point_def by simp_all
qed

lemma partition_point_unique:
  assumes "partitioned P xs" "k \<le> length xs" "\<And>i. i < k \<Longrightarrow> P (xs ! i)"
    "\<And>i. k \<le> i \<Longrightarrow> i < length xs \<Longrightarrow> \<not> P (xs ! i)"
  shows "partition_point xs P = k"
proof (rule ccontr)
  assume ne: "partition_point xs P \<noteq> k"
  show False
  proof (cases "partition_point xs P < k")
    case True
    then show False
      using assms(2,3) partition_point_spec(3) [OF assms(1), of "partition_point xs P"]
      by auto
  next
    case False
    with ne have "k < partition_point xs P" by simp
    then show False
      using assms(4) [of k] partition_point_spec(1,2) [OF assms(1)] by auto
  qed
qed

lemma sorted_wrt_partitioned:
  assumes "sorted_wrt (\<lambda>a b. f a \<le> (f b :: nat)) xs"
  shows "partitioned (\<lambda>x. f x \<le> v) xs" and "partitioned (\<lambda>x. f x < v) xs"
proof -
  have le: "f (xs ! i) \<le> f (xs ! j)" if "i \<le> j" "j < length xs" for i j
  proof (cases "i = j")
    case True then show ?thesis by simp
  next
    case False
    with that have "i < j" by simp
    with assms that show ?thesis by (simp add: sorted_wrt_iff_nth_less)
  qed
  show "partitioned (\<lambda>x. f x \<le> v) xs" unfolding partitioned_def
  proof (intro allI impI)
    fix i j assume "i \<le> j \<and> j < length xs \<and> f (xs ! j) \<le> v"
    then show "f (xs ! i) \<le> v" using le [of i j] by simp
  qed
  show "partitioned (\<lambda>x. f x < v) xs" unfolding partitioned_def
  proof (intro allI impI)
    fix i j assume "i \<le> j \<and> j < length xs \<and> f (xs ! j) < v"
    then show "f (xs ! i) < v" using le [of i j] by simp
  qed
qed

lemma find_rev_last:
  assumes "k < length xs" "P (xs ! k)" "\<And>i. k < i \<Longrightarrow> i < length xs \<Longrightarrow> \<not> P (xs ! i)"
  shows "find P (rev xs) = Some (xs ! k)"
proof -
  let ?i = "length xs - Suc k"
  have a: "?i < length (rev xs)" using assms(1) by simp
  have b: "rev xs ! ?i = xs ! k" using assms(1) by (simp add: rev_nth)
  have c: "\<not> P (rev xs ! j)" if "j < ?i" for j
  proof -
    have "rev xs ! j = xs ! (length xs - Suc j)" using that assms(1) by (simp add: rev_nth)
    moreover have "k < length xs - Suc j" "length xs - Suc j < length xs" using that assms(1) by auto
    ultimately show ?thesis using assms(3) by simp
  qed
  show ?thesis unfolding find_Some_iff using a b c assms(2) by (intro exI [of _ ?i]) simp
qed

lemma find_first:
  assumes "k < length xs" "P (xs ! k)" "\<And>i. i < k \<Longrightarrow> \<not> P (xs ! i)"
  shows "find P xs = Some (xs ! k)"
  unfolding find_Some_iff using assms by (intro exI [of _ k]) simp

section \<open>The queries\<close>

text \<open>
  The answer of \<open>spelledForExpandedToken\<close> in the words of the specification: the
  rightmost mapping of the file that begins at or before the index decides.
\<close>

definition rightmost_mapping :: "Mapping list \<Rightarrow> nat \<Rightarrow> Mapping option" where
  "rightmost_mapping Ms Index = find (\<lambda>M. BeginExpanded M \<le> Index) (rev Ms)"

definition spelledForExpandedToken_spec ::
  "FileID \<Rightarrow> MarkedFile \<Rightarrow> nat \<Rightarrow> SpelledPtr \<times> Mapping option" where
  "spelledForExpandedToken_spec FID File Index =
     (case rightmost_mapping (Mappings File) Index of
        None \<Rightarrow> ((FID, Index - File_BeginExpanded File), None)
      | Some M \<Rightarrow>
          if Index < EndExpanded M then ((FID, BeginSpelled M), Some M)
          else ((FID, EndSpelled M + (Index - EndExpanded M)), None))"

lemma rightmost_mapping_partition_point:
  assumes "sorted_wrt (\<lambda>A B. BeginExpanded A \<le> BeginExpanded B) Ms"
  shows "rightmost_mapping Ms Index =
     (if partition_point Ms (\<lambda>M. BeginExpanded M \<le> Index) = 0 then None
      else Some (Ms ! (partition_point Ms (\<lambda>M. BeginExpanded M \<le> Index) - 1)))"
proof -
  let ?P = "\<lambda>M. BeginExpanded M \<le> Index"
  let ?It = "partition_point Ms ?P"
  have part: "partitioned ?P Ms" by (rule sorted_wrt_partitioned(1) [OF assms])
  note pp = partition_point_spec [OF part]
  show ?thesis
  proof (cases "?It = 0")
    case True
    have "\<not> ?P M" if "M \<in> set Ms" for M
    proof -
      from that obtain i where "i < length Ms" "Ms ! i = M" by (auto simp: in_set_conv_nth)
      with pp(3) [of i] True show ?thesis by auto
    qed
    then have "find ?P (rev Ms) = None" by (simp add: find_None_iff)
    with True show ?thesis by (simp add: rightmost_mapping_def)
  next
    case False
    have k: "?It - 1 < length Ms" using False pp(1) by simp
    have "find ?P (rev Ms) = Some (Ms ! (?It - 1))"
    proof (rule find_rev_last [OF k])
      show "?P (Ms ! (?It - 1))" using pp(2) [of "?It - 1"] False by simp
      show "\<not> ?P (Ms ! i)" if "?It - 1 < i" "i < length Ms" for i
        using pp(3) [of i] that by simp
    qed
    with False show ?thesis by (simp add: rightmost_mapping_def)
  qed
qed

lemma rightmost_mapping_mem: "rightmost_mapping Ms Index = Some M \<Longrightarrow> M \<in> set Ms"
  unfolding rightmost_mapping_def find_Some_iff by (metis nth_mem set_rev)

lemma spelledForExpandedToken_rightmost:
  assumes "Index < length (ExpandedTokens TB)"
    and "Files TB (getFileID SM (getExpansionLoc SM (Location (ExpandedTokens TB ! Index))))
          = Some File"
    and "sorted_wrt (\<lambda>A B. BeginExpanded A \<le> BeginExpanded B) (Mappings File)"
  shows "spelledForExpandedToken SM TB Index =
     Inr (case rightmost_mapping (Mappings File) Index of
            None \<Rightarrow> ((getFileID SM (getExpansionLoc SM (Location (ExpandedTokens TB ! Index))),
                      unsigned_sub Index (File_BeginExpanded File)), None)
          | Some M \<Rightarrow>
              if Index < EndExpanded M
              then ((getFileID SM (getExpansionLoc SM (Location (ExpandedTokens TB ! Index))),
                     BeginSpelled M), Some M)
              else ((getFileID SM (getExpansionLoc SM (Location (ExpandedTokens TB ! Index))),
                     unsigned_add (EndSpelled M) (unsigned_sub Index (EndExpanded M))), None))"
  using assms(1,2)
  unfolding spelledForExpandedToken_def rightmost_mapping_partition_point [OF assms(3)]
  by (simp add: Let_def)

text \<open>
  C2. For an expanded token of the buffer whose file is tracked and has its mappings
  ordered by \<open>BeginExpanded\<close>, \<open>spelledForExpandedToken\<close> answers as the specification
  says: with no mapping that begins at or before the index, the spelled token at
  index - BeginExpanded of the file and no mapping; inside the rightmost such mapping,
  the spelled token at its BeginSpelled and the mapping; after it, the spelled token at
  EndSpelled + (index - EndExpanded) and no mapping. The code computes the last index
  in 32-bit unsigned arithmetic, so the sum is taken to fit: for every mapping of the
  file, EndSpelled + (index - EndExpanded) is below \<open>2 ^ 32\<close>, as it is whenever the
  sum is an index into the spelled tokens of a file that source locations of 32 bits
  can address.
\<close>

theorem spelledForExpandedToken_refines_spec:
  assumes "Index < length (ExpandedTokens TB)"
    and "FID = getFileID SM (getExpansionLoc SM (Location (ExpandedTokens TB ! Index)))"
    and "Files TB FID = Some File"
    and "sorted_wrt (\<lambda>A B. BeginExpanded A \<le> BeginExpanded B) (Mappings File)"
    and "File_BeginExpanded File \<le> Index"
    and "\<forall>M \<in> set (Mappings File). EndSpelled M + (Index - EndExpanded M) < 4294967296"
  shows "spelledForExpandedToken SM TB Index = Inr (spelledForExpandedToken_spec FID File Index)"
proof -
  from assms(2,3) have F: "Files TB (getFileID SM (getExpansionLoc SM
      (Location (ExpandedTokens TB ! Index)))) = Some File" by simp
  note code = spelledForExpandedToken_rightmost [OF assms(1) F assms(4)]
  show ?thesis
  proof (cases "rightmost_mapping (Mappings File) Index")
    case None
    with code assms(2,5) show ?thesis
      by (simp add: spelledForExpandedToken_spec_def unsigned_sub_def)
  next
    case (Some M)
    from rightmost_mapping_mem [OF Some] assms(6)
    have fits: "EndSpelled M + (Index - EndExpanded M) < 4294967296" by blast
    then have "\<not> Index < EndExpanded M \<Longrightarrow>
        unsigned_add (EndSpelled M) (unsigned_sub Index (EndExpanded M))
          = EndSpelled M + (Index - EndExpanded M)"
      by (simp add: unsigned_add_def unsigned_sub_def)
    with code Some assms(2) show ?thesis
      by (simp add: spelledForExpandedToken_spec_def)
  qed
qed

lemma expansionStartingAt_sorted:
  assumes "Files TB F = Some File"
    and "i < length (SpelledTokens File)"
    and "isFileID SM (Location (SpelledTokens File ! i))"
    and "getFileID SM (Location (SpelledTokens File ! i)) = F"
    and "sorted_wrt (\<lambda>A B. BeginSpelled A \<le> BeginSpelled B) (Mappings File)"
  shows "expansionStartingAt SM TB (F, i) =
      Inr (case find (\<lambda>M. BeginSpelled M = i) (Mappings File) of
             None \<Rightarrow> None
           | Some M \<Rightarrow> Some \<lparr>Spelled = (F, makeArrayRef (BeginSpelled M) (EndSpelled M)),
                            Expanded = makeArrayRef (BeginExpanded M) (EndExpanded M)\<rparr>)"
    and "(\<exists>E. expansionStartingAt SM TB (F, i) = Inr (Some E)) \<longleftrightarrow>
         (\<exists>M \<in> set (Mappings File). BeginSpelled M = i)"
proof -
  let ?Ms = "Mappings File"
  let ?P = "\<lambda>M. BeginSpelled M < i"
  let ?M = "partition_point ?Ms ?P"
  have part: "partitioned ?P ?Ms" by (rule sorted_wrt_partitioned(2) [OF assms(5)])
  note pp = partition_point_spec [OF part]
  have sorted: "BeginSpelled (?Ms ! a) \<le> BeginSpelled (?Ms ! b)" if "a < b" "b < length ?Ms" for a b
    using assms(5) that by (simp add: sorted_wrt_iff_nth_less)
  have found: "find (\<lambda>M. BeginSpelled M = i) ?Ms =
      (if ?M = length ?Ms \<or> BeginSpelled (?Ms ! ?M) \<noteq> i then None else Some (?Ms ! ?M))"
  proof (cases "?M = length ?Ms \<or> BeginSpelled (?Ms ! ?M) \<noteq> i")
    case True
    have "BeginSpelled M \<noteq> i" if "M \<in> set ?Ms" for M
    proof -
      from that obtain k where k: "k < length ?Ms" "?Ms ! k = M" by (auto simp: in_set_conv_nth)
      show ?thesis
      proof (cases "k < ?M")
        case True
        with pp(2) [of k] k show ?thesis by simp
      next
        case False
        then have ge: "?M \<le> k" by simp
        with k True have m: "?M < length ?Ms" "BeginSpelled (?Ms ! ?M) \<noteq> i" by auto
        have "\<not> BeginSpelled (?Ms ! ?M) < i" using pp(3) [of ?M] m by simp
        with m have "i < BeginSpelled (?Ms ! ?M)" by simp
        moreover have "BeginSpelled (?Ms ! ?M) \<le> BeginSpelled (?Ms ! k)"
          using sorted [of ?M k] ge k by (cases "?M = k") auto
        ultimately show ?thesis using k by simp
      qed
    qed
    then have "find (\<lambda>M. BeginSpelled M = i) ?Ms = None" by (simp add: find_None_iff)
    with True show ?thesis by simp
  next
    case False
    then have m: "?M < length ?Ms" "BeginSpelled (?Ms ! ?M) = i" using pp(1) by auto
    have "find (\<lambda>M. BeginSpelled M = i) ?Ms = Some (?Ms ! ?M)"
    proof (rule find_first [OF m(1)])
      show "BeginSpelled (?Ms ! ?M) = i" by (rule m(2))
      show "BeginSpelled (?Ms ! k) \<noteq> i" if "k < ?M" for k using pp(2) [of k] that by simp
    qed
    with False show ?thesis by simp
  qed
  show eq: "expansionStartingAt SM TB (F, i) =
      Inr (case find (\<lambda>M. BeginSpelled M = i) (Mappings File) of
             None \<Rightarrow> None
           | Some M \<Rightarrow> Some \<lparr>Spelled = (F, makeArrayRef (BeginSpelled M) (EndSpelled M)),
                            Expanded = makeArrayRef (BeginExpanded M) (EndExpanded M)\<rparr>)"
    unfolding found using assms(1-4)
    by (simp add: expansionStartingAt_def deref_def Let_def)
  show "(\<exists>E. expansionStartingAt SM TB (F, i) = Inr (Some E)) \<longleftrightarrow>
         (\<exists>M \<in> set (Mappings File). BeginSpelled M = i)"
    unfolding eq by (auto simp: find_None_iff find_Some_iff split: option.splits)
qed

lemma makeArrayRef_ordered: "b \<le> e \<Longrightarrow> makeArrayRef b e = ArrayRef b (e - b)"
  by (simp add: makeArrayRef_def)

text \<open>
  C8. For a pointer to a spelled token of a tracked file whose mappings are ordered by
  \<open>BeginSpelled\<close> and have their ends in order (BeginSpelled \<le> EndSpelled and
  BeginExpanded \<le> EndExpanded), \<open>expansionStartingAt\<close> returns an expansion if and
  only if the index of the token is the \<open>BeginSpelled\<close> of a mapping of the file, and
  then the expansion has the spelled slice [BeginSpelled, EndSpelled) and the expanded
  slice [BeginExpanded, EndExpanded) of that mapping: they begin at BeginSpelled and
  BeginExpanded and hold EndSpelled - BeginSpelled and EndExpanded - BeginExpanded
  tokens.
\<close>

theorem expansionStartingAt_iff_mapping_begins:
  assumes "Files TB F = Some File"
    and "i < length (SpelledTokens File)"
    and "isFileID SM (Location (SpelledTokens File ! i))"
    and "getFileID SM (Location (SpelledTokens File ! i)) = F"
    and "sorted_wrt (\<lambda>A B. BeginSpelled A \<le> BeginSpelled B) (Mappings File)"
    and "\<forall>M \<in> set (Mappings File).
           BeginSpelled M \<le> EndSpelled M \<and> BeginExpanded M \<le> EndExpanded M"
  shows "((\<exists>E. expansionStartingAt SM TB (F, i) = Inr (Some E)) \<longleftrightarrow>
            (\<exists>k < length (Mappings File). BeginSpelled (Mappings File ! k) = i)) \<and>
         expansionStartingAt SM TB (F, i) =
           Inr (case find (\<lambda>M. BeginSpelled M = i) (Mappings File) of
                  None \<Rightarrow> None
                | Some M \<Rightarrow>
                    Some \<lparr>Spelled = (F, ArrayRef (BeginSpelled M) (EndSpelled M - BeginSpelled M)),
                          Expanded = ArrayRef (BeginExpanded M)
                                       (EndExpanded M - BeginExpanded M)\<rparr>)"
proof -
  note es = expansionStartingAt_sorted [OF assms(1-5)]
  have "(\<exists>E. expansionStartingAt SM TB (F, i) = Inr (Some E)) \<longleftrightarrow>
            (\<exists>k < length (Mappings File). BeginSpelled (Mappings File ! k) = i)"
    using es(2) by (simp add: in_set_conv_nth Bex_def) metis
  moreover have "(case find (\<lambda>M. BeginSpelled M = i) (Mappings File) of
                  None \<Rightarrow> None
                | Some M \<Rightarrow> Some \<lparr>Spelled = (F, makeArrayRef (BeginSpelled M) (EndSpelled M)),
                                 Expanded = makeArrayRef (BeginExpanded M) (EndExpanded M)\<rparr>)
      = (case find (\<lambda>M. BeginSpelled M = i) (Mappings File) of
                  None \<Rightarrow> None
                | Some M \<Rightarrow>
                    Some \<lparr>Spelled = (F, ArrayRef (BeginSpelled M) (EndSpelled M - BeginSpelled M)),
                          Expanded = ArrayRef (BeginExpanded M)
                                       (EndExpanded M - BeginExpanded M)\<rparr>)"
  proof (cases "find (\<lambda>M. BeginSpelled M = i) (Mappings File)")
    case None
    then show ?thesis by simp
  next
    case (Some M)
    then have "M \<in> set (Mappings File)" by (auto simp: find_Some_iff)
    with assms(6) have "BeginSpelled M \<le> EndSpelled M" "BeginExpanded M \<le> EndExpanded M"
      by simp_all
    with Some show ?thesis by (simp add: makeArrayRef_ordered)
  qed
  ultimately show ?thesis using es(1) by simp
qed

lemma spelledTokensTouching_adjacent:
  assumes "isFileID SM Loc"
    and "Files TB (getFileID SM Loc) = Some File"
    and "sorted_wrt (\<lambda>A B. Location A < Location B) (SpelledTokens File)"
    and "Suc k < length (SpelledTokens File)"
    and "Kind (SpelledTokens File ! k) = tok_identifier"
    and "Kind (SpelledTokens File ! Suc k) = tok_identifier"
    and "endLocation (SpelledTokens File ! k) = Location (SpelledTokens File ! Suc k)"
    and "Loc = Location (SpelledTokens File ! Suc k)"
  shows "spelledTokensTouching SM Loc TB = Inr (getFileID SM Loc, ArrayRef k 2)"
    and "slice (SpelledTokens File) (ArrayRef k 2) = [SpelledTokens File ! k, SpelledTokens File ! Suc k]"
    and "spelledIdentifierTouching SM Loc TB = Inr (Some (getFileID SM Loc, k))"
proof -
  let ?ST = "SpelledTokens File"
  let ?P = "\<lambda>Tok. Location Tok < Loc"
  have lt: "Location (?ST ! a) < Location (?ST ! b)" if "a < b" "b < length ?ST" for a b
    using assms(3) that by (simp add: sorted_wrt_iff_nth_less)
  have part: "partitioned ?P ?ST"
    unfolding partitioned_def
  proof (intro allI impI)
    fix i j assume a: "i \<le> j \<and> j < length ?ST \<and> Location (?ST ! j) < Loc"
    show "Location (?ST ! i) < Loc"
    proof (cases "i = j")
      case True with a show ?thesis by simp
    next
      case False
      with a have "Location (?ST ! i) < Location (?ST ! j)" using lt [of i j] by simp
      with a show ?thesis by simp
    qed
  qed
  have Right: "partition_point ?ST ?P = Suc k"
  proof (rule partition_point_unique [OF part])
    show "Suc k \<le> length ?ST" using assms(4) by simp
    show "Location (?ST ! i) < Loc" if "i < Suc k" for i
      using lt [of i "Suc k"] that assms(4,8) by simp
    show "\<not> Location (?ST ! i) < Loc" if "Suc k \<le> i" "i < length ?ST" for i
      using lt [of "Suc k" i] that assms(8) by (cases "i = Suc k") auto
  qed
  show touching: "spelledTokensTouching SM Loc TB = Inr (getFileID SM Loc, ArrayRef k 2)"
    using assms(1,2,4,7,8) Right
    by (simp add: spelledTokensTouching_def spelledTokens_def Let_def makeArrayRef_def)
  show "slice ?ST (ArrayRef k 2) = [?ST ! k, ?ST ! Suc k]"
  proof -
    have "drop k ?ST = ?ST ! k # drop (Suc k) ?ST"
      using assms(4) by (simp add: Cons_nth_drop_Suc)
    moreover have "drop (Suc k) ?ST = ?ST ! Suc k # drop (Suc (Suc k)) ?ST"
      using assms(4) by (simp add: Cons_nth_drop_Suc)
    ultimately show ?thesis by (simp add: slice_def numeral_2_eq_2)
  qed
  show "spelledIdentifierTouching SM Loc TB = Inr (Some (getFileID SM Loc, k))"
    using assms(2,5)
    by (simp add: spelledIdentifierTouching_def touching spelledTokens_def numeral_2_eq_2)
qed

text \<open>
  C9. In a tracked file whose spelled tokens are ordered by location, let two
  identifier tokens be adjacent with nothing between them: the left one ends where the
  right one begins. At that location \<open>spelledTokensTouching\<close> returns exactly these two
  tokens, the left one first, and \<open>spelledIdentifierTouching\<close> returns the left one.
\<close>

theorem spelledTokensTouching_shared_boundary:
  assumes "isFileID SM Loc"
    and "Files TB (getFileID SM Loc) = Some File"
    and "sorted_wrt (\<lambda>A B. Location A < Location B) (SpelledTokens File)"
    and "Suc k < length (SpelledTokens File)"
    and "Kind (SpelledTokens File ! k) = tok_identifier"
    and "Kind (SpelledTokens File ! Suc k) = tok_identifier"
    and "endLocation (SpelledTokens File ! k) = Location (SpelledTokens File ! Suc k)"
    and "Loc = Location (SpelledTokens File ! Suc k)"
  shows "spelledTokensTouching SM Loc TB = Inr (getFileID SM Loc, ArrayRef k 2) \<and>
         slice (SpelledTokens File) (ArrayRef k 2)
           = [SpelledTokens File ! k, SpelledTokens File ! Suc k] \<and>
         spelledIdentifierTouching SM Loc TB = Inr (Some (getFileID SM Loc, k))"
  using spelledTokensTouching_adjacent [OF assms] by simp

text \<open>
  C7. \<open>spelledForExpanded\<close> returns none for an empty range of expanded tokens, and
  returns none when the two ends of a range resolve to spelled tokens whose locations
  are in different files. In both cases the result is a value, not an assertion failure
  or a fatal error; the query is a function of the buffer and returns no new buffer.
\<close>

theorem spelledForExpanded_none:
  "spelledForExpanded SM TB (ArrayRef b 0) = Inr None \<and>
   (n \<noteq> 0 \<and>
    spelledForExpandedToken SM TB b = Inr (P1, M1) \<and>
    spelledForExpandedToken SM TB (b + n - 1) = Inr (P2, M2) \<and>
    deref TB P1 = Inr T1 \<and> deref TB P2 = Inr T2 \<and>
    getFileID SM (Location T1) \<noteq> getFileID SM (Location T2) \<longrightarrow>
    spelledForExpanded SM TB (ArrayRef b n) = Inr None)"
  by (simp add: spelledForExpanded_def)

section \<open>The tokenizer and the capturer\<close>

lemma AddToken_kinds:
  assumes "AddToken LE T Tokens = Inr Tokens'"
    and "getKind T \<noteq> tok_eof" and "\<forall>s. getTokenID LE s \<noteq> tok_eof"
    and "\<forall>X \<in> set Tokens. Kind X \<noteq> tok_eof"
  shows "(\<forall>X \<in> set Tokens'. Kind X \<noteq> tok_eof) \<and> length Tokens' = length Tokens + 1"
  using assms
  by (auto simp: AddToken_def Token_of_def split: if_splits sum.splits)

lemma tokenize_loop_kinds:
  assumes "tokenize_loop LE Ts Tokens = Inr Tokens'"
    and "\<forall>T \<in> set Ts. getKind T \<noteq> tok_eof" and "\<forall>s. getTokenID LE s \<noteq> tok_eof"
    and "\<forall>X \<in> set Tokens. Kind X \<noteq> tok_eof"
  shows "(\<forall>X \<in> set Tokens'. Kind X \<noteq> tok_eof) \<and> length Tokens' = length Tokens + length Ts"
  using assms
proof (induction Ts arbitrary: Tokens)
  case Nil
  then show ?case by simp
next
  case (Cons T Ts)
  from Cons.prems(1) obtain Tokens1 where
    a: "AddToken LE T Tokens = Inr Tokens1" and b: "tokenize_loop LE Ts Tokens1 = Inr Tokens'"
    by (auto split: sum.splits)
  have c: "(\<forall>X \<in> set Tokens1. Kind X \<noteq> tok_eof) \<and> length Tokens1 = length Tokens + 1"
    using AddToken_kinds [OF a _ Cons.prems(3,4)] Cons.prems(2) by simp
  have "(\<forall>X \<in> set Tokens'. Kind X \<noteq> tok_eof) \<and> length Tokens' = length Tokens1 + length Ts"
    using Cons.IH [OF b _ Cons.prems(3)] Cons.prems(2) c by simp
  with c show ?case by simp
qed

lemma tokenize_no_eof:
  assumes "tokenize LE FID = Inr Tokens"
    and "\<forall>T \<in> set (fst (rawLex LE FID)). getKind T \<noteq> tok_eof"
    and "\<forall>s. getTokenID LE s \<noteq> tok_eof"
  shows "\<forall>X \<in> set Tokens. Kind X \<noteq> tok_eof"
    and "length Tokens = length (fst (rawLex LE FID))
            + (if getKind (snd (rawLex LE FID)) = tok_eof then 0 else 1)"
proof -
  from assms(1) obtain Tokens1 where
    a: "tokenize_loop LE (fst (rawLex LE FID)) [] = Inr Tokens1"
    and b: "(if getKind (snd (rawLex LE FID)) \<noteq> tok_eof
             then AddToken LE (snd (rawLex LE FID)) Tokens1 else Inr Tokens1) = Inr Tokens"
    by (auto simp: tokenize_def split: sum.splits)
  have c: "(\<forall>X \<in> set Tokens1. Kind X \<noteq> tok_eof) \<and> length Tokens1 = length (fst (rawLex LE FID))"
    using tokenize_loop_kinds [OF a assms(2,3)] by simp
  have "(\<forall>X \<in> set Tokens. Kind X \<noteq> tok_eof) \<and> length Tokens = length (fst (rawLex LE FID))
            + (if getKind (snd (rawLex LE FID)) = tok_eof then 0 else 1)"
  proof (cases "getKind (snd (rawLex LE FID)) = tok_eof")
    case True
    with b c show ?thesis by simp
  next
    case False
    with b have "AddToken LE (snd (rawLex LE FID)) Tokens1 = Inr Tokens" by simp
    from AddToken_kinds [OF this False assms(3)] c False show ?thesis by simp
  qed
  then show "\<forall>X \<in> set Tokens. Kind X \<noteq> tok_eof"
    and "length Tokens = length (fst (rawLex LE FID))
            + (if getKind (snd (rawLex LE FID)) = tok_eof then 0 else 1)" by simp_all
qed

text \<open>
  What \<open>MacroExpands\<close> does, in full: a disabled capturer changes nothing; an enabled
  one records the event exactly when the end of the range is a file location and
  \<open>LastExpansionEnd\<close> is invalid or before it, and a range that begins in a macro is
  recorded under the expansion location of its begin, which the assertion requires to
  be a key of the table already.
\<close>

lemma MacroExpands_cases:
  "MacroExpands SM (B, E) C =
     (if Collector C \<and> isFileID SM E \<and>
         (\<not> isValid (LastExpansionEnd C) \<or> isBeforeInTranslationUnit SM (LastExpansionEnd C) E)
      then (if isFileID SM B
            then Inr (C\<lparr>Expansions := (Expansions C)(B \<mapsto> E), LastExpansionEnd := E\<rparr>)
            else if getExpansionLoc SM B \<in> dom (Expansions C)
            then Inr (C\<lparr>Expansions := (Expansions C)(getExpansionLoc SM B \<mapsto> E),
                        LastExpansionEnd := E\<rparr>)
            else Inl AssertionFailed)
      else Inr C)"
  by (auto simp: MacroExpands_def)

section \<open>Scenarios\<close>

text \<open>
  A source manager for the scenarios: raw encodings below 1000 are file locations,
  those below 100 in file 1 and the others in file 2; a macro location is 1000 times
  its expansion location plus an offset.
\<close>

definition Ex_SM :: SourceManager where
  "Ex_SM = \<lparr>isFileID = (\<lambda>L. L < 1000),
            getExpansionLoc = (\<lambda>L. if L < 1000 then L else L div 1000),
            getFileID = (\<lambda>L. if L < 100 then 1 else 2),
            getLocForEndOfFile = (\<lambda>F. if F = 1 then 99 else 199),
            isBeforeInTranslationUnit = (\<lambda>A B. A < B)\<rparr>"

definition Ex_raw :: "nat \<Rightarrow> nat \<Rightarrow> TokenKind \<Rightarrow> ClangToken" where
  "Ex_raw L n K = \<lparr>getLocation = L, getLength = n, getKind = K, needsCleaning = False,
     hasUCN = False, getRawIdentifier = [], isAnnotation = False\<rparr>"

definition Ex_tok :: "nat \<Rightarrow> nat \<Rightarrow> TokenKind \<Rightarrow> Token" where
  "Ex_tok L n K = \<lparr>Location = L, Length = n, Kind = K\<rparr>"

text \<open>
  Scenario S2: the file \<^verbatim>\<open>#define X 1\<close>, \<^verbatim>\<open>int a = X;\<close>. The location of a token is
  its offset plus 1; the expanded \<^verbatim>\<open>1\<close> is at the macro location 21000, which expands
  at the use of \<^verbatim>\<open>X\<close>, location 21.
\<close>

definition S2_Lexer :: LexerEnv where
  "S2_Lexer = \<lparr>rawLex = (\<lambda>F. ([Ex_raw 1 1 (tok_other 0), Ex_raw 2 6 tok_raw_identifier,
      Ex_raw 9 1 tok_raw_identifier, Ex_raw 11 1 (tok_other 1), Ex_raw 13 3 tok_raw_identifier,
      Ex_raw 17 1 tok_raw_identifier, Ex_raw 19 1 (tok_other 2), Ex_raw 21 1 tok_raw_identifier,
      Ex_raw 22 1 (tok_other 3)], Ex_raw 23 0 tok_eof)),
    getTokenID = (\<lambda>s. tok_identifier)\<rparr>"

definition S2_Expanded :: "Token list" where
  "S2_Expanded = [Ex_tok 13 3 tok_identifier, Ex_tok 17 1 tok_identifier, Ex_tok 19 1 (tok_other 2),
     Ex_tok 21000 1 (tok_other 1), Ex_tok 22 1 (tok_other 3), Ex_tok 23 0 tok_eof]"

definition S2_Expansions :: PPExpansions where
  "S2_Expansions = [21 \<mapsto> 21]"

definition S2_File :: MarkedFile where
  "S2_File = \<lparr>SpelledTokens = [Ex_tok 1 1 (tok_other 0), Ex_tok 2 6 tok_identifier,
       Ex_tok 9 1 tok_identifier, Ex_tok 11 1 (tok_other 1), Ex_tok 13 3 tok_identifier,
       Ex_tok 17 1 tok_identifier, Ex_tok 19 1 (tok_other 2), Ex_tok 21 1 tok_identifier,
       Ex_tok 22 1 (tok_other 3)],
     Mappings = [\<lparr>BeginSpelled = 0, EndSpelled = 4, BeginExpanded = 0, EndExpanded = 0\<rparr>,
                 \<lparr>BeginSpelled = 7, EndSpelled = 8, BeginExpanded = 3, EndExpanded = 4\<rparr>],
     File_BeginExpanded = 0, File_EndExpanded = 5\<rparr>"

definition S2_Buffer :: TokenBuffer where
  "S2_Buffer = \<lparr>ExpandedTokens = S2_Expanded, Files = [1 \<mapsto> S2_File], FileKeys = [1]\<rparr>"

lemmas builder_defs = build_def buildSpelledTokens_def tokenize_def AddToken_def Token_of_def
  discard_def advance_def Files_emplace_def Files_at_def FlushMapping_def lookup_def isValid_def
  Let_def discard_loop.simps build_loop.simps consume_spelled.simps file_run.simps
  expanded_run.simps MarkedFile_default_def

lemmas scenario_defs = Ex_SM_def Ex_raw_def Ex_tok_def

lemma S2_build_fields:
  "\<exists>TB. build S2_Lexer Ex_SM S2_Expansions S2_Expanded = Some (Inr TB) \<and>
     ExpandedTokens TB = S2_Expanded \<and> FileKeys TB = [1] \<and>
     Files TB 1 = Some S2_File \<and> (\<forall>F. F \<noteq> 1 \<longrightarrow> Files TB F = None)"
  by (simp add: builder_defs scenario_defs S2_Lexer_def S2_Expanded_def S2_Expansions_def
      S2_File_def)

lemma S2_build: "build S2_Lexer Ex_SM S2_Expansions S2_Expanded = Some (Inr S2_Buffer)"
proof -
  from S2_build_fields obtain TB where
    b: "build S2_Lexer Ex_SM S2_Expansions S2_Expanded = Some (Inr TB)"
    and f: "ExpandedTokens TB = S2_Expanded" "FileKeys TB = [1]"
      "Files TB 1 = Some S2_File" "\<forall>F. F \<noteq> 1 \<longrightarrow> Files TB F = None"
    by blast
  have "Files TB = [1 \<mapsto> S2_File]" using f(3,4) by (intro ext) simp
  with f(1,2) have "TB = S2_Buffer" by (simp add: S2_Buffer_def)
  with b show ?thesis by simp
qed

lemmas query_defs = spelledForExpandedToken_def spelledForExpandedToken_spec_def
  rightmost_mapping_def partition_point_def partition_point_loop.simps unsigned_sub_def
  unsigned_add_def deref_def makeArrayRef_def

theorem spelledForExpandedToken_refines_spec_witness:
  "4 < length (ExpandedTokens S2_Buffer) \<and>
   getFileID Ex_SM (getExpansionLoc Ex_SM (Location (ExpandedTokens S2_Buffer ! 4))) = 1 \<and>
   Files S2_Buffer 1 = Some S2_File \<and>
   sorted_wrt (\<lambda>A B. BeginExpanded A \<le> BeginExpanded B) (Mappings S2_File) \<and>
   File_BeginExpanded S2_File \<le> 4 \<and>
   list_all (\<lambda>M. EndSpelled M + (4 - EndExpanded M) < 4294967296) (Mappings S2_File) \<and>
   spelledForExpandedToken_spec 1 S2_File 4 = ((1, 8), None) \<and>
   spelledForExpandedToken Ex_SM S2_Buffer 4 = Inr ((1, 8), None)"
proof -
  have a: "4 < length (ExpandedTokens S2_Buffer)"
    by (simp add: S2_Buffer_def S2_Expanded_def)
  have b: "1 = getFileID Ex_SM (getExpansionLoc Ex_SM (Location (ExpandedTokens S2_Buffer ! 4)))"
    by (simp add: S2_Buffer_def S2_Expanded_def scenario_defs)
  have c: "Files S2_Buffer 1 = Some S2_File" by (simp add: S2_Buffer_def)
  have d: "sorted_wrt (\<lambda>A B. BeginExpanded A \<le> BeginExpanded B) (Mappings S2_File)"
    by (simp add: S2_File_def)
  have e: "File_BeginExpanded S2_File \<le> 4" by (simp add: S2_File_def)
  have f: "\<forall>M \<in> set (Mappings S2_File). EndSpelled M + (4 - EndExpanded M) < 4294967296"
    by (simp add: S2_File_def)
  have g: "spelledForExpandedToken_spec 1 S2_File 4 = ((1, 8), None)"
    by (simp add: spelledForExpandedToken_spec_def rightmost_mapping_def S2_File_def)
  from b have b': "getFileID Ex_SM (getExpansionLoc Ex_SM (Location (ExpandedTokens S2_Buffer ! 4)))
      = 1" by simp
  from spelledForExpandedToken_refines_spec [OF a b c d e f] g
  have "spelledForExpandedToken Ex_SM S2_Buffer 4 = Inr ((1, 8), None)" by simp
  with a b' c d e f g show ?thesis by (simp add: list_all_iff)
qed

text \<open>
  Scenario S5: the two identifiers \<^verbatim>\<open>foo\<close> and \<^verbatim>\<open>bar\<close> at the locations 1 and 4, with
  nothing between them.
\<close>

definition S5_File :: MarkedFile where
  "S5_File = \<lparr>SpelledTokens = [Ex_tok 1 3 tok_identifier, Ex_tok 4 3 tok_identifier],
     Mappings = [], File_BeginExpanded = 0, File_EndExpanded = 2\<rparr>"

definition S5_Buffer :: TokenBuffer where
  "S5_Buffer = \<lparr>ExpandedTokens = [Ex_tok 1 3 tok_identifier, Ex_tok 4 3 tok_identifier,
       Ex_tok 7 0 tok_eof],
     Files = [1 \<mapsto> S5_File], FileKeys = [1]\<rparr>"

text \<open>
  A buffer of two files: file 1 is \<^verbatim>\<open>a\<close> followed by a directive that includes file 2,
  which is \<^verbatim>\<open>x\<close>.
\<close>

definition Incl_Buffer :: TokenBuffer where
  "Incl_Buffer = \<lparr>ExpandedTokens = [Ex_tok 1 1 tok_identifier, Ex_tok 101 1 tok_identifier,
       Ex_tok 20 0 tok_eof],
     Files = [1 \<mapsto> \<lparr>SpelledTokens = [Ex_tok 1 1 tok_identifier, Ex_tok 3 1 (tok_other 0),
                         Ex_tok 4 7 tok_identifier, Ex_tok 12 3 (tok_other 4)],
                       Mappings = [\<lparr>BeginSpelled = 1, EndSpelled = 4, BeginExpanded = 2,
                                    EndExpanded = 2\<rparr>],
                       File_BeginExpanded = 0, File_EndExpanded = 2\<rparr>,
              2 \<mapsto> \<lparr>SpelledTokens = [Ex_tok 101 1 tok_identifier], Mappings = [],
                       File_BeginExpanded = 1, File_EndExpanded = 2\<rparr>],
     FileKeys = [1, 2]\<rparr>"

theorem expansionStartingAt_iff_mapping_begins_witness:
  "Files S2_Buffer 1 = Some S2_File \<and> 7 < length (SpelledTokens S2_File) \<and>
   isFileID Ex_SM (Location (SpelledTokens S2_File ! 7)) \<and>
   getFileID Ex_SM (Location (SpelledTokens S2_File ! 7)) = 1 \<and>
   sorted_wrt (\<lambda>A B. BeginSpelled A \<le> BeginSpelled B) (Mappings S2_File) \<and>
   list_all (\<lambda>M. BeginSpelled M \<le> EndSpelled M \<and> BeginExpanded M \<le> EndExpanded M)
     (Mappings S2_File) \<and>
   expansionStartingAt Ex_SM S2_Buffer (1, 7) =
     Inr (Some \<lparr>Spelled = (1, ArrayRef 7 1), Expanded = ArrayRef 3 1\<rparr>) \<and>
   expansionStartingAt Ex_SM S2_Buffer (1, 6) = Inr None"
proof -
  have a: "Files S2_Buffer 1 = Some S2_File" by (simp add: S2_Buffer_def)
  have b: "7 < length (SpelledTokens S2_File)" "6 < length (SpelledTokens S2_File)"
    by (simp_all add: S2_File_def)
  have c: "isFileID Ex_SM (Location (SpelledTokens S2_File ! 7))"
    "isFileID Ex_SM (Location (SpelledTokens S2_File ! 6))"
    by (simp_all add: S2_File_def scenario_defs)
  have d: "getFileID Ex_SM (Location (SpelledTokens S2_File ! 7)) = 1"
    "getFileID Ex_SM (Location (SpelledTokens S2_File ! 6)) = 1"
    by (simp_all add: S2_File_def scenario_defs)
  have e: "sorted_wrt (\<lambda>A B. BeginSpelled A \<le> BeginSpelled B) (Mappings S2_File)"
    by (simp add: S2_File_def)
  have f: "find (\<lambda>M. BeginSpelled M = 7) (Mappings S2_File) =
      Some \<lparr>BeginSpelled = 7, EndSpelled = 8, BeginExpanded = 3, EndExpanded = 4\<rparr>"
    "find (\<lambda>M. BeginSpelled M = 6) (Mappings S2_File) = None"
    by (simp_all add: S2_File_def)
  have g: "\<forall>M \<in> set (Mappings S2_File).
      BeginSpelled M \<le> EndSpelled M \<and> BeginExpanded M \<le> EndExpanded M"
    by (simp add: S2_File_def)
  from expansionStartingAt_iff_mapping_begins [OF a b(1) c(1) d(1) e g]
    expansionStartingAt_iff_mapping_begins [OF a b(2) c(2) d(2) e g]
  have "expansionStartingAt Ex_SM S2_Buffer (1, 7) =
     Inr (Some \<lparr>Spelled = (1, ArrayRef 7 1), Expanded = ArrayRef 3 1\<rparr>)"
    "expansionStartingAt Ex_SM S2_Buffer (1, 6) = Inr None"
    using f by simp_all
  with a b c d e g show ?thesis by (simp add: list_all_iff)
qed

theorem spelledTokensTouching_shared_boundary_witness:
  "isFileID Ex_SM 4 \<and> Files S5_Buffer (getFileID Ex_SM 4) = Some S5_File \<and>
   sorted_wrt (\<lambda>A B. Location A < Location B) (SpelledTokens S5_File) \<and>
   Suc 0 < length (SpelledTokens S5_File) \<and>
   Kind (SpelledTokens S5_File ! 0) = tok_identifier \<and>
   Kind (SpelledTokens S5_File ! Suc 0) = tok_identifier \<and>
   endLocation (SpelledTokens S5_File ! 0) = Location (SpelledTokens S5_File ! Suc 0) \<and>
   4 = Location (SpelledTokens S5_File ! Suc 0) \<and>
   spelledTokensTouching Ex_SM 4 S5_Buffer = Inr (1, ArrayRef 0 2) \<and>
   slice (SpelledTokens S5_File) (ArrayRef 0 2)
     = [Ex_tok 1 3 tok_identifier, Ex_tok 4 3 tok_identifier] \<and>
   spelledIdentifierTouching Ex_SM 4 S5_Buffer = Inr (Some (1, 0))"
proof -
  have a: "isFileID Ex_SM 4" by (simp add: scenario_defs)
  have b: "Files S5_Buffer (getFileID Ex_SM 4) = Some S5_File"
    by (simp add: S5_Buffer_def scenario_defs)
  have c: "sorted_wrt (\<lambda>A B. Location A < Location B) (SpelledTokens S5_File)"
    by (simp add: S5_File_def scenario_defs)
  have d: "Suc 0 < length (SpelledTokens S5_File)" by (simp add: S5_File_def)
  have e: "Kind (SpelledTokens S5_File ! 0) = tok_identifier"
    "Kind (SpelledTokens S5_File ! Suc 0) = tok_identifier"
    by (simp_all add: S5_File_def scenario_defs)
  have f: "endLocation (SpelledTokens S5_File ! 0) = Location (SpelledTokens S5_File ! Suc 0)"
    by (simp add: S5_File_def scenario_defs endLocation_def)
  have g: "4 = Location (SpelledTokens S5_File ! Suc 0)" by (simp add: S5_File_def scenario_defs)
  have h: "getFileID Ex_SM 4 = 1" by (simp add: scenario_defs)
  have i: "[SpelledTokens S5_File ! 0, SpelledTokens S5_File ! Suc 0]
      = [Ex_tok 1 3 tok_identifier, Ex_tok 4 3 tok_identifier]" by (simp add: S5_File_def)
  from spelledTokensTouching_shared_boundary [OF a b c d e f g]
  show ?thesis using a b c d e f g h i by simp
qed

theorem spelledForExpanded_none_witness:
  "spelledForExpanded Ex_SM Incl_Buffer (ArrayRef 0 0) = Inr None \<and>
   spelledForExpandedToken Ex_SM Incl_Buffer 0 = Inr ((1, 0), None) \<and>
   spelledForExpandedToken Ex_SM Incl_Buffer (0 + 2 - 1) = Inr ((2, 0), None) \<and>
   deref Incl_Buffer (1, 0) = Inr (Ex_tok 1 1 tok_identifier) \<and>
   deref Incl_Buffer (2, 0) = Inr (Ex_tok 101 1 tok_identifier) \<and>
   getFileID Ex_SM (Location (Ex_tok 1 1 tok_identifier))
     \<noteq> getFileID Ex_SM (Location (Ex_tok 101 1 tok_identifier)) \<and>
   spelledForExpanded Ex_SM Incl_Buffer (ArrayRef 0 2) = Inr None"
proof -
  have a: "spelledForExpandedToken Ex_SM Incl_Buffer 0 = Inr ((1, 0), None)"
    by (simp add: query_defs Incl_Buffer_def scenario_defs)
  have b: "spelledForExpandedToken Ex_SM Incl_Buffer (0 + 2 - 1) = Inr ((2, 0), None)"
    by (simp add: query_defs Incl_Buffer_def scenario_defs)
  have c: "deref Incl_Buffer (1, 0) = Inr (Ex_tok 1 1 tok_identifier)"
    by (simp add: deref_def Incl_Buffer_def)
  have d: "deref Incl_Buffer (2, 0) = Inr (Ex_tok 101 1 tok_identifier)"
    by (simp add: deref_def Incl_Buffer_def)
  have e: "getFileID Ex_SM (Location (Ex_tok 1 1 tok_identifier))
     \<noteq> getFileID Ex_SM (Location (Ex_tok 101 1 tok_identifier))"
    by (simp add: scenario_defs)
  from spelledForExpanded_none [of Ex_SM Incl_Buffer 0 2 "(1, 0)" None "(2, 0)" None
      "Ex_tok 1 1 tok_identifier" "Ex_tok 101 1 tok_identifier"]
  show ?thesis using a b c d e by simp
qed

text \<open>
  C4, as it stands, fails for a capturer that has been disabled: the event below ends
  at a file location and \<open>LastExpansionEnd\<close> is invalid, yet nothing is recorded.
\<close>

theorem MacroExpands_disabled_counterexample:
  "isFileID Ex_SM 21 \<and>
   \<not> isValid (LastExpansionEnd \<lparr>Collector = False, Expansions = Map.empty, LastExpansionEnd = 0\<rparr>) \<and>
   MacroExpands Ex_SM (21, 21) \<lparr>Collector = False, Expansions = Map.empty, LastExpansionEnd = 0\<rparr>
     = Inr \<lparr>Collector = False, Expansions = Map.empty, LastExpansionEnd = 0\<rparr>"
  by (simp add: MacroExpands_def isValid_def scenario_defs)

text \<open>
  C4, amended. While the capturer is enabled, \<open>MacroExpands\<close> records the event if and
  only if the end of the range is a file location and \<open>LastExpansionEnd\<close> is invalid or
  before it in translation-unit order. Recording stores the end under the begin of the
  range and sets \<open>LastExpansionEnd\<close>; a begin that is not a file location is first
  replaced by its expansion location, which must be a key of the table already (the
  assertion fails otherwise), so that the record is merged into the one of the outer
  macro. A disabled capturer records nothing.
\<close>

theorem MacroExpands_records:
  "MacroExpands SM (B, E) C =
     (if Collector C \<and> isFileID SM E \<and>
         (\<not> isValid (LastExpansionEnd C) \<or> isBeforeInTranslationUnit SM (LastExpansionEnd C) E)
      then (if isFileID SM B
            then Inr (C\<lparr>Expansions := (Expansions C)(B \<mapsto> E), LastExpansionEnd := E\<rparr>)
            else if getExpansionLoc SM B \<in> dom (Expansions C)
            then Inr (C\<lparr>Expansions := (Expansions C)(getExpansionLoc SM B \<mapsto> E),
                        LastExpansionEnd := E\<rparr>)
            else Inl AssertionFailed)
      else Inr C)"
  by (rule MacroExpands_cases)

theorem MacroExpands_records_witness:
  "MacroExpands Ex_SM (5000, 8) \<lparr>Collector = True, Expansions = [5 \<mapsto> 5], LastExpansionEnd = 5\<rparr>
     = Inr \<lparr>Collector = True, Expansions = [5 \<mapsto> 8], LastExpansionEnd = 8\<rparr> \<and>
   MacroExpands Ex_SM (6, 7) \<lparr>Collector = True, Expansions = [5 \<mapsto> 8], LastExpansionEnd = 8\<rparr>
     = Inr \<lparr>Collector = True, Expansions = [5 \<mapsto> 8], LastExpansionEnd = 8\<rparr>"
  using MacroExpands_records [of Ex_SM 5000 8
      "\<lparr>Collector = True, Expansions = [5 \<mapsto> 5], LastExpansionEnd = 5\<rparr>"]
    MacroExpands_records [of Ex_SM 6 7
      "\<lparr>Collector = True, Expansions = [5 \<mapsto> 8], LastExpansionEnd = 8\<rparr>"]
  by (simp add: isValid_def scenario_defs)

section \<open>The loops of the builder\<close>

lemma consume_spelled_ge: "n \<le> consume_spelled ST End n"
proof (induction ST End n rule: consume_spelled.induct)
  case (1 ST End n)
  show ?case
  proof (cases "n < length ST \<and> Location (ST ! n) \<le> End")
    case True
    then have "consume_spelled ST End n = consume_spelled ST End (n + 1)"
      by (subst consume_spelled.simps) auto
    with "1.IH" [OF True] show ?thesis by simp
  next
    case False
    then have "consume_spelled ST End n = n" by (subst consume_spelled.simps) auto
    then show ?thesis by simp
  qed
qed

lemma consume_spelled_le: "n \<le> length ST \<Longrightarrow> consume_spelled ST End n \<le> length ST"
proof (induction ST End n rule: consume_spelled.induct)
  case (1 ST End n)
  show ?case
  proof (cases "n < length ST \<and> Location (ST ! n) \<le> End")
    case True
    then have "consume_spelled ST End n = consume_spelled ST End (n + 1)"
      by (subst consume_spelled.simps) auto
    with "1.IH" [OF True] True show ?thesis by simp
  next
    case False
    then have "consume_spelled ST End n = n" by (subst consume_spelled.simps) auto
    with "1.prems" show ?thesis by simp
  qed
qed

lemma consume_spelled_between:
  "n \<le> j \<Longrightarrow> j < consume_spelled ST End n \<Longrightarrow> j < length ST \<and> Location (ST ! j) \<le> End"
proof (induction ST End n rule: consume_spelled.induct)
  case (1 ST End n)
  show ?case
  proof (cases "n < length ST \<and> Location (ST ! n) \<le> End")
    case True
    then have eq: "consume_spelled ST End n = consume_spelled ST End (n + 1)"
      by (subst consume_spelled.simps) auto
    show ?thesis
    proof (cases "j = n")
      case True
      with \<open>n < length ST \<and> Location (ST ! n) \<le> End\<close> show ?thesis by simp
    next
      case False
      with "1.prems" have "n + 1 \<le> j" by simp
      from "1.IH" [OF True this] "1.prems"(2) eq show ?thesis by simp
    qed
  next
    case False
    then have "consume_spelled ST End n = n" by (subst consume_spelled.simps) auto
    with "1.prems" show ?thesis by simp
  qed
qed

lemma consume_spelled_exit:
  "\<not> (consume_spelled ST End n < length ST \<and> Location (ST ! consume_spelled ST End n) \<le> End)"
proof (induction ST End n rule: consume_spelled.induct)
  case (1 ST End n)
  show ?case
  proof (cases "n < length ST \<and> Location (ST ! n) \<le> End")
    case True
    then have "consume_spelled ST End n = consume_spelled ST End (n + 1)"
      by (subst consume_spelled.simps) auto
    with "1.IH" [OF True] show ?thesis by simp
  next
    case False
    then have "consume_spelled ST End n = n" by (subst consume_spelled.simps) auto
    with False show ?thesis by simp
  qed
qed

lemma consume_spelled_progress:
  assumes "n < length ST" "Location (ST ! n) \<le> End"
  shows "n < consume_spelled ST End n"
proof -
  have "consume_spelled ST End n = consume_spelled ST End (n + 1)"
    using assms by (subst consume_spelled.simps) auto
  with consume_spelled_ge [of "n + 1" ST End] show ?thesis by simp
qed

lemma expanded_run_ge: "e \<le> expanded_run SM ET X e"
proof (induction SM ET X e rule: expanded_run.induct)
  case (1 SM ET X e)
  show ?case
  proof (cases "e < length ET \<and> getExpansionLoc SM (Location (ET ! e)) = X")
    case True
    then have "expanded_run SM ET X e = expanded_run SM ET X (e + 1)"
      by (subst expanded_run.simps) auto
    with "1.IH" [OF True] show ?thesis by simp
  next
    case False
    then have "expanded_run SM ET X e = e" by (subst expanded_run.simps) auto
    then show ?thesis by simp
  qed
qed

lemma expanded_run_between:
  "e \<le> k \<Longrightarrow> k < expanded_run SM ET X e \<Longrightarrow>
     k < length ET \<and> getExpansionLoc SM (Location (ET ! k)) = X"
proof (induction SM ET X e rule: expanded_run.induct)
  case (1 SM ET X e)
  show ?case
  proof (cases "e < length ET \<and> getExpansionLoc SM (Location (ET ! e)) = X")
    case True
    then have eq: "expanded_run SM ET X e = expanded_run SM ET X (e + 1)"
      by (subst expanded_run.simps) auto
    show ?thesis
    proof (cases "k = e")
      case True
      with \<open>e < length ET \<and> getExpansionLoc SM (Location (ET ! e)) = X\<close> show ?thesis by simp
    next
      case False
      with "1.prems" have "e + 1 \<le> k" by simp
      from "1.IH" [OF True this] "1.prems"(2) eq show ?thesis by simp
    qed
  next
    case False
    then have "expanded_run SM ET X e = e" by (subst expanded_run.simps) auto
    with "1.prems" show ?thesis by simp
  qed
qed

lemma expanded_run_exit:
  "\<not> (expanded_run SM ET X e < length ET
       \<and> getExpansionLoc SM (Location (ET ! expanded_run SM ET X e)) = X)"
proof (induction SM ET X e rule: expanded_run.induct)
  case (1 SM ET X e)
  show ?case
  proof (cases "e < length ET \<and> getExpansionLoc SM (Location (ET ! e)) = X")
    case True
    then have "expanded_run SM ET X e = expanded_run SM ET X (e + 1)"
      by (subst expanded_run.simps) auto
    with "1.IH" [OF True] show ?thesis by simp
  next
    case False
    then have "expanded_run SM ET X e = e" by (subst expanded_run.simps) auto
    with False show ?thesis by simp
  qed
qed

lemma expanded_run_progress:
  assumes "e < length ET" "getExpansionLoc SM (Location (ET ! e)) = X"
  shows "e < expanded_run SM ET X e"
proof -
  have "expanded_run SM ET X e = expanded_run SM ET X (e + 1)"
    using assms by (subst expanded_run.simps) auto
  with expanded_run_ge [of "e + 1" SM ET X] show ?thesis by simp
qed

text \<open>
  A run of file tokens advances both cursors by the same number of tokens, and the
  tokens it passes agree in location.
\<close>

lemma file_run_post:
  "n \<le> fst (file_run ST ET n e) \<and> e \<le> snd (file_run ST ET n e) \<and>
   fst (file_run ST ET n e) - n = snd (file_run ST ET n e) - e \<and>
   (n \<le> length ST \<longrightarrow> fst (file_run ST ET n e) \<le> length ST) \<and>
   (\<forall>k. k < fst (file_run ST ET n e) - n \<longrightarrow>
      n + k < length ST \<and> e + k < length ET \<and> Location (ST ! (n + k)) = Location (ET ! (e + k)))"
proof (induction ST ET n e rule: file_run.induct)
  case (1 ST ET n e)
  show ?case
  proof (cases "n < length ST \<and> e < length ET \<and> Location (ST ! n) = Location (ET ! e)")
    case True
    then have eq: "file_run ST ET n e = file_run ST ET (n + 1) (e + 1)"
      by (subst file_run.simps) auto
    note IH = "1.IH" [OF True]
    have "\<forall>k. k < fst (file_run ST ET (n + 1) (e + 1)) - n \<longrightarrow>
      n + k < length ST \<and> e + k < length ET \<and> Location (ST ! (n + k)) = Location (ET ! (e + k))"
    proof (intro allI impI)
      fix k assume k: "k < fst (file_run ST ET (n + 1) (e + 1)) - n"
      show "n + k < length ST \<and> e + k < length ET \<and> Location (ST ! (n + k)) = Location (ET ! (e + k))"
      proof (cases k)
        case 0
        with True show ?thesis by simp
      next
        case (Suc k')
        with k have "k' < fst (file_run ST ET (n + 1) (e + 1)) - (n + 1)" by simp
        with IH have "n + 1 + k' < length ST \<and> e + 1 + k' < length ET \<and>
            Location (ST ! (n + 1 + k')) = Location (ET ! (e + 1 + k'))" by blast
        with Suc show ?thesis by simp
      qed
    qed
    with IH True show ?thesis unfolding eq by auto
  next
    case False
    then have "file_run ST ET n e = (n, e)" by (subst file_run.simps) auto
    then show ?thesis by simp
  qed
qed

text \<open>
  The mappings one call of \<open>discard\<close> appends tile the spelled tokens it skips: each
  has a non-empty spelled side that begins where the previous one ends, and the empty
  expanded side at \<open>E\<close>.
\<close>

fun empties :: "nat \<Rightarrow> nat \<Rightarrow> nat \<Rightarrow> Mapping list \<Rightarrow> bool" where
  "empties E a b [] = (a = b)"
| "empties E a b (X # Xs) =
     (BeginSpelled X = a \<and> a < EndSpelled X \<and> BeginExpanded X = E \<and> EndExpanded X = E \<and>
      empties E (EndSpelled X) b Xs)"

lemma empties_append:
  "empties E a b Xs \<Longrightarrow> empties E b c Ys \<Longrightarrow> empties E a c (Xs @ Ys)"
  by (induction Xs arbitrary: a) auto

lemma empties_elem:
  "empties E a b Xs \<Longrightarrow> X \<in> set Xs \<Longrightarrow>
     a \<le> BeginSpelled X \<and> BeginSpelled X < EndSpelled X \<and> EndSpelled X \<le> b \<and>
     BeginExpanded X = E \<and> EndExpanded X = E"
proof (induction Xs arbitrary: a)
  case Nil
  then show ?case by simp
next
  case (Cons Y Ys)
  have le: "a' \<le> b" if "empties E a' b Zs" for a' Zs
    using that by (induction Zs arbitrary: a') (auto, fastforce)
  show ?case
  proof (cases "X = Y")
    case True
    with Cons.prems le [of "EndSpelled Y" Ys] show ?thesis by auto
  next
    case False
    with Cons.prems have "X \<in> set Ys" "empties E (EndSpelled Y) b Ys" by auto
    from Cons.IH [OF this(2,1)] Cons.prems(1) show ?thesis by auto
  qed
qed

lemma empties_le: "empties E a b Xs \<Longrightarrow> a \<le> b"
  by (induction Xs arbitrary: a) (auto, fastforce)

lemma empties_sorted:
  "empties E a b Xs \<Longrightarrow>
     sorted_wrt (\<lambda>A B. EndSpelled A \<le> BeginSpelled B \<and> EndExpanded A \<le> BeginExpanded B) Xs"
proof (induction Xs arbitrary: a)
  case Nil
  then show ?case by simp
next
  case (Cons Y Ys)
  then have rest: "empties E (EndSpelled Y) b Ys" and y: "EndExpanded Y = E" by auto
  have "EndSpelled Y \<le> BeginSpelled X \<and> EndExpanded Y \<le> BeginExpanded X" if "X \<in> set Ys" for X
    using empties_elem [OF rest that] y by simp
  with Cons.IH [OF rest] show ?case by simp
qed

lemma empties_last:
  "empties E a b Xs \<Longrightarrow> Xs \<noteq> [] \<Longrightarrow> EndSpelled (last Xs) = b \<and> EndExpanded (last Xs) = E \<and> a < b"
proof (induction Xs arbitrary: a)
  case Nil
  then show ?case by simp
next
  case (Cons Y Ys)
  show ?case
  proof (cases "Ys = []")
    case True
    with Cons.prems show ?thesis by auto
  next
    case False
    from Cons.prems have rest: "empties E (EndSpelled Y) b Ys" and y: "a < EndSpelled Y" by auto
    from Cons.IH [OF rest False] False y show ?thesis by auto
  qed
qed

lemma FlushMapping_post:
  assumes "BeginSpelled M \<le> n" "BeginExpanded M = E" "EndExpanded M = E"
  shows "BeginSpelled (fst (FlushMapping n (M, Ms))) = n"
    and "BeginExpanded (fst (FlushMapping n (M, Ms))) = E"
    and "EndExpanded (fst (FlushMapping n (M, Ms))) = E"
    and "\<exists>New. snd (FlushMapping n (M, Ms)) = Ms @ New \<and> empties E (BeginSpelled M) n New"
proof -
  show "BeginSpelled (fst (FlushMapping n (M, Ms))) = n"
    and "BeginExpanded (fst (FlushMapping n (M, Ms))) = E"
    and "EndExpanded (fst (FlushMapping n (M, Ms))) = E"
    using assms by (simp_all add: FlushMapping_def)
  show "\<exists>New. snd (FlushMapping n (M, Ms)) = Ms @ New \<and> empties E (BeginSpelled M) n New"
  proof (cases "BeginSpelled M = n")
    case True
    then have "snd (FlushMapping n (M, Ms)) = Ms @ [] \<and> empties E (BeginSpelled M) n []"
      by (simp add: FlushMapping_def)
    then show ?thesis by blast
  next
    case False
    with assms have "snd (FlushMapping n (M, Ms)) = Ms @ [M\<lparr>EndSpelled := n\<rparr>] \<and>
        empties E (BeginSpelled M) n [M\<lparr>EndSpelled := n\<rparr>]"
      by (simp add: FlushMapping_def)
    then show ?thesis by blast
  qed
qed

text \<open>
  A spelled token that \<open>discard\<close> skips lies before the target, or inside the captured
  expansion of a token before the target.
\<close>

definition skipped :: "Token list \<Rightarrow> PPExpansions \<Rightarrow> SourceLocation \<Rightarrow> nat \<Rightarrow> nat \<Rightarrow> bool" where
  "skipped ST CE Target n j =
     (j < length ST \<and>
      (Location (ST ! j) < Target \<or>
       (\<exists>m. n \<le> m \<and> m \<le> j \<and> m < length ST \<and> Location (ST ! m) < Target \<and>
            isValid (lookup CE (Location (ST ! m))) \<and>
            Location (ST ! j) \<le> lookup CE (Location (ST ! m)))))"

lemma skipped_mono: "skipped ST CE Target n2 j \<Longrightarrow> n \<le> n2 \<Longrightarrow> skipped ST CE Target n j"
  unfolding skipped_def by (meson le_trans)

definition discard_post ::
  "Token list \<Rightarrow> PPExpansions \<Rightarrow> SourceLocation \<Rightarrow> nat \<Rightarrow> nat \<Rightarrow> Mapping \<Rightarrow> Mapping list
     \<Rightarrow> nat \<times> Mapping \<times> Mapping list \<Rightarrow> bool" where
  "discard_post ST CE Target E n M Ms R =
     (n \<le> fst R \<and> BeginSpelled (fst (snd R)) \<le> fst R \<and>
      BeginExpanded (fst (snd R)) = E \<and> EndExpanded (fst (snd R)) = E \<and>
      (\<exists>New. snd (snd R) = Ms @ New \<and> empties E (BeginSpelled M) (BeginSpelled (fst (snd R))) New) \<and>
      \<not> (fst R < length ST \<and> Location (ST ! fst R) < Target) \<and>
      (n \<le> length ST \<longrightarrow> fst R \<le> length ST) \<and>
      (\<forall>j. n \<le> j \<and> j < fst R \<longrightarrow> skipped ST CE Target n j))"

lemma discard_loop_post:
  assumes run: "discard_loop ST CE Target n M Ms = Some R"
  shows "BeginSpelled M \<le> n \<longrightarrow> BeginExpanded M = E \<longrightarrow> EndExpanded M = E \<longrightarrow>
         discard_post ST CE Target E n M Ms R"
proof (rule discard_loop.raw_induct [where P = "\<lambda>ST CE Target n M Ms R.
    BeginSpelled M \<le> n \<longrightarrow> BeginExpanded M = E \<longrightarrow> EndExpanded M = E \<longrightarrow>
    discard_post ST CE Target E n M Ms R", OF _ run])
  fix loop :: "Token list \<Rightarrow> PPExpansions \<Rightarrow> SourceLocation \<Rightarrow> nat \<Rightarrow> Mapping \<Rightarrow> Mapping list
     \<Rightarrow> (nat \<times> Mapping \<times> Mapping list) option"
  fix ST CE Target n M Ms R
  assume IH: "\<And>ST CE Target n M Ms R. loop ST CE Target n M Ms = Some R \<Longrightarrow>
      BeginSpelled M \<le> n \<longrightarrow> BeginExpanded M = E \<longrightarrow> EndExpanded M = E \<longrightarrow>
      discard_post ST CE Target E n M Ms R"
  assume body: "(if n < length ST \<and> Location (ST ! n) < Target
      then if isValid (lookup CE (Location (ST ! n)))
           then loop ST CE Target
                 (consume_spelled ST (lookup CE (Location (ST ! n))) n)
                 (fst (FlushMapping (consume_spelled ST (lookup CE (Location (ST ! n))) n)
                        (FlushMapping n (M, Ms))))
                 (snd (FlushMapping (consume_spelled ST (lookup CE (Location (ST ! n))) n)
                        (FlushMapping n (M, Ms))))
           else loop ST CE Target (n + 1) M Ms
      else Some (n, M, Ms)) = Some R"
  show "BeginSpelled M \<le> n \<longrightarrow> BeginExpanded M = E \<longrightarrow> EndExpanded M = E \<longrightarrow>
      discard_post ST CE Target E n M Ms R"
  proof (intro impI)
    assume M: "BeginSpelled M \<le> n" "BeginExpanded M = E" "EndExpanded M = E"
    show "discard_post ST CE Target E n M Ms R"
    proof (cases "n < length ST \<and> Location (ST ! n) < Target")
      case False
      with body have "R = (n, M, Ms)" by auto
      with False M show ?thesis by (auto simp: discard_post_def)
    next
      case cond: True
      show ?thesis
      proof (cases "isValid (lookup CE (Location (ST ! n)))")
        case False
        with cond body have "loop ST CE Target (n + 1) M Ms = Some R" by simp
        from IH [OF this] M have post: "discard_post ST CE Target E (n + 1) M Ms R" by simp
        have sk: "skipped ST CE Target n j" if "n \<le> j" "j < fst R" for j
        proof (cases "j = n")
          case True
          with cond show ?thesis by (simp add: skipped_def)
        next
          case False
          with that post have "skipped ST CE Target (n + 1) j" by (simp add: discard_post_def)
          then show ?thesis by (rule skipped_mono) simp
        qed
        from post cond sk show ?thesis unfolding discard_post_def by auto
      next
        case valid: True
        let ?K = "lookup CE (Location (ST ! n))"
        let ?n2 = "consume_spelled ST ?K n"
        let ?F1 = "FlushMapping n (M, Ms)"
        let ?F2 = "FlushMapping ?n2 ?F1"
        from cond valid body have call: "loop ST CE Target ?n2 (fst ?F2) (snd ?F2) = Some R"
          by simp
        have n2: "n \<le> ?n2" by (rule consume_spelled_ge)
        note F1 = FlushMapping_post [OF M, of Ms]
        have F1': "BeginSpelled (fst ?F1) \<le> ?n2" using F1(1) n2 by simp
        have F2: "BeginSpelled (fst ?F2) = ?n2" "BeginExpanded (fst ?F2) = E"
          "EndExpanded (fst ?F2) = E"
          "\<exists>New. snd ?F2 = snd ?F1 @ New \<and> empties E (BeginSpelled (fst ?F1)) ?n2 New"
          using FlushMapping_post [OF F1' F1(2,3), of "snd ?F1"] by simp_all
        from IH [OF call] F2 have post: "discard_post ST CE Target E ?n2 (fst ?F2) (snd ?F2) R"
          by simp
        from F1(4) obtain N1 where N1: "snd ?F1 = Ms @ N1" "empties E (BeginSpelled M) n N1"
          by blast
        from F2(4) F1(1) obtain N2 where N2: "snd ?F2 = snd ?F1 @ N2" "empties E n ?n2 N2"
          by auto
        from post F2(1) obtain N3 where
          N3: "snd (snd R) = snd ?F2 @ N3" "empties E ?n2 (BeginSpelled (fst (snd R))) N3"
          by (auto simp: discard_post_def)
        have tiles: "snd (snd R) = Ms @ (N1 @ N2 @ N3) \<and>
            empties E (BeginSpelled M) (BeginSpelled (fst (snd R))) (N1 @ N2 @ N3)"
          using N1 N2 N3 by (simp add: empties_append)
        have sk: "skipped ST CE Target n j" if "n \<le> j" "j < fst R" for j
        proof (cases "j < ?n2")
          case True
          from consume_spelled_between [OF that(1) True] cond valid that(1)
          show ?thesis unfolding skipped_def by blast
        next
          case False
          with that post have "skipped ST CE Target ?n2 j" by (simp add: discard_post_def)
          then show ?thesis using n2 by (rule skipped_mono)
        qed
        have len: "n \<le> length ST \<longrightarrow> fst R \<le> length ST"
          using post consume_spelled_le [of n ST ?K] by (simp add: discard_post_def)
        from post n2 tiles sk len show ?thesis unfolding discard_post_def by auto
      qed
    qed
  qed
qed

section \<open>The effect of one step of the builder\<close>

text \<open>
  Readers of the buffer that default like \<open>Files_at\<close>, the part of the buffer that the
  main loop and the drain never change, and the file and expansion location of an
  expanded token.
\<close>

definition ST_of :: "TokenBuffer \<Rightarrow> FileID \<Rightarrow> Token list" where
  "ST_of TB F = SpelledTokens (Files_at TB F)"

definition Ms_of :: "TokenBuffer \<Rightarrow> FileID \<Rightarrow> Mapping list" where
  "Ms_of TB F = Mappings (Files_at TB F)"

definition BeginExpanded_of :: "TokenBuffer \<Rightarrow> FileID \<Rightarrow> nat" where
  "BeginExpanded_of TB F = File_BeginExpanded (Files_at TB F)"

definition EndExpanded_of :: "TokenBuffer \<Rightarrow> FileID \<Rightarrow> nat" where
  "EndExpanded_of TB F = File_EndExpanded (Files_at TB F)"

definition tracked :: "TokenBuffer \<Rightarrow> FileID \<Rightarrow> bool" where
  "tracked TB F = (Files TB F \<noteq> None)"

definition same_static :: "TokenBuffer \<Rightarrow> TokenBuffer \<Rightarrow> bool" where
  "same_static TB TB' =
     (ExpandedTokens TB' = ExpandedTokens TB \<and> FileKeys TB' = FileKeys TB \<and>
      (\<forall>F. tracked TB' F = tracked TB F \<and> ST_of TB' F = ST_of TB F \<and>
           BeginExpanded_of TB' F = BeginExpanded_of TB F \<and>
           EndExpanded_of TB' F = EndExpanded_of TB F))"

definition exploc :: "SourceManager \<Rightarrow> Token \<Rightarrow> SourceLocation" where
  "exploc SM T = getExpansionLoc SM (Location T)"

definition tokfile :: "SourceManager \<Rightarrow> Token \<Rightarrow> FileID" where
  "tokfile SM T = getFileID SM (getExpansionLoc SM (Location T))"

definition discard_target :: "SourceManager \<Rightarrow> FileID option \<Rightarrow> Builder \<Rightarrow> SourceLocation" where
  "discard_target SM Drain B =
     (case Drain of
        Some D \<Rightarrow> getLocForEndOfFile SM D
      | None \<Rightarrow> getExpansionLoc SM (Location (ExpandedTokens (Result B) ! NextExpanded B)))"

definition discard_at :: "FileID option \<Rightarrow> Builder \<Rightarrow> nat" where
  "discard_at Drain B =
     (case Drain of Some D \<Rightarrow> EndExpanded_of (Result B) D | None \<Rightarrow> NextExpanded B)"

lemma same_static_refl: "same_static TB TB"
  by (simp add: same_static_def)

lemma same_static_trans: "same_static A B \<Longrightarrow> same_static B C \<Longrightarrow> same_static A C"
  by (simp add: same_static_def)

lemma same_static_sym: "same_static A B \<Longrightarrow> same_static B A"
  by (simp add: same_static_def)

lemma same_static_Mappings:
  assumes "Files TB F = Some MF"
  shows "same_static TB (TB\<lparr>Files := (Files TB)(F \<mapsto> MF\<lparr>Mappings := Ms\<rparr>)\<rparr>)"
  using assms
  by (simp add: same_static_def tracked_def ST_of_def BeginExpanded_of_def EndExpanded_of_def
      Files_at_def)

lemma Ms_of_update:
  "Ms_of (TB\<lparr>Files := (Files TB)(F \<mapsto> MF\<lparr>Mappings := Ms\<rparr>)\<rparr>) G
     = (if G = F then Ms else Ms_of TB G)"
  by (simp add: Ms_of_def Files_at_def)

lemma Files_emplace_tracked: "Files TB F = Some MF \<Longrightarrow> Files_emplace TB F = TB"
  by (simp add: Files_emplace_def)

lemma discard_tracked:
  assumes "Files (Result B) (getFileID SM (discard_target SM Drain B)) = Some MF"
    and "\<forall>D. Drain = Some D \<longrightarrow> tracked (Result B) D"
  shows "discard SM CE Drain B =
     (case discard_loop (SpelledTokens MF) CE (discard_target SM Drain B)
             (NextSpelled B (getFileID SM (discard_target SM Drain B)))
             \<lparr>BeginSpelled = NextSpelled B (getFileID SM (discard_target SM Drain B)),
              EndSpelled = 0, BeginExpanded = discard_at Drain B,
              EndExpanded = discard_at Drain B\<rparr>
             (Mappings MF) of
        None \<Rightarrow> None
      | Some R \<Rightarrow>
          Some (B\<lparr>Result := (Result B)\<lparr>Files := (Files (Result B))
                     (getFileID SM (discard_target SM Drain B) \<mapsto>
                        MF\<lparr>Mappings := snd (FlushMapping (fst R) (snd R))\<rparr>)\<rparr>,
                  NextSpelled := (NextSpelled B)
                     (getFileID SM (discard_target SM Drain B) := fst R)\<rparr>))"
proof (cases Drain)
  case None
  with assms(1) show ?thesis
    by (simp add: discard_def discard_target_def discard_at_def Let_def Files_emplace_tracked
        Files_at_def split: option.splits prod.splits)
next
  case (Some D)
  with assms(2) obtain MFD where D: "Files (Result B) D = Some MFD"
    by (auto simp: tracked_def)
  with Some assms(1) show ?thesis
    by (simp add: discard_def discard_target_def discard_at_def EndExpanded_of_def Let_def
        Files_emplace_tracked Files_at_def split: option.splits prod.splits)
qed

definition discard_effect ::
  "SourceManager \<Rightarrow> PPExpansions \<Rightarrow> FileID option \<Rightarrow> FileID \<Rightarrow> Mapping list
     \<Rightarrow> Builder \<Rightarrow> Builder \<Rightarrow> bool" where
  "discard_effect SM CE Drain File New B B' =
     (same_static (Result B) (Result B') \<and> NextExpanded B' = NextExpanded B \<and>
      (\<forall>G. G \<noteq> File \<longrightarrow> NextSpelled B' G = NextSpelled B G) \<and>
      (\<forall>G. Ms_of (Result B') G
            = (if G = File then Ms_of (Result B) File @ New else Ms_of (Result B) G)) \<and>
      empties (discard_at Drain B) (NextSpelled B File) (NextSpelled B' File) New \<and>
      \<not> (NextSpelled B' File < length (ST_of (Result B) File) \<and>
         Location (ST_of (Result B) File ! NextSpelled B' File) < discard_target SM Drain B) \<and>
      (NextSpelled B File \<le> length (ST_of (Result B) File) \<longrightarrow>
         NextSpelled B' File \<le> length (ST_of (Result B) File)) \<and>
      (\<forall>j. NextSpelled B File \<le> j \<and> j < NextSpelled B' File \<longrightarrow>
           skipped (ST_of (Result B) File) CE (discard_target SM Drain B) (NextSpelled B File) j))"

lemma discard_has_effect:
  assumes run: "discard SM CE Drain B = Some B'"
    and File: "File = getFileID SM (discard_target SM Drain B)"
    and tr: "tracked (Result B) File"
    and trD: "\<forall>D. Drain = Some D \<longrightarrow> tracked (Result B) D"
  shows "\<exists>New. discard_effect SM CE Drain File New B B'"
proof -
  from tr obtain MF where MF: "Files (Result B) File = Some MF" by (auto simp: tracked_def)
  let ?T = "discard_target SM Drain B"
  let ?E = "discard_at Drain B"
  let ?n = "NextSpelled B File"
  let ?M0 = "\<lparr>BeginSpelled = ?n, EndSpelled = 0, BeginExpanded = ?E, EndExpanded = ?E\<rparr>"
  have st: "ST_of (Result B) File = SpelledTokens MF" and ms: "Ms_of (Result B) File = Mappings MF"
    using MF by (simp_all add: ST_of_def Ms_of_def Files_at_def)
  from run discard_tracked [OF MF [unfolded File] trD, of CE] File
  obtain R where loop: "discard_loop (SpelledTokens MF) CE ?T ?n ?M0 (Mappings MF) = Some R"
    and B': "B' = B\<lparr>Result := (Result B)\<lparr>Files := (Files (Result B))
                     (File \<mapsto> MF\<lparr>Mappings := snd (FlushMapping (fst R) (snd R))\<rparr>)\<rparr>,
                  NextSpelled := (NextSpelled B)(File := fst R)\<rparr>"
    by (auto split: option.splits)
  from discard_loop_post [OF loop, of ?E]
  have post: "discard_post (SpelledTokens MF) CE ?T ?E ?n ?M0 (Mappings MF) R" by simp
  then obtain N1 where N1: "snd (snd R) = Mappings MF @ N1"
      "empties ?E ?n (BeginSpelled (fst (snd R))) N1"
    by (auto simp: discard_post_def)
  have "\<exists>New. snd (FlushMapping (fst R) (fst (snd R), snd (snd R))) = snd (snd R) @ New \<and>
      empties ?E (BeginSpelled (fst (snd R))) (fst R) New"
    using post by (intro FlushMapping_post(4)) (simp_all add: discard_post_def)
  then obtain N2 where N2: "snd (FlushMapping (fst R) (snd R)) = snd (snd R) @ N2"
      "empties ?E (BeginSpelled (fst (snd R))) (fst R) N2"
    by auto
  have all: "snd (FlushMapping (fst R) (snd R)) = Mappings MF @ (N1 @ N2)"
    "empties ?E ?n (fst R) (N1 @ N2)"
    using N1 N2 by (simp_all add: empties_append)
  have a: "same_static (Result B) (Result B')"
    unfolding B' using same_static_Mappings [OF MF] by simp
  have b: "NextExpanded B' = NextExpanded B" unfolding B' by simp
  have c: "\<forall>G. G \<noteq> File \<longrightarrow> NextSpelled B' G = NextSpelled B G" unfolding B' by simp
  have d: "\<forall>G. Ms_of (Result B') G
            = (if G = File then Ms_of (Result B) File @ (N1 @ N2) else Ms_of (Result B) G)"
    unfolding B' using all(1) ms by (simp add: Ms_of_update)
  have e: "NextSpelled B' File = fst R" unfolding B' by simp
  have "discard_effect SM CE Drain File (N1 @ N2) B B'"
    unfolding discard_effect_def e st using a b c d all(2) post
    by (simp add: discard_post_def st)
  then show ?thesis by blast
qed

definition advance_effect ::
  "SourceManager \<Rightarrow> PPExpansions \<Rightarrow> FileID \<Rightarrow> Builder \<Rightarrow> Builder \<Rightarrow> bool" where
  "advance_effect SM CE File B B' =
     (same_static (Result B) (Result B') \<and>
      (\<forall>G. G \<noteq> File \<longrightarrow> NextSpelled B' G = NextSpelled B G \<and>
           Ms_of (Result B') G = Ms_of (Result B) G) \<and>
      (if isFileID SM (Location (ExpandedTokens (Result B) ! NextExpanded B))
       then Ms_of (Result B') File = Ms_of (Result B) File \<and>
            (NextSpelled B' File, NextExpanded B')
              = file_run (ST_of (Result B) File) (ExpandedTokens (Result B))
                  (NextSpelled B File) (NextExpanded B)
       else isValid (lookup CE (exploc SM (ExpandedTokens (Result B) ! NextExpanded B))) \<and>
            Ms_of (Result B') File = Ms_of (Result B) File @
              [\<lparr>BeginSpelled = NextSpelled B File, EndSpelled = NextSpelled B' File,
                BeginExpanded = NextExpanded B, EndExpanded = NextExpanded B'\<rparr>] \<and>
            NextSpelled B' File
              = consume_spelled (ST_of (Result B) File)
                  (lookup CE (exploc SM (ExpandedTokens (Result B) ! NextExpanded B)))
                  (NextSpelled B File) \<and>
            NextExpanded B'
              = expanded_run SM (ExpandedTokens (Result B))
                  (exploc SM (ExpandedTokens (Result B) ! NextExpanded B)) (NextExpanded B)))"

lemma advance_has_effect:
  assumes run: "advance SM CE B = Inr B'"
    and File: "File = tokfile SM (ExpandedTokens (Result B) ! NextExpanded B)"
    and tr: "tracked (Result B) File"
  shows "advance_effect SM CE File B B'"
proof -
  from tr obtain MF where MF: "Files (Result B) File = Some MF" by (auto simp: tracked_def)
  have MF': "Files (Result B)
      (getFileID SM (getExpansionLoc SM (Location (ExpandedTokens (Result B) ! NextExpanded B))))
      = Some MF"
    using MF File by (simp add: tokfile_def)
  have st: "ST_of (Result B) File = SpelledTokens MF" and ms: "Ms_of (Result B) File = Mappings MF"
    using MF by (simp_all add: ST_of_def Ms_of_def Files_at_def)
  show ?thesis
  proof (cases "isFileID SM (Location (ExpandedTokens (Result B) ! NextExpanded B))")
    case True
    with run MF' have B': "B' = B\<lparr>NextExpanded :=
          snd (file_run (SpelledTokens MF) (ExpandedTokens (Result B)) (NextSpelled B File)
                 (NextExpanded B)),
        NextSpelled := (NextSpelled B)(File :=
          fst (file_run (SpelledTokens MF) (ExpandedTokens (Result B)) (NextSpelled B File)
                 (NextExpanded B)))\<rparr>"
      by (simp add: advance_def Let_def Files_emplace_tracked Files_at_def File tokfile_def)
    show ?thesis unfolding advance_effect_def st using True
      by (simp add: B' same_static_refl)
  next
    case False
    let ?X = "exploc SM (ExpandedTokens (Result B) ! NextExpanded B)"
    let ?n' = "consume_spelled (SpelledTokens MF) (lookup CE ?X) (NextSpelled B File)"
    let ?e' = "expanded_run SM (ExpandedTokens (Result B)) ?X (NextExpanded B)"
    from False run MF' have valid: "isValid (lookup CE ?X)"
      by (auto simp: advance_def Let_def exploc_def split: if_splits)
    with False run MF' have B': "B' = B\<lparr>Result := (Result B)\<lparr>Files := (Files (Result B))(File \<mapsto>
          MF\<lparr>Mappings := Mappings MF @
             [\<lparr>BeginSpelled = NextSpelled B File, EndSpelled = ?n',
               BeginExpanded = NextExpanded B, EndExpanded = ?e'\<rparr>]\<rparr>)\<rparr>,
        NextExpanded := ?e', NextSpelled := (NextSpelled B)(File := ?n')\<rparr>"
      by (simp add: advance_def Let_def Files_emplace_tracked Files_at_def File tokfile_def
          exploc_def)
    have a: "same_static (Result B) (Result B')"
      unfolding B' using same_static_Mappings [OF MF] by simp
    show ?thesis unfolding advance_effect_def st using False valid a
      by (simp add: B' Ms_of_update ms)
  qed
qed

section \<open>Rules for the loops of build\<close>

lemma build_loop_rule:
  assumes run: "build_loop SM CE B = Some (Inr B')"
    and init: "I B"
    and step: "\<And>B B1 B2. I B \<Longrightarrow> NextExpanded B < length (ExpandedTokens (Result B)) - 1 \<Longrightarrow>
        discard SM CE None B = Some B1 \<Longrightarrow> advance SM CE B1 = Inr B2 \<Longrightarrow>
        NextExpanded B2 \<noteq> NextExpanded B1 \<Longrightarrow> I B2"
  shows "I B' \<and> \<not> NextExpanded B' < length (ExpandedTokens (Result B')) - 1"
proof -
  have "SM = SM \<longrightarrow> CE = CE \<longrightarrow> I B \<longrightarrow>
      (\<forall>B''. (Inr B' :: error + Builder) = Inr B'' \<longrightarrow>
          I B'' \<and> \<not> NextExpanded B'' < length (ExpandedTokens (Result B'')) - 1)"
  proof (rule build_loop.raw_induct [where P = "\<lambda>SM' CE' B R. SM' = SM \<longrightarrow> CE' = CE \<longrightarrow> I B \<longrightarrow>
      (\<forall>B'. R = Inr B' \<longrightarrow> I B' \<and> \<not> NextExpanded B' < length (ExpandedTokens (Result B')) - 1)",
      OF _ run])
    fix loop :: "SourceManager \<Rightarrow> PPExpansions \<Rightarrow> Builder \<Rightarrow> (error + Builder) option"
    fix SM' CE' B R
    assume IH: "\<And>SM' CE' B R. loop SM' CE' B = Some R \<Longrightarrow> SM' = SM \<longrightarrow> CE' = CE \<longrightarrow> I B \<longrightarrow>
      (\<forall>B'. R = Inr B' \<longrightarrow> I B' \<and> \<not> NextExpanded B' < length (ExpandedTokens (Result B')) - 1)"
    assume body: "(if NextExpanded B < length (ExpandedTokens (Result B)) - 1
      then case discard SM' CE' None B of None \<Rightarrow> None
           | Some B1 \<Rightarrow>
               case advance SM' CE' B1 of Inl e \<Rightarrow> Some (Inl e)
               | Inr B2 \<Rightarrow>
                   if NextExpanded B2 = NextExpanded B1
                   then Some (Inl Unreachable) else loop SM' CE' B2
      else Some (Inr B)) = Some R"
    show "SM' = SM \<longrightarrow> CE' = CE \<longrightarrow> I B \<longrightarrow>
      (\<forall>B'. R = Inr B' \<longrightarrow> I B' \<and> \<not> NextExpanded B' < length (ExpandedTokens (Result B')) - 1)"
    proof (intro impI allI)
      fix B'
      assume eq: "SM' = SM" "CE' = CE" and I: "I B" and R: "R = Inr B'"
      show "I B' \<and> \<not> NextExpanded B' < length (ExpandedTokens (Result B')) - 1"
      proof (cases "NextExpanded B < length (ExpandedTokens (Result B)) - 1")
        case False
        with body R have "B' = B" by simp
        with False I show ?thesis by simp
      next
        case True
        with body have b1: "(case discard SM' CE' None B of None \<Rightarrow> None
           | Some B1 \<Rightarrow>
               case advance SM' CE' B1 of Inl e \<Rightarrow> Some (Inl e)
               | Inr B2 \<Rightarrow>
                   if NextExpanded B2 = NextExpanded B1
                   then Some (Inl Unreachable) else loop SM' CE' B2) = Some R"
          by simp
        then obtain B1 where d': "discard SM' CE' None B = Some B1"
          and b2: "(case advance SM' CE' B1 of Inl e \<Rightarrow> Some (Inl e)
               | Inr B2 \<Rightarrow>
                   if NextExpanded B2 = NextExpanded B1
                   then Some (Inl Unreachable) else loop SM' CE' B2) = Some R"
          by (cases "discard SM' CE' None B") simp_all
        from b2 R obtain B2 where a': "advance SM' CE' B1 = Inr B2"
          and b3: "(if NextExpanded B2 = NextExpanded B1
                   then Some (Inl Unreachable) else loop SM' CE' B2) = Some (Inr B')"
          by (cases "advance SM' CE' B1") simp_all
        from b3 have ne: "NextExpanded B2 \<noteq> NextExpanded B1"
          and l': "loop SM' CE' B2 = Some (Inr B')"
          by (simp_all split: if_splits)
        from d' a' l' eq have d: "discard SM CE None B = Some B1"
          and a: "advance SM CE B1 = Inr B2" and l: "loop SM CE B2 = Some (Inr B')"
          by simp_all
        from step [OF I True d a ne] have "I B2" .
        with IH [OF l] show ?thesis by simp
      qed
    qed
  qed
  then show ?thesis using init by simp
qed

lemma drain_files_rule:
  assumes "drain_files SM CE Fs B = Some B'"
    and "I B"
    and "\<And>F B B1. I B \<Longrightarrow> F \<in> set Fs \<Longrightarrow> discard SM CE (Some F) B = Some B1 \<Longrightarrow> I B1"
  shows "I B'"
  using assms
proof (induction Fs arbitrary: B)
  case Nil
  then show ?case by simp
next
  case (Cons F Fs)
  from Cons.prems(1) obtain B1 where d: "discard SM CE (Some F) B = Some B1"
    and r: "drain_files SM CE Fs B1 = Some B'"
    by (auto split: option.splits)
  have B1: "I B1" by (rule Cons.prems(3) [OF Cons.prems(2) _ d]) simp
  show ?case
  proof (rule Cons.IH [OF r B1])
    fix G C C1
    assume "I C" "G \<in> set Fs" "discard SM CE (Some G) C = Some C1"
    then show "I C1" by (intro Cons.prems(3) [of C G C1]) simp_all
  qed
qed

section \<open>The initialization pass\<close>

text \<open>
  What \<open>buildSpelledTokens\<close> establishes: every expanded token has its file tracked,
  with an expanded range that begins at the first token of the file and ends after its
  last token (at it, when that token is end-of-file); the spelled tokens of a tracked
  file are what \<open>tokenize\<close> returns for it, and no file has a mapping yet.
\<close>

definition files_cover :: "SourceManager \<Rightarrow> TokenBuffer \<Rightarrow> bool" where
  "files_cover SM TB =
     (\<forall>i < length (ExpandedTokens TB).
        tracked TB (tokfile SM (ExpandedTokens TB ! i)) \<and>
        BeginExpanded_of TB (tokfile SM (ExpandedTokens TB ! i)) \<le> i \<and>
        i \<le> EndExpanded_of TB (tokfile SM (ExpandedTokens TB ! i)) \<and>
        (Kind (ExpandedTokens TB ! i) \<noteq> tok_eof
           \<longrightarrow> i < EndExpanded_of TB (tokfile SM (ExpandedTokens TB ! i))))"

definition files_first :: "SourceManager \<Rightarrow> TokenBuffer \<Rightarrow> bool" where
  "files_first SM TB =
     (\<forall>F. tracked TB F \<longrightarrow>
        BeginExpanded_of TB F < length (ExpandedTokens TB) \<and>
        EndExpanded_of TB F \<le> length (ExpandedTokens TB) \<and>
        tokfile SM (ExpandedTokens TB ! BeginExpanded_of TB F) = F \<and>
        (\<forall>i < BeginExpanded_of TB F. tokfile SM (ExpandedTokens TB ! i) \<noteq> F))"

definition bst_inv :: "LexerEnv \<Rightarrow> SourceManager \<Rightarrow> nat \<Rightarrow> TokenBuffer \<Rightarrow> bool" where
  "bst_inv LE SM I TB =
     ((\<forall>F. Ms_of TB F = []) \<and> set (FileKeys TB) = {F. tracked TB F} \<and>
      (\<forall>F. tracked TB F \<longrightarrow>
         tokenize LE F = Inr (ST_of TB F) \<and> BeginExpanded_of TB F < I \<and>
         EndExpanded_of TB F \<le> I \<and>
         tokfile SM (ExpandedTokens TB ! BeginExpanded_of TB F) = F \<and>
         (\<forall>i < BeginExpanded_of TB F. tokfile SM (ExpandedTokens TB ! i) \<noteq> F)) \<and>
      (\<forall>i < I.
         tracked TB (tokfile SM (ExpandedTokens TB ! i)) \<and>
         BeginExpanded_of TB (tokfile SM (ExpandedTokens TB ! i)) \<le> i \<and>
         i \<le> EndExpanded_of TB (tokfile SM (ExpandedTokens TB ! i)) \<and>
         (Kind (ExpandedTokens TB ! i) \<noteq> tok_eof
            \<longrightarrow> i < EndExpanded_of TB (tokfile SM (ExpandedTokens TB ! i)))))"

lemmas reader_defs = ST_of_def Ms_of_def BeginExpanded_of_def EndExpanded_of_def tracked_def
  Files_at_def

lemma bst_inv_seen:
  assumes inv: "bst_inv LE SM I TB" and I: "I < length (ExpandedTokens TB)"
    and F: "Files TB (tokfile SM (ExpandedTokens TB ! I)) = Some File"
  shows "bst_inv LE SM (I + 1)
     (TB\<lparr>Files := (Files TB)(tokfile SM (ExpandedTokens TB ! I) \<mapsto>
        File\<lparr>File_EndExpanded := (if Kind (ExpandedTokens TB ! I) = tok_eof then I else I + 1)\<rparr>)\<rparr>)"
    (is "bst_inv LE SM (I + 1) ?TB'")
proof -
  let ?F = "tokfile SM (ExpandedTokens TB ! I)"
  let ?ET = "ExpandedTokens TB"
  have tr: "tracked ?TB' G = tracked TB G" for G using F by (simp add: tracked_def)
  have st: "ST_of ?TB' G = ST_of TB G" for G using F by (simp add: reader_defs)
  have ms: "Ms_of ?TB' G = Ms_of TB G" for G using F by (simp add: reader_defs)
  have be: "BeginExpanded_of ?TB' G = BeginExpanded_of TB G" for G using F by (simp add: reader_defs)
  have en: "EndExpanded_of ?TB' G =
      (if G = ?F then (if Kind (?ET ! I) = tok_eof then I else I + 1) else EndExpanded_of TB G)" for G
    by (simp add: reader_defs)
  have et: "ExpandedTokens ?TB' = ?ET" and fk: "FileKeys ?TB' = FileKeys TB" by simp_all
  have trF: "tracked TB ?F" using F by (simp add: tracked_def)
  show ?thesis
    unfolding bst_inv_def tr st ms be en et fk
  proof (intro conjI allI impI)
    show "Ms_of TB F = []" for F using inv by (simp add: bst_inv_def)
    show "set (FileKeys TB) = {F. tracked TB F}" using inv by (simp add: bst_inv_def)
  next
    fix G assume "tracked TB G"
    with inv have g: "tokenize LE G = Inr (ST_of TB G)" "BeginExpanded_of TB G < I"
      "EndExpanded_of TB G \<le> I" "tokfile SM (?ET ! BeginExpanded_of TB G) = G"
      "\<forall>i < BeginExpanded_of TB G. tokfile SM (?ET ! i) \<noteq> G"
      by (simp_all add: bst_inv_def)
    show "tokenize LE G = Inr (ST_of TB G)" by (rule g(1))
    show "BeginExpanded_of TB G < I + 1" using g(2) by simp
    show "(if G = ?F then if Kind (?ET ! I) = tok_eof then I else I + 1 else EndExpanded_of TB G)
        \<le> I + 1" using g(3) by simp
    show "tokfile SM (?ET ! BeginExpanded_of TB G) = G" by (rule g(4))
    show "\<And>i. i < BeginExpanded_of TB G \<Longrightarrow> tokfile SM (?ET ! i) \<noteq> G" using g(5) by simp
  next
    fix i assume i: "i < I + 1"
    have old: "tracked TB (tokfile SM (?ET ! i)) \<and> BeginExpanded_of TB (tokfile SM (?ET ! i)) \<le> i"
    proof (cases "i = I")
      case True
      with trF inv show ?thesis by (auto simp: bst_inv_def)
    next
      case False
      with i inv show ?thesis by (simp add: bst_inv_def)
    qed
    show "tracked TB (tokfile SM (?ET ! i))" using old by simp
    show "BeginExpanded_of TB (tokfile SM (?ET ! i)) \<le> i" using old by simp
    have en': "i \<le> (if tokfile SM (?ET ! i) = ?F
              then if Kind (?ET ! I) = tok_eof then I else I + 1
              else EndExpanded_of TB (tokfile SM (?ET ! i))) \<and>
          (Kind (?ET ! i) \<noteq> tok_eof \<longrightarrow>
             i < (if tokfile SM (?ET ! i) = ?F
              then if Kind (?ET ! I) = tok_eof then I else I + 1
              else EndExpanded_of TB (tokfile SM (?ET ! i))))"
    proof (cases "i = I")
      case True
      then show ?thesis by simp
    next
      case False
      with i have "i < I" by simp
      with inv show ?thesis by (auto simp: bst_inv_def)
    qed
    show "i \<le> (if tokfile SM (?ET ! i) = ?F
              then if Kind (?ET ! I) = tok_eof then I else I + 1
              else EndExpanded_of TB (tokfile SM (?ET ! i)))" using en' by simp
    show "i < (if tokfile SM (?ET ! i) = ?F
              then if Kind (?ET ! I) = tok_eof then I else I + 1
              else EndExpanded_of TB (tokfile SM (?ET ! i)))" if "Kind (?ET ! i) \<noteq> tok_eof"
      using en' that by simp
  qed
qed

lemma bst_inv_new:
  assumes inv: "bst_inv LE SM I TB" and I: "I < length (ExpandedTokens TB)"
    and F: "Files TB (tokfile SM (ExpandedTokens TB ! I)) = None"
    and tk: "tokenize LE (tokfile SM (ExpandedTokens TB ! I)) = Inr Toks"
  shows "bst_inv LE SM (I + 1)
     (TB\<lparr>Files := (Files TB)(tokfile SM (ExpandedTokens TB ! I) \<mapsto>
        \<lparr>SpelledTokens = Toks, Mappings = [], File_BeginExpanded = I,
         File_EndExpanded = (if Kind (ExpandedTokens TB ! I) = tok_eof then I else I + 1)\<rparr>),
        FileKeys := FileKeys TB @ [tokfile SM (ExpandedTokens TB ! I)]\<rparr>)"
    (is "bst_inv LE SM (I + 1) ?TB'")
proof -
  let ?F = "tokfile SM (ExpandedTokens TB ! I)"
  let ?ET = "ExpandedTokens TB"
  let ?EndE = "if Kind (?ET ! I) = tok_eof then I else I + 1"
  have tr: "tracked ?TB' G = (G = ?F \<or> tracked TB G)" for G by (simp add: tracked_def)
  have st: "ST_of ?TB' G = (if G = ?F then Toks else ST_of TB G)" for G
    by (simp add: reader_defs)
  have ms: "Ms_of ?TB' G = (if G = ?F then [] else Ms_of TB G)" for G by (simp add: reader_defs)
  have be: "BeginExpanded_of ?TB' G = (if G = ?F then I else BeginExpanded_of TB G)" for G
    by (simp add: reader_defs)
  have en: "EndExpanded_of ?TB' G = (if G = ?F then ?EndE else EndExpanded_of TB G)" for G
    by (simp add: reader_defs)
  have et: "ExpandedTokens ?TB' = ?ET" and fk: "FileKeys ?TB' = FileKeys TB @ [?F]" by simp_all
  have ntr: "\<not> tracked TB ?F" using F by (simp add: tracked_def)
  have seen: "tokfile SM (?ET ! i) \<noteq> ?F" if "i < I" for i
  proof
    assume "tokfile SM (?ET ! i) = ?F"
    moreover from inv that have "tracked TB (tokfile SM (?ET ! i))" by (simp add: bst_inv_def)
    ultimately show False using ntr by simp
  qed
  show ?thesis
    unfolding bst_inv_def tr st ms be en et fk
  proof (intro conjI allI impI)
    show "(if F = ?F then [] else Ms_of TB F) = []" for F using inv by (simp add: bst_inv_def)
    show "set (FileKeys TB @ [?F]) = {F. F = ?F \<or> tracked TB F}"
      using inv by (auto simp: bst_inv_def)
  next
    fix G assume G: "G = ?F \<or> tracked TB G"
    have old: "tokenize LE G = Inr (ST_of TB G) \<and> BeginExpanded_of TB G < I \<and>
      EndExpanded_of TB G \<le> I \<and> tokfile SM (?ET ! BeginExpanded_of TB G) = G \<and>
      (\<forall>i < BeginExpanded_of TB G. tokfile SM (?ET ! i) \<noteq> G)" if "G \<noteq> ?F"
      using G that inv by (simp add: bst_inv_def)
    show "tokenize LE G = Inr (if G = ?F then Toks else ST_of TB G)" using old tk by simp
    show "(if G = ?F then I else BeginExpanded_of TB G) < I + 1" using old by auto
    show "(if G = ?F then ?EndE else EndExpanded_of TB G) \<le> I + 1" using old by auto
    show "tokfile SM (?ET ! (if G = ?F then I else BeginExpanded_of TB G)) = G"
      using old by auto
    show "\<And>i. i < (if G = ?F then I else BeginExpanded_of TB G) \<Longrightarrow> tokfile SM (?ET ! i) \<noteq> G"
      using old seen by (cases "G = ?F") auto
  next
    fix i assume i: "i < I + 1"
    have c: "(tokfile SM (?ET ! i) = ?F \<or> tracked TB (tokfile SM (?ET ! i))) \<and>
        (if tokfile SM (?ET ! i) = ?F then I else BeginExpanded_of TB (tokfile SM (?ET ! i))) \<le> i \<and>
        i \<le> (if tokfile SM (?ET ! i) = ?F then ?EndE else EndExpanded_of TB (tokfile SM (?ET ! i))) \<and>
        (Kind (?ET ! i) \<noteq> tok_eof \<longrightarrow>
           i < (if tokfile SM (?ET ! i) = ?F then ?EndE
                else EndExpanded_of TB (tokfile SM (?ET ! i))))"
    proof (cases "i = I")
      case True
      then show ?thesis by simp
    next
      case False
      with i have "i < I" by simp
      with inv seen [OF this] show ?thesis by (simp add: bst_inv_def)
    qed
    show "tokfile SM (?ET ! i) = ?F \<or> tracked TB (tokfile SM (?ET ! i))" using c by simp
    show "(if tokfile SM (?ET ! i) = ?F then I else BeginExpanded_of TB (tokfile SM (?ET ! i))) \<le> i"
      using c by simp
    show "i \<le> (if tokfile SM (?ET ! i) = ?F then ?EndE
                else EndExpanded_of TB (tokfile SM (?ET ! i)))" using c by simp
    show "i < (if tokfile SM (?ET ! i) = ?F then ?EndE
                else EndExpanded_of TB (tokfile SM (?ET ! i)))" if "Kind (?ET ! i) \<noteq> tok_eof"
      using c that by simp
  qed
qed

lemma buildSpelledTokens_loop_inv:
  "buildSpelledTokens_loop LE SM Rest I TB = Inr TB' \<Longrightarrow> ExpandedTokens TB = Pre @ Rest \<Longrightarrow>
   I = length Pre \<Longrightarrow> bst_inv LE SM I TB \<Longrightarrow>
   bst_inv LE SM (length (ExpandedTokens TB)) TB' \<and> ExpandedTokens TB' = ExpandedTokens TB"
proof (induction Rest arbitrary: Pre I TB)
  case Nil
  then show ?case by simp
next
  case (Cons Tok Rest)
  have Tok: "ExpandedTokens TB ! I = Tok" and I: "I < length (ExpandedTokens TB)"
    using Cons.prems(2,3) by simp_all
  have F: "getFileID SM (getExpansionLoc SM (Location Tok)) = tokfile SM (ExpandedTokens TB ! I)"
    by (simp add: tokfile_def Tok)
  have pre1: "ExpandedTokens TB = (Pre @ [Tok]) @ Rest" using Cons.prems(2) by simp
  have pre2: "I + 1 = length (Pre @ [Tok])" using Cons.prems(3) by simp
  show ?case
  proof (cases "Files TB (tokfile SM (ExpandedTokens TB ! I))")
    case (Some File)
    let ?TB1 = "TB\<lparr>Files := (Files TB)(tokfile SM (ExpandedTokens TB ! I) \<mapsto>
        File\<lparr>File_EndExpanded := (if Kind (ExpandedTokens TB ! I) = tok_eof then I else I + 1)\<rparr>)\<rparr>"
    from Cons.prems(1) Some have run: "buildSpelledTokens_loop LE SM Rest (I + 1) ?TB1 = Inr TB'"
      by (simp add: F Tok)
    have "bst_inv LE SM (length (ExpandedTokens ?TB1)) TB' \<and>
        ExpandedTokens TB' = ExpandedTokens ?TB1"
      by (rule Cons.IH [where Pre = "Pre @ [Tok]", OF run _ pre2
            bst_inv_seen [OF Cons.prems(4) I Some]]) (simp add: pre1)
    then show ?thesis by simp
  next
    case None
    with Cons.prems(1) obtain Toks where
      tk: "tokenize LE (tokfile SM (ExpandedTokens TB ! I)) = Inr Toks"
      by (auto simp: F split: sum.splits)
    let ?TB1 = "TB\<lparr>Files := (Files TB)(tokfile SM (ExpandedTokens TB ! I) \<mapsto>
        \<lparr>SpelledTokens = Toks, Mappings = [], File_BeginExpanded = I,
         File_EndExpanded = (if Kind (ExpandedTokens TB ! I) = tok_eof then I else I + 1)\<rparr>),
        FileKeys := FileKeys TB @ [tokfile SM (ExpandedTokens TB ! I)]\<rparr>"
    from Cons.prems(1) None tk have run: "buildSpelledTokens_loop LE SM Rest (I + 1) ?TB1 = Inr TB'"
      by (simp add: F Tok)
    have "bst_inv LE SM (length (ExpandedTokens ?TB1)) TB' \<and>
        ExpandedTokens TB' = ExpandedTokens ?TB1"
      by (rule Cons.IH [where Pre = "Pre @ [Tok]", OF run _ pre2
            bst_inv_new [OF Cons.prems(4) I None tk]]) (simp add: pre1)
    then show ?thesis by simp
  qed
qed

lemma buildSpelledTokens_post:
  assumes "buildSpelledTokens LE SM \<lparr>ExpandedTokens = ET, Files = Map.empty, FileKeys = []\<rparr> = Inr TB"
  shows "ExpandedTokens TB = ET" and "bst_inv LE SM (length ET) TB"
    and "files_cover SM TB" and "files_first SM TB"
proof -
  let ?TB0 = "\<lparr>ExpandedTokens = ET, Files = Map.empty, FileKeys = []\<rparr>"
  have init: "bst_inv LE SM 0 ?TB0" by (simp add: bst_inv_def reader_defs MarkedFile_default_def)
  have "bst_inv LE SM (length (ExpandedTokens ?TB0)) TB \<and> ExpandedTokens TB = ExpandedTokens ?TB0"
    by (rule buildSpelledTokens_loop_inv [where Pre = "[]", OF _ _ _ init])
      (use assms in \<open>simp_all add: buildSpelledTokens_def\<close>)
  then show et: "ExpandedTokens TB = ET" and inv: "bst_inv LE SM (length ET) TB" by simp_all
  show "files_cover SM TB" using inv unfolding files_cover_def bst_inv_def et by blast
  show "files_first SM TB" unfolding files_first_def et
  proof (intro allI impI)
    fix F assume "tracked TB F"
    with inv show "BeginExpanded_of TB F < length ET \<and> EndExpanded_of TB F \<le> length ET \<and>
      tokfile SM (ET ! BeginExpanded_of TB F) = F \<and>
      (\<forall>i<BeginExpanded_of TB F. tokfile SM (ET ! i) \<noteq> F)"
      unfolding bst_inv_def et by blast
  qed
qed

section \<open>Invariants of the builder\<close>

lemma build_cases:
  assumes "build LE SM CE ET = Some (Inr TB)"
  obtains TB0 B B' where "ET \<noteq> []" "Kind (last ET) = tok_eof"
    "buildSpelledTokens LE SM \<lparr>ExpandedTokens = ET, Files = Map.empty, FileKeys = []\<rparr> = Inr TB0"
    "build_loop SM CE \<lparr>Result = TB0, NextExpanded = 0, NextSpelled = (\<lambda>F. 0)\<rparr> = Some (Inr B)"
    "drain_files SM CE (FileKeys (Result B)) B = Some B'" "TB = Result B'"
proof -
  from assms have ne: "ET \<noteq> []" and eof: "Kind (last ET) = tok_eof"
    by (auto simp: build_def split: if_splits)
  with assms obtain TB0 where
    a: "buildSpelledTokens LE SM \<lparr>ExpandedTokens = ET, Files = Map.empty, FileKeys = []\<rparr> = Inr TB0"
    and r1: "(case build_loop SM CE \<lparr>Result = TB0, NextExpanded = 0, NextSpelled = (\<lambda>F. 0)\<rparr> of
               None \<Rightarrow> None
             | Some (Inl e) \<Rightarrow> Some (Inl e)
             | Some (Inr B) \<Rightarrow>
                 (case drain_files SM CE (FileKeys (Result B)) B of
                    None \<Rightarrow> None
                  | Some B' \<Rightarrow> Some (Inr (Result B')))) = Some (Inr TB)"
    by (cases "buildSpelledTokens LE SM \<lparr>ExpandedTokens = ET, Files = Map.empty, FileKeys = []\<rparr>")
      (simp_all add: build_def)
  from r1 obtain B where
    b: "build_loop SM CE \<lparr>Result = TB0, NextExpanded = 0, NextSpelled = (\<lambda>F. 0)\<rparr> = Some (Inr B)"
    and r2: "(case drain_files SM CE (FileKeys (Result B)) B of
                    None \<Rightarrow> None
                  | Some B' \<Rightarrow> Some (Inr (Result B'))) = Some (Inr TB)"
    by (simp split: option.splits sum.splits)
  from r2 obtain B' where c: "drain_files SM CE (FileKeys (Result B)) B = Some B'"
    and d: "TB = Result B'"
    by (auto split: option.splits)
  from ne eof a b c d show thesis by (rule that)
qed

text \<open>
  The base invariant: the static part of the buffer is the one of the initialization
  pass, and no cursor is beyond the spelled tokens of its file.
\<close>

definition base_inv :: "TokenBuffer \<Rightarrow> Builder \<Rightarrow> bool" where
  "base_inv TB0 B =
     (same_static TB0 (Result B) \<and> (\<forall>F. NextSpelled B F \<le> length (ST_of TB0 F)))"

lemma same_staticD:
  assumes "same_static A B"
  shows "ExpandedTokens B = ExpandedTokens A" "FileKeys B = FileKeys A"
    "tracked B F = tracked A F" "ST_of B F = ST_of A F"
    "BeginExpanded_of B F = BeginExpanded_of A F" "EndExpanded_of B F = EndExpanded_of A F"
  using assms by (simp_all add: same_static_def)

lemma main_step_effects:
  assumes base: "base_inv TB0 B" and cover: "files_cover SM TB0"
    and lt: "NextExpanded B < length (ExpandedTokens TB0) - 1"
    and d: "discard SM CE None B = Some B1" and a: "advance SM CE B1 = Inr B2"
    and File: "File = tokfile SM (ExpandedTokens TB0 ! NextExpanded B)"
  shows "\<exists>New. discard_effect SM CE None File New B B1"
    and "advance_effect SM CE File B1 B2"
    and "base_inv TB0 B1" and "base_inv TB0 B2"
    and "tracked TB0 File"
proof -
  from base have st: "same_static TB0 (Result B)"
    and ns: "\<And>F. NextSpelled B F \<le> length (ST_of TB0 F)" by (simp_all add: base_inv_def)
  note s = same_staticD [OF st]
  from lt have lt': "NextExpanded B < length (ExpandedTokens TB0)" by simp
  from cover lt' File show tr0: "tracked TB0 File" by (simp add: files_cover_def)
  then have tr: "tracked (Result B) File" by (simp add: s)
  have F1: "File = getFileID SM (discard_target SM None B)"
    by (simp add: File discard_target_def tokfile_def s)
  from discard_has_effect [OF d F1 tr] obtain New where
    de: "discard_effect SM CE None File New B B1" by auto
  then show "\<exists>New. discard_effect SM CE None File New B B1" by blast
  from de have st1: "same_static (Result B) (Result B1)" and e1: "NextExpanded B1 = NextExpanded B"
    and ns1: "\<forall>G. G \<noteq> File \<longrightarrow> NextSpelled B1 G = NextSpelled B G"
    and nsF: "NextSpelled B File \<le> length (ST_of (Result B) File) \<longrightarrow>
         NextSpelled B1 File \<le> length (ST_of (Result B) File)"
    by (simp_all add: discard_effect_def)
  have st01: "same_static TB0 (Result B1)" by (rule same_static_trans [OF st st1])
  note s1 = same_staticD [OF st01]
  have nsB1: "NextSpelled B1 F \<le> length (ST_of TB0 F)" for F
    using ns [of F] ns1 nsF ns [of File] by (cases "F = File") (simp_all add: s)
  show b1: "base_inv TB0 B1" using st01 nsB1 by (simp add: base_inv_def)
  have F2: "File = tokfile SM (ExpandedTokens (Result B1) ! NextExpanded B1)"
    by (simp add: File s1 e1)
  have tr1: "tracked (Result B1) File" using tr0 by (simp add: s1)
  from advance_has_effect [OF a F2 tr1] show ae: "advance_effect SM CE File B1 B2" .
  then have st2: "same_static (Result B1) (Result B2)"
    and ns2: "\<forall>G. G \<noteq> File \<longrightarrow> NextSpelled B2 G = NextSpelled B1 G"
    by (simp_all add: advance_effect_def)
  have st02: "same_static TB0 (Result B2)" by (rule same_static_trans [OF st01 st2])
  have nsF2: "NextSpelled B2 File \<le> length (ST_of TB0 File)"
  proof (cases "isFileID SM (Location (ExpandedTokens (Result B1) ! NextExpanded B1))")
    case True
    with ae have "NextSpelled B2 File = fst (file_run (ST_of (Result B1) File)
        (ExpandedTokens (Result B1)) (NextSpelled B1 File) (NextExpanded B1))"
      by (simp add: advance_effect_def prod_eq_iff)
    with file_run_post [of "NextSpelled B1 File" "ST_of (Result B1) File"
        "ExpandedTokens (Result B1)" "NextExpanded B1"] nsB1 [of File]
    show ?thesis by (simp add: s1)
  next
    case False
    with ae have "NextSpelled B2 File = consume_spelled (ST_of (Result B1) File)
        (lookup CE (exploc SM (ExpandedTokens (Result B1) ! NextExpanded B1)))
        (NextSpelled B1 File)"
      by (simp add: advance_effect_def)
    with consume_spelled_le [of "NextSpelled B1 File" "ST_of (Result B1) File"] nsB1 [of File]
    show ?thesis by (simp add: s1)
  qed
  have "NextSpelled B2 F \<le> length (ST_of TB0 F)" for F
    using nsB1 [of F] ns2 nsF2 by (cases "F = File") simp_all
  with st02 show "base_inv TB0 B2" by (simp add: base_inv_def)
qed

lemma drain_step_effects:
  assumes base: "base_inv TB0 B" and tr0: "tracked TB0 F"
    and eof: "getFileID SM (getLocForEndOfFile SM F) = F"
    and d: "discard SM CE (Some F) B = Some B1"
  shows "\<exists>New. discard_effect SM CE (Some F) F New B B1" and "base_inv TB0 B1"
proof -
  from base have st: "same_static TB0 (Result B)"
    and ns: "\<And>F. NextSpelled B F \<le> length (ST_of TB0 F)" by (simp_all add: base_inv_def)
  note s = same_staticD [OF st]
  have tr: "tracked (Result B) F" using tr0 by (simp add: s)
  have F1: "F = getFileID SM (discard_target SM (Some F) B)"
    by (simp add: discard_target_def eof)
  from discard_has_effect [OF d F1 tr] tr obtain New where
    de: "discard_effect SM CE (Some F) F New B B1" by auto
  then show "\<exists>New. discard_effect SM CE (Some F) F New B B1" by blast
  from de have st1: "same_static (Result B) (Result B1)"
    and ns1: "\<forall>G. G \<noteq> F \<longrightarrow> NextSpelled B1 G = NextSpelled B G"
    and nsF: "NextSpelled B F \<le> length (ST_of (Result B) F) \<longrightarrow>
         NextSpelled B1 F \<le> length (ST_of (Result B) F)"
    by (simp_all add: discard_effect_def)
  have st01: "same_static TB0 (Result B1)" by (rule same_static_trans [OF st st1])
  have "NextSpelled B1 G \<le> length (ST_of TB0 G)" for G
    using ns [of G] ns1 nsF ns [of F] by (cases "G = F") (simp_all add: s)
  with st01 show "base_inv TB0 B1" by (simp add: base_inv_def)
qed

section \<open>The mappings of a file are ordered and do not overlap\<close>

text \<open>
  \<open>chain\<close>: every mapping has its ends in order, and each mapping ends, on both sides,
  at or before the begin of every later one.
\<close>

definition chain :: "Mapping list \<Rightarrow> bool" where
  "chain Ms =
     (sorted_wrt (\<lambda>A B. EndSpelled A \<le> BeginSpelled B \<and> EndExpanded A \<le> BeginExpanded B) Ms \<and>
      (\<forall>M \<in> set Ms. BeginSpelled M \<le> EndSpelled M \<and> BeginExpanded M \<le> EndExpanded M))"

lemma chain_append_empties:
  assumes "chain Ms" and "\<forall>M \<in> set Ms. EndSpelled M \<le> a \<and> EndExpanded M \<le> E"
    and "empties E a b New"
  shows "chain (Ms @ New)" and "\<forall>M \<in> set (Ms @ New). EndSpelled M \<le> b \<and> EndExpanded M \<le> E"
proof -
  note el = empties_elem [OF assms(3)]
  have ab: "a \<le> b" by (rule empties_le [OF assms(3)])
  have cross: "EndSpelled A \<le> BeginSpelled X \<and> EndExpanded A \<le> BeginExpanded X"
    if "A \<in> set Ms" "X \<in> set New" for A X
    using assms(2) that(1) el [OF that(2)] by fastforce
  have ends: "BeginSpelled X \<le> EndSpelled X \<and> BeginExpanded X \<le> EndExpanded X"
    if "X \<in> set New" for X using el [OF that] by simp
  show "chain (Ms @ New)"
    using assms(1) empties_sorted [OF assms(3)] cross ends
    unfolding chain_def sorted_wrt_append by auto
  show "\<forall>M \<in> set (Ms @ New). EndSpelled M \<le> b \<and> EndExpanded M \<le> E"
    using assms(2) ab el by fastforce
qed

lemma chain_snoc:
  assumes "chain Ms" and "\<forall>M \<in> set Ms. EndSpelled M \<le> BeginSpelled X \<and> EndExpanded M \<le> BeginExpanded X"
    and "BeginSpelled X \<le> EndSpelled X" "BeginExpanded X \<le> EndExpanded X"
  shows "chain (Ms @ [X])"
  using assms unfolding chain_def sorted_wrt_append by auto

definition chain_inv :: "TokenBuffer \<Rightarrow> Builder \<Rightarrow> bool" where
  "chain_inv TB0 B =
     (\<forall>F. chain (Ms_of (Result B) F) \<and>
          (\<forall>M \<in> set (Ms_of (Result B) F).
             EndSpelled M \<le> NextSpelled B F \<and> EndExpanded M \<le> EndExpanded_of TB0 F))"

definition expanded_behind :: "Builder \<Rightarrow> bool" where
  "expanded_behind B = (\<forall>F. \<forall>M \<in> set (Ms_of (Result B) F). EndExpanded M \<le> NextExpanded B)"

text \<open>
  The contract on the end-of-file token: it is the last expanded token only, and no
  macro expands where it does.
\<close>

definition eof_last :: "SourceManager \<Rightarrow> Token list \<Rightarrow> bool" where
  "eof_last SM ET =
     (\<forall>i. i + 1 < length ET \<longrightarrow>
        Kind (ET ! i) \<noteq> tok_eof \<and>
        (\<not> isFileID SM (Location (ET ! i)) \<longrightarrow> exploc SM (ET ! i) \<noteq> exploc SM (last ET)))"

lemma chain_discard_step:
  assumes de: "discard_effect SM CE Drain File New B B1"
    and ci: "chain_inv TB0 B"
    and at: "\<forall>M \<in> set (Ms_of (Result B) File). EndExpanded M \<le> discard_at Drain B"
    and le: "discard_at Drain B \<le> EndExpanded_of TB0 File"
  shows "chain_inv TB0 B1"
    and "\<forall>F. \<forall>M \<in> set (Ms_of (Result B1) F).
           M \<in> set (Ms_of (Result B) F) \<or> EndExpanded M = discard_at Drain B"
proof -
  from de have ms: "\<And>G. Ms_of (Result B1) G
            = (if G = File then Ms_of (Result B) File @ New else Ms_of (Result B) G)"
    and ns: "\<And>G. G \<noteq> File \<Longrightarrow> NextSpelled B1 G = NextSpelled B G"
    and em: "empties (discard_at Drain B) (NextSpelled B File) (NextSpelled B1 File) New"
    by (simp_all add: discard_effect_def)
  from ci have c: "\<And>F. chain (Ms_of (Result B) F)"
    and b: "\<And>F M. M \<in> set (Ms_of (Result B) F) \<Longrightarrow>
        EndSpelled M \<le> NextSpelled B F \<and> EndExpanded M \<le> EndExpanded_of TB0 F"
    by (simp_all add: chain_inv_def)
  have pre: "\<forall>M \<in> set (Ms_of (Result B) File).
      EndSpelled M \<le> NextSpelled B File \<and> EndExpanded M \<le> discard_at Drain B"
    using b at by simp
  note ap = chain_append_empties [OF c [of File] pre em]
  show "chain_inv TB0 B1"
    unfolding chain_inv_def
  proof (intro allI conjI ballI)
    fix F
    show "chain (Ms_of (Result B1) F)" using ap(1) c [of F] by (simp add: ms)
    fix M assume M: "M \<in> set (Ms_of (Result B1) F)"
    show "EndSpelled M \<le> NextSpelled B1 F"
    proof (cases "F = File")
      case True
      with M have "M \<in> set (Ms_of (Result B) File @ New)" by (simp add: ms)
      with ap(2) True show ?thesis by blast
    next
      case False
      with M b [of M F] ns [OF False] show ?thesis by (simp add: ms)
    qed
    show "EndExpanded M \<le> EndExpanded_of TB0 F"
    proof (cases "F = File")
      case True
      with M have "M \<in> set (Ms_of (Result B) File @ New)" by (simp add: ms)
      with ap(2) have "EndExpanded M \<le> discard_at Drain B" by blast
      with le True show ?thesis by simp
    next
      case False
      with M b [of M F] show ?thesis by (simp add: ms)
    qed
  qed
  show "\<forall>F. \<forall>M \<in> set (Ms_of (Result B1) F).
           M \<in> set (Ms_of (Result B) F) \<or> EndExpanded M = discard_at Drain B"
    using empties_elem [OF em] by (auto simp: ms split: if_splits)
qed

lemma advance_macro_run:
  assumes ae: "advance_effect SM CE File B1 B2"
    and macro: "\<not> isFileID SM (Location (ExpandedTokens (Result B1) ! NextExpanded B1))"
    and lt: "NextExpanded B1 < length (ExpandedTokens (Result B1))"
  shows "NextExpanded B1 < NextExpanded B2"
    and "NextExpanded B2 \<le> length (ExpandedTokens (Result B1))"
    and "\<forall>k. NextExpanded B1 \<le> k \<and> k < NextExpanded B2 \<longrightarrow>
           exploc SM (ExpandedTokens (Result B1) ! k)
             = exploc SM (ExpandedTokens (Result B1) ! NextExpanded B1)"
    and "\<not> (NextExpanded B2 < length (ExpandedTokens (Result B1)) \<and>
            exploc SM (ExpandedTokens (Result B1) ! NextExpanded B2)
              = exploc SM (ExpandedTokens (Result B1) ! NextExpanded B1))"
proof -
  let ?ET = "ExpandedTokens (Result B1)"
  let ?X = "exploc SM (?ET ! NextExpanded B1)"
  from ae macro have e2: "NextExpanded B2 = expanded_run SM ?ET ?X (NextExpanded B1)"
    by (simp add: advance_effect_def)
  show "NextExpanded B1 < NextExpanded B2"
    unfolding e2 by (rule expanded_run_progress [OF lt]) (simp add: exploc_def)
  show btw: "\<forall>k. NextExpanded B1 \<le> k \<and> k < NextExpanded B2 \<longrightarrow>
           exploc SM (?ET ! k) = ?X"
  proof (intro allI impI)
    fix k assume "NextExpanded B1 \<le> k \<and> k < NextExpanded B2"
    then have "NextExpanded B1 \<le> k" "k < expanded_run SM ?ET ?X (NextExpanded B1)"
      by (simp_all add: e2)
    from expanded_run_between [OF this] show "exploc SM (?ET ! k) = ?X"
      unfolding exploc_def by (rule conjunct2)
  qed
  show "\<not> (NextExpanded B2 < length ?ET \<and> exploc SM (?ET ! NextExpanded B2) = ?X)"
    unfolding e2 exploc_def by (rule expanded_run_exit [unfolded exploc_def])
  show "NextExpanded B2 \<le> length ?ET"
  proof (rule ccontr)
    assume "\<not> NextExpanded B2 \<le> length ?ET"
    then have "NextExpanded B1 \<le> length ?ET" "length ?ET < NextExpanded B2" using lt by simp_all
    then have "length ?ET < expanded_run SM ?ET ?X (NextExpanded B1)" by (simp_all add: e2)
    from expanded_run_between [OF \<open>NextExpanded B1 \<le> length ?ET\<close> this]
    have "length ?ET < length ?ET" by (rule conjunct1)
    then show False by simp
  qed
qed

lemma chain_advance_step:
  assumes ae: "advance_effect SM CE File B1 B2"
    and st: "same_static TB0 (Result B1)"
    and cover: "files_cover SM TB0" and eof: "eof_last SM (ExpandedTokens TB0)"
    and lt: "NextExpanded B1 < length (ExpandedTokens TB0) - 1"
    and File: "File = tokfile SM (ExpandedTokens TB0 ! NextExpanded B1)"
    and ci: "chain_inv TB0 B1" and eb: "expanded_behind B1"
  shows "chain_inv TB0 B2" and "expanded_behind B2"
proof -
  let ?ET = "ExpandedTokens TB0"
  let ?e = "NextExpanded B1"
  note s = same_staticD [OF st]
  from ae have oth: "\<And>G. G \<noteq> File \<Longrightarrow> NextSpelled B2 G = NextSpelled B1 G \<and>
           Ms_of (Result B2) G = Ms_of (Result B1) G"
    by (simp add: advance_effect_def)
  from ci have c: "\<And>F. chain (Ms_of (Result B1) F)"
    and b: "\<And>F M. M \<in> set (Ms_of (Result B1) F) \<Longrightarrow>
        EndSpelled M \<le> NextSpelled B1 F \<and> EndExpanded M \<le> EndExpanded_of TB0 F"
    by (simp_all add: chain_inv_def)
  from eb have e: "\<And>F M. M \<in> set (Ms_of (Result B1) F) \<Longrightarrow> EndExpanded M \<le> ?e"
    by (simp add: expanded_behind_def)
  have "chain_inv TB0 B2 \<and> expanded_behind B2"
  proof (cases "isFileID SM (Location (?ET ! ?e))")
    case True
    with ae have ms: "Ms_of (Result B2) File = Ms_of (Result B1) File"
      and run: "(NextSpelled B2 File, NextExpanded B2)
              = file_run (ST_of (Result B1) File) ?ET (NextSpelled B1 File) ?e"
      by (simp_all add: advance_effect_def s)
    from run file_run_post [of "NextSpelled B1 File" "ST_of (Result B1) File" ?ET ?e]
    have ge: "NextSpelled B1 File \<le> NextSpelled B2 File" "?e \<le> NextExpanded B2"
      by (simp_all add: prod_eq_iff)
    have msG: "Ms_of (Result B2) G = Ms_of (Result B1) G" for G
      using ms oth [of G] by (cases "G = File") simp_all
    have nsG: "NextSpelled B1 G \<le> NextSpelled B2 G" for G
      using ge(1) oth [of G] by (cases "G = File") simp_all
    have "chain_inv TB0 B2" unfolding chain_inv_def msG
    proof (intro allI conjI ballI)
      fix F show "chain (Ms_of (Result B1) F)" by (rule c)
      fix M assume M: "M \<in> set (Ms_of (Result B1) F)"
      show "EndSpelled M \<le> NextSpelled B2 F" using b [OF M] nsG [of F] by simp
      show "EndExpanded M \<le> EndExpanded_of TB0 F" using b [OF M] by simp
    qed
    moreover have "expanded_behind B2" unfolding expanded_behind_def msG
    proof (intro allI ballI)
      fix F M assume M: "M \<in> set (Ms_of (Result B1) F)"
      show "EndExpanded M \<le> NextExpanded B2" using e [OF M] ge(2) by simp
    qed
    ultimately show ?thesis by simp
  next
    case False
    let ?M = "\<lparr>BeginSpelled = NextSpelled B1 File, EndSpelled = NextSpelled B2 File,
                BeginExpanded = ?e, EndExpanded = NextExpanded B2\<rparr>"
    let ?X = "exploc SM (?ET ! ?e)"
    from False ae have ms: "Ms_of (Result B2) File = Ms_of (Result B1) File @ [?M]"
      and n2: "NextSpelled B2 File = consume_spelled (ST_of (Result B1) File) (lookup CE ?X)
                  (NextSpelled B1 File)"
      by (simp_all add: advance_effect_def s)
    have nge: "NextSpelled B1 File \<le> NextSpelled B2 File"
      unfolding n2 by (rule consume_spelled_ge)
    from lt have lt': "?e < length (ExpandedTokens (Result B1))" by (simp add: s)
    from False have macro: "\<not> isFileID SM (Location (ExpandedTokens (Result B1) ! ?e))"
      by (simp add: s)
    note run = advance_macro_run [OF ae macro lt', unfolded s]
    let ?l = "NextExpanded B2 - 1"
    have l: "?e \<le> ?l" "?l < NextExpanded B2" "?l < length ?ET" using run(1,2) by simp_all
    have lX: "exploc SM (?ET ! ?l) = ?X" by (rule run(3) [rule_format]) (use l in blast)
    have notlast: "?l + 1 < length ?ET"
    proof (rule ccontr)
      assume "\<not> ?l + 1 < length ?ET"
      with l have "?l = length ?ET - 1" by simp
      moreover have "?ET \<noteq> []" using lt by auto
      ultimately have "last ?ET = ?ET ! ?l" by (simp add: last_conv_nth)
      then have "exploc SM (last ?ET) = ?X" by (simp only: lX)
      moreover from eof have "?e + 1 < length ?ET \<longrightarrow> Kind (?ET ! ?e) \<noteq> tok_eof \<and>
          (\<not> isFileID SM (Location (?ET ! ?e)) \<longrightarrow> ?X \<noteq> exploc SM (last ?ET))"
        unfolding eof_last_def by (rule spec)
      ultimately show False using lt False by auto
    qed
    moreover from eof have "?l + 1 < length ?ET \<longrightarrow> Kind (?ET ! ?l) \<noteq> tok_eof \<and>
          (\<not> isFileID SM (Location (?ET ! ?l)) \<longrightarrow>
             exploc SM (?ET ! ?l) \<noteq> exploc SM (last ?ET))"
      unfolding eof_last_def by (rule spec)
    ultimately have kind: "Kind (?ET ! ?l) \<noteq> tok_eof" by blast
    have "tokfile SM (?ET ! ?l) = File"
      using lX unfolding File tokfile_def exploc_def by (rule arg_cong)
    moreover from cover l(3) have "Kind (?ET ! ?l) \<noteq> tok_eof
        \<longrightarrow> ?l < EndExpanded_of TB0 (tokfile SM (?ET ! ?l))"
      unfolding files_cover_def by blast
    ultimately have "?l < EndExpanded_of TB0 File" using kind by simp
    then have ende: "NextExpanded B2 \<le> EndExpanded_of TB0 File" by simp
    have chainF: "chain (Ms_of (Result B1) File @ [?M])"
      by (rule chain_snoc [OF c]) (use b e nge run(1) in auto)
    have "chain_inv TB0 B2"
      unfolding chain_inv_def
    proof (intro allI conjI ballI)
      fix F
      show "chain (Ms_of (Result B2) F)"
        using chainF ms c [of F] oth [of F] by (cases "F = File") simp_all
      fix M assume M: "M \<in> set (Ms_of (Result B2) F)"
      show "EndSpelled M \<le> NextSpelled B2 F"
      proof (cases "F = File")
        case True
        with M ms b [of M File] nge show ?thesis by auto
      next
        case False
        with M oth [OF False] b [of M F] show ?thesis by simp
      qed
      show "EndExpanded M \<le> EndExpanded_of TB0 F"
      proof (cases "F = File")
        case True
        with M ms b [of M File] ende show ?thesis by auto
      next
        case False
        with M oth [OF False] b [of M F] show ?thesis by simp
      qed
    qed
    moreover have "expanded_behind B2"
      unfolding expanded_behind_def
    proof (intro allI ballI)
      fix F M assume M: "M \<in> set (Ms_of (Result B2) F)"
      show "EndExpanded M \<le> NextExpanded B2"
      proof (cases "F = File")
        case True
        with M ms e [of M File] run(1) show ?thesis by auto
      next
        case False
        with M oth [OF False] e [of M F] run(1) show ?thesis by simp
      qed
    qed
    ultimately show ?thesis by simp
  qed
  then show "chain_inv TB0 B2" and "expanded_behind B2" by simp_all
qed

definition eof_files :: "SourceManager \<Rightarrow> Token list \<Rightarrow> bool" where
  "eof_files SM ET =
     (\<forall>T \<in> set ET. getFileID SM (getLocForEndOfFile SM (tokfile SM T)) = tokfile SM T)"

lemma tracked_eof_file:
  assumes inv: "bst_inv LE SM (length (ExpandedTokens TB0)) TB0"
    and eof: "eof_files SM (ExpandedTokens TB0)" and tr: "tracked TB0 F"
  shows "getFileID SM (getLocForEndOfFile SM F) = F"
proof -
  from inv tr have "BeginExpanded_of TB0 F < length (ExpandedTokens TB0)"
    and F: "tokfile SM (ExpandedTokens TB0 ! BeginExpanded_of TB0 F) = F"
    by (simp_all add: bst_inv_def)
  then have "ExpandedTokens TB0 ! BeginExpanded_of TB0 F \<in> set (ExpandedTokens TB0)" by simp
  with eof have "getFileID SM (getLocForEndOfFile SM
      (tokfile SM (ExpandedTokens TB0 ! BeginExpanded_of TB0 F)))
      = tokfile SM (ExpandedTokens TB0 ! BeginExpanded_of TB0 F)"
    unfolding eof_files_def by blast
  then show ?thesis by (simp only: F)
qed

text \<open>
  The static part of the finished buffer is the one of the initialization pass.
\<close>

lemma build_base:
  assumes run: "build LE SM CE ET = Some (Inr TB)" and eof: "eof_files SM ET"
  obtains TB0 where
    "buildSpelledTokens LE SM \<lparr>ExpandedTokens = ET, Files = Map.empty, FileKeys = []\<rparr> = Inr TB0"
    "same_static TB0 TB" "ET \<noteq> []" "Kind (last ET) = tok_eof"
proof -
  from run obtain TB0 B B' where ne: "ET \<noteq> []" "Kind (last ET) = tok_eof"
    and bst: "buildSpelledTokens LE SM \<lparr>ExpandedTokens = ET, Files = Map.empty, FileKeys = []\<rparr>
        = Inr TB0"
    and loop: "build_loop SM CE \<lparr>Result = TB0, NextExpanded = 0, NextSpelled = (\<lambda>F. 0)\<rparr>
        = Some (Inr B)"
    and drain: "drain_files SM CE (FileKeys (Result B)) B = Some B'" and TB: "TB = Result B'"
    by (rule build_cases)
  note post = buildSpelledTokens_post [OF bst]
  have init: "base_inv TB0 \<lparr>Result = TB0, NextExpanded = 0, NextSpelled = (\<lambda>F. 0)\<rparr>"
    by (simp add: base_inv_def same_static_refl)
  have "base_inv TB0 B \<and> \<not> NextExpanded B < length (ExpandedTokens (Result B)) - 1"
  proof (rule build_loop_rule [OF loop, where I = "base_inv TB0", OF init])
    fix C C1 C2
    assume base: "base_inv TB0 C" and lt: "NextExpanded C < length (ExpandedTokens (Result C)) - 1"
      and d: "discard SM CE None C = Some C1" and a: "advance SM CE C1 = Inr C2"
    from base have "ExpandedTokens (Result C) = ExpandedTokens TB0"
      by (simp add: base_inv_def same_static_def)
    with lt have lt0: "NextExpanded C < length (ExpandedTokens TB0) - 1" by simp
    show "base_inv TB0 C2" by (rule main_step_effects(4) [OF base post(3) lt0 d a refl])
  qed
  then have B: "base_inv TB0 B" by simp
  then have keys: "FileKeys (Result B) = FileKeys TB0" by (simp add: base_inv_def same_static_def)
  have "base_inv TB0 B'"
  proof (rule drain_files_rule [OF drain, where I = "base_inv TB0", OF B])
    fix F C C1
    assume C: "base_inv TB0 C" and F: "F \<in> set (FileKeys (Result B))"
      and d: "discard SM CE (Some F) C = Some C1"
    from F keys post(2) have tr: "tracked TB0 F" by (auto simp: bst_inv_def)
    have e: "getFileID SM (getLocForEndOfFile SM F) = F"
      by (rule tracked_eof_file [OF _ _ tr]) (use post eof in simp_all)
    show "base_inv TB0 C1" by (rule drain_step_effects(2) [OF C tr e d])
  qed
  then have ss: "same_static TB0 TB" by (simp add: base_inv_def TB)
  show thesis by (rule that [OF bst ss ne])
qed

text \<open>
  In the finished buffer the mappings of every file form a chain, when the end-of-file
  token is the last expanded token only and the ends of the files are locations of
  their files.
\<close>

lemma build_chain:
  assumes run: "build LE SM CE ET = Some (Inr TB)"
    and eof: "eof_files SM ET" and last: "eof_last SM ET"
  shows "chain (Ms_of TB F)"
proof -
  from run obtain TB0 B B' where ne: "ET \<noteq> []" "Kind (last ET) = tok_eof"
    and bst: "buildSpelledTokens LE SM \<lparr>ExpandedTokens = ET, Files = Map.empty, FileKeys = []\<rparr>
        = Inr TB0"
    and loop: "build_loop SM CE \<lparr>Result = TB0, NextExpanded = 0, NextSpelled = (\<lambda>F. 0)\<rparr>
        = Some (Inr B)"
    and drain: "drain_files SM CE (FileKeys (Result B)) B = Some B'" and TB: "TB = Result B'"
    by (rule build_cases)
  note post = buildSpelledTokens_post [OF bst]
  let ?B0 = "\<lparr>Result = TB0, NextExpanded = 0, NextSpelled = (\<lambda>F. 0)\<rparr>"
  let ?I = "\<lambda>C. base_inv TB0 C \<and> chain_inv TB0 C \<and> expanded_behind C"
  have none: "Ms_of TB0 G = []" for G using post(2) by (simp add: bst_inv_def)
  have init: "?I ?B0"
    by (simp add: base_inv_def same_static_refl chain_inv_def expanded_behind_def none chain_def)
  have "?I B \<and> \<not> NextExpanded B < length (ExpandedTokens (Result B)) - 1"
  proof (rule build_loop_rule [OF loop, where I = ?I, OF init])
    fix C C1 C2
    assume I: "?I C" and lt: "NextExpanded C < length (ExpandedTokens (Result C)) - 1"
      and d: "discard SM CE None C = Some C1" and a: "advance SM CE C1 = Inr C2"
    from I have base: "base_inv TB0 C" and ci: "chain_inv TB0 C" and eb: "expanded_behind C"
      by simp_all
    from base have et: "ExpandedTokens (Result C) = ExpandedTokens TB0"
      by (simp add: base_inv_def same_static_def)
    let ?File = "tokfile SM (ExpandedTokens TB0 ! NextExpanded C)"
    from lt have lt0: "NextExpanded C < length (ExpandedTokens TB0) - 1" by (simp add: et)
    note eff = main_step_effects [OF base post(3) lt0 d a refl]
    from eff(1) obtain New where de: "discard_effect SM CE None ?File New C C1" by blast
    then have e1: "NextExpanded C1 = NextExpanded C" by (simp add: discard_effect_def)
    have at: "\<forall>M \<in> set (Ms_of (Result C) ?File). EndExpanded M \<le> discard_at None C"
      using eb by (simp add: expanded_behind_def discard_at_def)
    have le: "discard_at None C \<le> EndExpanded_of TB0 ?File"
      using post(3) lt0 by (simp add: files_cover_def discard_at_def)
    note dis = chain_discard_step [OF de ci at le]
    have eb1: "expanded_behind C1"
      unfolding expanded_behind_def e1
    proof (intro allI ballI)
      fix G M assume "M \<in> set (Ms_of (Result C1) G)"
      with dis(2) have "M \<in> set (Ms_of (Result C) G) \<or> EndExpanded M = discard_at None C"
        by blast
      with eb show "EndExpanded M \<le> NextExpanded C"
        by (auto simp: expanded_behind_def discard_at_def)
    qed
    from eff(3) have st1: "same_static TB0 (Result C1)" by (simp add: base_inv_def)
    have "chain_inv TB0 C2" "expanded_behind C2"
      by (rule chain_advance_step [OF eff(2) st1 post(3) _ _ _ dis(1) eb1];
          use last lt0 post(1) in \<open>simp add: e1\<close>)+
    with eff(4) show "?I C2" by simp
  qed
  then have B: "base_inv TB0 B" "chain_inv TB0 B" by simp_all
  then have keys: "FileKeys (Result B) = FileKeys TB0" by (simp add: base_inv_def same_static_def)
  let ?J = "\<lambda>C. base_inv TB0 C \<and> chain_inv TB0 C"
  have "?J B'"
  proof (rule drain_files_rule [OF drain, where I = ?J])
    show "?J B" using B by simp
  next
    fix F C C1
    assume J: "?J C" and F: "F \<in> set (FileKeys (Result B))"
      and d: "discard SM CE (Some F) C = Some C1"
    from F keys post(2) have tr: "tracked TB0 F" by (auto simp: bst_inv_def)
    have e: "getFileID SM (getLocForEndOfFile SM F) = F"
      by (rule tracked_eof_file [OF _ _ tr]) (use post eof in simp_all)
    from J have base: "base_inv TB0 C" and ci: "chain_inv TB0 C" by simp_all
    note eff = drain_step_effects [OF base tr e d]
    from eff(1) obtain New where de: "discard_effect SM CE (Some F) F New C C1" by blast
    have at0: "discard_at (Some F) C = EndExpanded_of TB0 F"
      using base by (simp add: discard_at_def base_inv_def same_static_def)
    have at: "\<forall>M \<in> set (Ms_of (Result C) F). EndExpanded M \<le> discard_at (Some F) C"
      using ci by (simp add: at0 chain_inv_def)
    have le: "discard_at (Some F) C \<le> EndExpanded_of TB0 F" by (simp add: at0)
    from chain_discard_step(1) [OF de ci at le] eff(2) show "?J C1" by simp
  qed
  then show ?thesis by (simp add: chain_inv_def TB)
qed

section \<open>Inputs on which no mapping has an empty spelled side\<close>

text \<open>
  The contract of the collaborators that the macro branch of \<open>advance\<close> relies on.
  \<^item> \<open>spelled_in_files\<close>: the spelled tokens of a file are ordered by location, and
    their locations are file locations of that file.
  \<^item> \<open>stream_order\<close>: among the expanded tokens of one file, expansion locations
    increase; they stay equal only within a run of tokens of one macro expansion.
  \<^item> \<open>macros_captured\<close>: a macro token expands at the location of a spelled token
    of its file, and the captured end of that expansion is not before it.
  \<^item> \<open>expansions_disjoint\<close>: a captured expansion that begins before the expansion
    location of an expanded token of the file also ends before it.
\<close>

definition spelled_in_files :: "SourceManager \<Rightarrow> TokenBuffer \<Rightarrow> bool" where
  "spelled_in_files SM TB =
     (\<forall>F. sorted_wrt (\<lambda>A B. Location A \<le> Location B) (ST_of TB F) \<and>
          (\<forall>T \<in> set (ST_of TB F).
             isFileID SM (Location T) \<and> getExpansionLoc SM (Location T) = Location T \<and>
             getFileID SM (Location T) = F))"

definition stream_order :: "SourceManager \<Rightarrow> Token list \<Rightarrow> bool" where
  "stream_order SM ET =
     (\<forall>e i. e < i \<and> i < length ET \<and> tokfile SM (ET ! e) = tokfile SM (ET ! i) \<longrightarrow>
        exploc SM (ET ! e) < exploc SM (ET ! i) \<or>
        (exploc SM (ET ! e) = exploc SM (ET ! i) \<and> \<not> isFileID SM (Location (ET ! e)) \<and>
         exploc SM (ET ! Suc e) = exploc SM (ET ! e)))"

definition macros_captured :: "SourceManager \<Rightarrow> PPExpansions \<Rightarrow> TokenBuffer \<Rightarrow> bool" where
  "macros_captured SM CE TB =
     (\<forall>T \<in> set (ExpandedTokens TB). \<not> isFileID SM (Location T) \<longrightarrow>
        (\<exists>S \<in> set (ST_of TB (tokfile SM T)). Location S = exploc SM T) \<and>
        exploc SM T \<le> lookup CE (exploc SM T))"

definition expansions_disjoint :: "SourceManager \<Rightarrow> PPExpansions \<Rightarrow> TokenBuffer \<Rightarrow> bool" where
  "expansions_disjoint SM CE TB =
     (\<forall>T \<in> set (ExpandedTokens TB). \<forall>S \<in> set (ST_of TB (tokfile SM T)).
        isValid (lookup CE (Location S)) \<and> Location S < exploc SM T
          \<longrightarrow> lookup CE (Location S) < exploc SM T)"

lemma contracts_static:
  assumes "same_static TB0 TB"
  shows "spelled_in_files SM TB0 = spelled_in_files SM TB"
    and "macros_captured SM CE TB0 = macros_captured SM CE TB"
    and "expansions_disjoint SM CE TB0 = expansions_disjoint SM CE TB"
  unfolding spelled_in_files_def macros_captured_def expansions_disjoint_def
  using assms by (simp_all add: same_static_def)

lemma tokfile_exploc: "tokfile SM T = getFileID SM (exploc SM T)"
  by (simp add: tokfile_def exploc_def)

lemma stream_order_le:
  assumes so: "stream_order SM ET" and "e \<le> i" "i < length ET"
    and "tokfile SM (ET ! e) = tokfile SM (ET ! i)"
  shows "exploc SM (ET ! e) \<le> exploc SM (ET ! i)"
proof (cases "e = i")
  case True
  then show ?thesis by simp
next
  case False
  with assms(2) have "e < i" by simp
  with so [unfolded stream_order_def, rule_format, of e i] assms(3,4)
  show ?thesis by linarith
qed

lemma stream_order_run:
  assumes so: "stream_order SM ET" and i: "i < length ET"
    and eq: "exploc SM (ET ! e) = exploc SM (ET ! i)"
  shows "e \<le> k \<Longrightarrow> k \<le> i \<Longrightarrow> exploc SM (ET ! k) = exploc SM (ET ! e)"
proof (induction k)
  case 0
  then show ?case by simp
next
  case (Suc k)
  show ?case
  proof (cases "e = Suc k")
    case True
    then show ?thesis by simp
  next
    case False
    with Suc.prems have ek: "e \<le> k" "k < i" by simp_all
    with Suc.IH have k: "exploc SM (ET ! k) = exploc SM (ET ! e)" by simp
    then have same: "exploc SM (ET ! k) = exploc SM (ET ! i)" by (simp only: eq)
    then have "tokfile SM (ET ! k) = tokfile SM (ET ! i)" by (simp only: tokfile_exploc)
    with so [unfolded stream_order_def, rule_format, of k i] ek(2) i
    have "exploc SM (ET ! k) < exploc SM (ET ! i) \<or>
        (exploc SM (ET ! k) = exploc SM (ET ! i) \<and> \<not> isFileID SM (Location (ET ! k)) \<and>
         exploc SM (ET ! Suc k) = exploc SM (ET ! k))" by blast
    with same have "exploc SM (ET ! Suc k) = exploc SM (ET ! k)" by linarith
    with k show ?thesis by (simp only:)
  qed
qed

text \<open>
  \<open>ahead\<close>: the spelled tokens a cursor has passed lie before the expansion location of
  every expanded token of the file that is still to come.
\<close>

definition ahead :: "SourceManager \<Rightarrow> TokenBuffer \<Rightarrow> Builder \<Rightarrow> bool" where
  "ahead SM TB0 B =
     (\<forall>i j. NextExpanded B \<le> i \<and> i < length (ExpandedTokens TB0) \<and>
            j < NextSpelled B (tokfile SM (ExpandedTokens TB0 ! i)) \<longrightarrow>
        Location (ST_of TB0 (tokfile SM (ExpandedTokens TB0 ! i)) ! j)
          < exploc SM (ExpandedTokens TB0 ! i))"

definition spelled_nonempty :: "Builder \<Rightarrow> bool" where
  "spelled_nonempty B = (\<forall>F. \<forall>M \<in> set (Ms_of (Result B) F). BeginSpelled M < EndSpelled M)"

lemma nonempty_discard_step:
  assumes de: "discard_effect SM CE Drain File New B B1" and ne: "spelled_nonempty B"
  shows "spelled_nonempty B1"
proof -
  from de have ms: "\<And>G. Ms_of (Result B1) G
            = (if G = File then Ms_of (Result B) File @ New else Ms_of (Result B) G)"
    and em: "empties (discard_at Drain B) (NextSpelled B File) (NextSpelled B1 File) New"
    by (simp_all add: discard_effect_def)
  show ?thesis unfolding spelled_nonempty_def
  proof (intro allI ballI)
    fix F M assume "M \<in> set (Ms_of (Result B1) F)"
    then have "M \<in> set (Ms_of (Result B) F) \<or> M \<in> set New"
      by (auto simp: ms split: if_splits)
    then show "BeginSpelled M < EndSpelled M"
    proof
      assume "M \<in> set (Ms_of (Result B) F)"
      with ne show ?thesis by (simp add: spelled_nonempty_def)
    next
      assume "M \<in> set New"
      from empties_elem [OF em this] show ?thesis by simp
    qed
  qed
qed

lemma ahead_discard_step:
  assumes de: "discard_effect SM CE None File New B B1"
    and File: "File = tokfile SM (ExpandedTokens TB0 ! NextExpanded B)"
    and st: "same_static TB0 (Result B)"
    and lt: "NextExpanded B < length (ExpandedTokens TB0)"
    and so: "stream_order SM (ExpandedTokens TB0)"
    and dj: "expansions_disjoint SM CE TB0"
    and ah: "ahead SM TB0 B"
  shows "ahead SM TB0 B1"
  unfolding ahead_def
proof (intro allI impI)
  let ?ET = "ExpandedTokens TB0"
  let ?e = "NextExpanded B"
  let ?X = "exploc SM (?ET ! ?e)"
  fix i j
  assume a: "NextExpanded B1 \<le> i \<and> i < length ?ET \<and> j < NextSpelled B1 (tokfile SM (?ET ! i))"
  note s = same_staticD [OF st]
  from de have e1: "NextExpanded B1 = ?e"
    and ns: "\<And>G. G \<noteq> File \<Longrightarrow> NextSpelled B1 G = NextSpelled B G"
    and sk: "\<And>j. NextSpelled B File \<le> j \<Longrightarrow> j < NextSpelled B1 File \<Longrightarrow>
           skipped (ST_of (Result B) File) CE (discard_target SM None B) (NextSpelled B File) j"
    by (simp_all add: discard_effect_def)
  have tg: "discard_target SM None B = ?X" by (simp add: discard_target_def exploc_def s)
  from a e1 have i: "?e \<le> i" "i < length ?ET" by simp_all
  show "Location (ST_of TB0 (tokfile SM (?ET ! i)) ! j) < exploc SM (?ET ! i)"
  proof (cases "tokfile SM (?ET ! i) = File \<and> NextSpelled B File \<le> j")
    case False
    with a ns [of "tokfile SM (?ET ! i)"] have "j < NextSpelled B (tokfile SM (?ET ! i))"
      by (cases "tokfile SM (?ET ! i) = File") auto
    with ah i show ?thesis unfolding ahead_def by blast
  next
    case True
    then have iF: "tokfile SM (?ET ! i) = File" and nj: "NextSpelled B File \<le> j" by simp_all
    from a iF have "j < NextSpelled B1 File" by simp
    from sk [OF nj this] have skj: "skipped (ST_of TB0 File) CE ?X (NextSpelled B File) j"
      by (simp add: tg s)
    have Xi: "?X \<le> exploc SM (?ET ! i)"
      by (rule stream_order_le [OF so i]) (simp add: iF File)
    from skj have jl: "j < length (ST_of TB0 File)" by (simp add: skipped_def)
    from skj consider "Location (ST_of TB0 File ! j) < ?X"
      | m where "m < length (ST_of TB0 File)" "Location (ST_of TB0 File ! m) < ?X"
          "isValid (lookup CE (Location (ST_of TB0 File ! m)))"
          "Location (ST_of TB0 File ! j) \<le> lookup CE (Location (ST_of TB0 File ! m))"
      unfolding skipped_def by blast
    then have "Location (ST_of TB0 File ! j) < exploc SM (?ET ! i)"
    proof cases
      case 1
      with Xi show ?thesis by simp
    next
      case 2
      have T: "?ET ! i \<in> set ?ET" using i by simp
      have S: "ST_of TB0 File ! m \<in> set (ST_of TB0 (tokfile SM (?ET ! i)))"
        using 2(1) by (simp add: iF)
      from 2(2) Xi have "Location (ST_of TB0 File ! m) < exploc SM (?ET ! i)" by simp
      with dj [unfolded expansions_disjoint_def, rule_format, OF T S] 2(3)
      have "lookup CE (Location (ST_of TB0 File ! m)) < exploc SM (?ET ! i)" by blast
      with 2(4) show ?thesis by simp
    qed
    then show ?thesis by (simp add: iF)
  qed
qed

lemma sorted_locations_nth:
  assumes "sorted_wrt (\<lambda>A B. Location A \<le> Location B) ST" "a \<le> b" "b < length ST"
  shows "Location (ST ! a) \<le> Location (ST ! b)"
proof (cases "a = b")
  case True
  then show ?thesis by simp
next
  case False
  with assms(2) have "a < b" by simp
  with assms(1,3) show ?thesis by (simp add: sorted_wrt_iff_nth_less)
qed

lemma ahead_advance_step:
  assumes ae: "advance_effect SM CE File B1 B2"
    and File: "File = tokfile SM (ExpandedTokens TB0 ! NextExpanded B1)"
    and st: "same_static TB0 (Result B1)"
    and lt: "NextExpanded B1 < length (ExpandedTokens TB0)"
    and exit: "\<not> (NextSpelled B1 File < length (ST_of TB0 File) \<and>
         Location (ST_of TB0 File ! NextSpelled B1 File)
           < exploc SM (ExpandedTokens TB0 ! NextExpanded B1))"
    and sf: "spelled_in_files SM TB0"
    and so: "stream_order SM (ExpandedTokens TB0)"
    and mc: "macros_captured SM CE TB0"
    and dj: "expansions_disjoint SM CE TB0"
    and ah: "ahead SM TB0 B1"
  shows "ahead SM TB0 B2"
    and "\<not> isFileID SM (Location (ExpandedTokens TB0 ! NextExpanded B1))
           \<longrightarrow> NextSpelled B1 File < NextSpelled B2 File"
proof -
  let ?ET = "ExpandedTokens TB0"
  let ?e = "NextExpanded B1"
  let ?X = "exploc SM (?ET ! ?e)"
  let ?ST = "ST_of TB0 File"
  let ?n = "NextSpelled B1 File"
  note s = same_staticD [OF st]
  from ae have oth: "\<And>G. G \<noteq> File \<Longrightarrow> NextSpelled B2 G = NextSpelled B1 G"
    by (simp add: advance_effect_def)
  from sf have sorted: "sorted_wrt (\<lambda>A B. Location A \<le> Location B) ?ST"
    and inF: "\<And>T. T \<in> set ?ST \<Longrightarrow> isFileID SM (Location T) \<and>
        getExpansionLoc SM (Location T) = Location T \<and> getFileID SM (Location T) = File"
    by (simp_all add: spelled_in_files_def)
  have old: "Location (ST_of TB0 (tokfile SM (?ET ! i)) ! j) < exploc SM (?ET ! i)"
    if "?e \<le> i" "i < length ?ET" "j < NextSpelled B1 (tokfile SM (?ET ! i))" for i j
    using ah that unfolding ahead_def by blast
  have "ahead SM TB0 B2 \<and>
      (\<not> isFileID SM (Location (?ET ! ?e)) \<longrightarrow> ?n < NextSpelled B2 File)"
  proof (cases "isFileID SM (Location (?ET ! ?e))")
    case True
    with ae have run: "(NextSpelled B2 File, NextExpanded B2) = file_run ?ST ?ET ?n ?e"
      by (simp add: advance_effect_def s)
    let ?R = "file_run ?ST ?ET ?n ?e"
    from run have n2: "NextSpelled B2 File = fst ?R" and e2: "NextExpanded B2 = snd ?R"
      by (simp_all add: prod_eq_iff)
    note fr = file_run_post [of ?n ?ST ?ET ?e]
    from fr have ge: "?n \<le> fst ?R" "?e \<le> snd ?R" and diff: "fst ?R - ?n = snd ?R - ?e"
      and match: "\<And>k. k < fst ?R - ?n \<Longrightarrow> ?n + k < length ?ST \<and> ?e + k < length ?ET \<and>
          Location (?ST ! (?n + k)) = Location (?ET ! (?e + k))"
      by blast+
    have "ahead SM TB0 B2" unfolding ahead_def
    proof (intro allI impI)
      fix i j
      assume a: "NextExpanded B2 \<le> i \<and> i < length ?ET \<and>
          j < NextSpelled B2 (tokfile SM (?ET ! i))"
      with e2 ge have i: "?e \<le> i" "i < length ?ET" "snd ?R \<le> i" by simp_all
      show "Location (ST_of TB0 (tokfile SM (?ET ! i)) ! j) < exploc SM (?ET ! i)"
      proof (cases "tokfile SM (?ET ! i) = File \<and> ?n \<le> j")
        case False
        with a oth [of "tokfile SM (?ET ! i)"] have "j < NextSpelled B1 (tokfile SM (?ET ! i))"
          by (cases "tokfile SM (?ET ! i) = File") auto
        with old i show ?thesis by blast
      next
        case True
        then have iF: "tokfile SM (?ET ! i) = File" and nj: "?n \<le> j" by simp_all
        from a iF n2 have j: "j < fst ?R" by simp
        let ?k = "j - ?n"
        from nj j have k: "?k < fst ?R - ?n" "?n + ?k = j" by simp_all
        from match [OF k(1)] k(2) have m: "j < length ?ST" "?e + ?k < length ?ET"
          "Location (?ST ! j) = Location (?ET ! (?e + ?k))" by simp_all
        from k(1) diff i(3) have ki: "?e + ?k < i" by simp
        from m(1) have "?ST ! j \<in> set ?ST" by simp
        from inF [OF this] m(3) have t: "isFileID SM (Location (?ET ! (?e + ?k)))"
          "exploc SM (?ET ! (?e + ?k)) = Location (?ST ! j)"
          "tokfile SM (?ET ! (?e + ?k)) = File"
          by (simp_all add: exploc_def tokfile_def)
        from so [unfolded stream_order_def, rule_format, of "?e + ?k" i] ki i(2) t(3) iF
        have "exploc SM (?ET ! (?e + ?k)) < exploc SM (?ET ! i) \<or>
            \<not> isFileID SM (Location (?ET ! (?e + ?k)))" by blast
        with t(1) have "exploc SM (?ET ! (?e + ?k)) < exploc SM (?ET ! i)" by blast
        then show ?thesis by (simp only: t(2) iF)
      qed
    qed
    with True show ?thesis by simp
  next
    case False
    let ?End = "lookup CE ?X"
    from False ae have valid: "isValid ?End"
      and n2: "NextSpelled B2 File = consume_spelled ?ST ?End ?n"
      by (simp_all add: advance_effect_def s)
    from lt have lt': "?e < length (ExpandedTokens (Result B1))" by (simp add: s)
    from False have macro: "\<not> isFileID SM (Location (ExpandedTokens (Result B1) ! ?e))"
      by (simp add: s)
    note run = advance_macro_run [OF ae macro lt', unfolded s]
    have T: "?ET ! ?e \<in> set ?ET" using lt by simp
    from mc [unfolded macros_captured_def, rule_format, OF T False]
    obtain S where S: "S \<in> set ?ST" "Location S = ?X" and XE: "?X \<le> ?End"
      by (auto simp: File)
    from S(1) obtain k where k: "k < length ?ST" "?ST ! k = S" by (auto simp: in_set_conv_nth)
    have nk: "?n \<le> k"
    proof (rule ccontr)
      assume "\<not> ?n \<le> k"
      then have "k < NextSpelled B1 (tokfile SM (?ET ! ?e))" by (simp add: File)
      from old [OF le_refl lt this] have "Location (?ST ! k) < ?X" by (simp add: File)
      with k(2) S(2) show False by simp
    qed
    with k(1) have nl: "?n < length ?ST" by simp
    with exit have "?X \<le> Location (?ST ! ?n)" by simp
    moreover have "Location (?ST ! ?n) \<le> Location (?ST ! k)"
      by (rule sorted_locations_nth [OF sorted nk k(1)])
    ultimately have nX: "Location (?ST ! ?n) = ?X" using k(2) S(2) by simp
    with XE have "Location (?ST ! ?n) \<le> ?End" by simp
    from consume_spelled_progress [OF nl this] n2 have prog: "?n < NextSpelled B2 File" by simp
    have "ahead SM TB0 B2" unfolding ahead_def
    proof (intro allI impI)
      fix i j
      assume a: "NextExpanded B2 \<le> i \<and> i < length ?ET \<and>
          j < NextSpelled B2 (tokfile SM (?ET ! i))"
      with run(1) have i: "?e \<le> i" "i < length ?ET" "NextExpanded B2 \<le> i" "?e < i" by simp_all
      show "Location (ST_of TB0 (tokfile SM (?ET ! i)) ! j) < exploc SM (?ET ! i)"
      proof (cases "tokfile SM (?ET ! i) = File \<and> ?n \<le> j")
        case False
        with a oth [of "tokfile SM (?ET ! i)"] have "j < NextSpelled B1 (tokfile SM (?ET ! i))"
          by (cases "tokfile SM (?ET ! i) = File") auto
        with old i show ?thesis by blast
      next
        case True
        then have iF: "tokfile SM (?ET ! i) = File" and nj: "?n \<le> j" by simp_all
        from a iF n2 have "j < consume_spelled ?ST ?End ?n" by simp
        from consume_spelled_between [OF nj this]
        have j: "j < length ?ST" "Location (?ST ! j) \<le> ?End" by simp_all
        have ne: "?X \<noteq> exploc SM (?ET ! i)"
        proof
          assume eq: "?X = exploc SM (?ET ! i)"
          have "exploc SM (?ET ! NextExpanded B2) = ?X"
            by (rule stream_order_run [OF so i(2) eq]) (use run(1) i(3) in simp_all)
          moreover have "NextExpanded B2 < length ?ET" using i by simp
          ultimately show False using run(4) by blast
        qed
        from so [unfolded stream_order_def, rule_format, of ?e i] i(4,2) iF File
        have "?X < exploc SM (?ET ! i) \<or> ?X = exploc SM (?ET ! i)" by auto
        with ne have Xi: "?X < exploc SM (?ET ! i)" by blast
        have Ti: "?ET ! i \<in> set ?ET" using i by simp
        have Sk: "?ST ! ?n \<in> set (ST_of TB0 (tokfile SM (?ET ! i)))" using nl by (simp add: iF)
        from dj [unfolded expansions_disjoint_def, rule_format, OF Ti Sk] valid Xi
        have "?End < exploc SM (?ET ! i)" by (simp add: nX)
        with j(2) show ?thesis by (simp add: iF)
      qed
    qed
    with prog show ?thesis by simp
  qed
  then show "ahead SM TB0 B2"
    and "\<not> isFileID SM (Location (?ET ! ?e)) \<longrightarrow> ?n < NextSpelled B2 File" by simp_all
qed

text \<open>
  Under this contract every mapping of the finished buffer has a non-empty spelled
  side. It is the contract that makes it so, not a test in \<open>advance\<close>.
\<close>

lemma build_nonempty:
  assumes run: "build LE SM CE ET = Some (Inr TB)"
    and eof: "eof_files SM ET"
    and sf: "spelled_in_files SM TB" and so: "stream_order SM ET"
    and mc: "macros_captured SM CE TB" and dj: "expansions_disjoint SM CE TB"
  shows "\<forall>M \<in> set (Ms_of TB F). BeginSpelled M < EndSpelled M"
proof -
  from run obtain TB0 B B' where ne: "ET \<noteq> []" "Kind (last ET) = tok_eof"
    and bst: "buildSpelledTokens LE SM \<lparr>ExpandedTokens = ET, Files = Map.empty, FileKeys = []\<rparr>
        = Inr TB0"
    and loop: "build_loop SM CE \<lparr>Result = TB0, NextExpanded = 0, NextSpelled = (\<lambda>F. 0)\<rparr>
        = Some (Inr B)"
    and drain: "drain_files SM CE (FileKeys (Result B)) B = Some B'" and TB: "TB = Result B'"
    by (rule build_cases)
  from run eof obtain TB0' where
    "buildSpelledTokens LE SM \<lparr>ExpandedTokens = ET, Files = Map.empty, FileKeys = []\<rparr>
        = Inr TB0'" and "same_static TB0' TB"
    by (rule build_base)
  with bst have ss: "same_static TB0 TB" by simp
  note post = buildSpelledTokens_post [OF bst]
  note con = contracts_static [OF ss]
  from sf have sf0: "spelled_in_files SM TB0" by (simp only: con)
  from mc have mc0: "macros_captured SM CE TB0" by (simp only: con)
  from dj have dj0: "expansions_disjoint SM CE TB0" by (simp only: con)
  from so have so0: "stream_order SM (ExpandedTokens TB0)" by (simp only: post(1))
  let ?B0 = "\<lparr>Result = TB0, NextExpanded = 0, NextSpelled = (\<lambda>F. 0)\<rparr>"
  let ?I = "\<lambda>C. base_inv TB0 C \<and> ahead SM TB0 C \<and> spelled_nonempty C"
  have none: "Ms_of TB0 G = []" for G using post(2) by (simp add: bst_inv_def)
  have init: "?I ?B0"
    by (simp add: base_inv_def same_static_refl ahead_def spelled_nonempty_def none)
  have "?I B \<and> \<not> NextExpanded B < length (ExpandedTokens (Result B)) - 1"
  proof (rule build_loop_rule [OF loop, where I = ?I, OF init])
    fix C C1 C2
    assume I: "?I C" and lt: "NextExpanded C < length (ExpandedTokens (Result C)) - 1"
      and d: "discard SM CE None C = Some C1" and a: "advance SM CE C1 = Inr C2"
    from I have base: "base_inv TB0 C" and ah: "ahead SM TB0 C" and sn: "spelled_nonempty C"
      by simp_all
    from base have st: "same_static TB0 (Result C)" by (simp add: base_inv_def)
    note s = same_staticD [OF st]
    let ?File = "tokfile SM (ExpandedTokens TB0 ! NextExpanded C)"
    from lt have lt0: "NextExpanded C < length (ExpandedTokens TB0) - 1" by (simp add: s)
    then have lt1: "NextExpanded C < length (ExpandedTokens TB0)" by simp
    note eff = main_step_effects [OF base post(3) lt0 d a refl]
    from eff(1) obtain New where de: "discard_effect SM CE None ?File New C C1" by blast
    then have e1: "NextExpanded C1 = NextExpanded C"
      and ex: "\<not> (NextSpelled C1 ?File < length (ST_of (Result C) ?File) \<and>
         Location (ST_of (Result C) ?File ! NextSpelled C1 ?File) < discard_target SM None C)"
      by (simp_all add: discard_effect_def)
    have tg: "discard_target SM None C = exploc SM (ExpandedTokens TB0 ! NextExpanded C)"
      by (simp add: discard_target_def exploc_def s)
    from ex have exit: "\<not> (NextSpelled C1 ?File < length (ST_of TB0 ?File) \<and>
         Location (ST_of TB0 ?File ! NextSpelled C1 ?File)
           < exploc SM (ExpandedTokens TB0 ! NextExpanded C1))"
      by (simp add: tg s e1)
    have sn1: "spelled_nonempty C1" by (rule nonempty_discard_step [OF de sn])
    have ah1: "ahead SM TB0 C1" by (rule ahead_discard_step [OF de refl st lt1 so0 dj0 ah])
    from eff(3) have st1: "same_static TB0 (Result C1)" by (simp add: base_inv_def)
    have F1: "?File = tokfile SM (ExpandedTokens TB0 ! NextExpanded C1)" by (simp add: e1)
    have lt1': "NextExpanded C1 < length (ExpandedTokens TB0)" using lt1 by (simp add: e1)
    have ae: "advance_effect SM CE ?File C1 C2" by (rule eff(2))
    note adv = ahead_advance_step [OF ae F1 st1 lt1' exit sf0 so0 mc0 dj0 ah1]
    have sn2: "spelled_nonempty C2" unfolding spelled_nonempty_def
    proof (intro allI ballI)
      fix G M assume M: "M \<in> set (Ms_of (Result C2) G)"
      show "BeginSpelled M < EndSpelled M"
      proof (cases "G = ?File")
        case False
        with ae M have "M \<in> set (Ms_of (Result C1) G)" by (simp add: advance_effect_def)
        with sn1 show ?thesis by (simp add: spelled_nonempty_def)
      next
        case True
        show ?thesis
        proof (cases "isFileID SM (Location (ExpandedTokens TB0 ! NextExpanded C1))")
          case isfile: True
          with ae have "Ms_of (Result C2) ?File = Ms_of (Result C1) ?File"
            by (simp add: advance_effect_def same_staticD [OF st1])
          with M True sn1 show ?thesis by (simp add: spelled_nonempty_def)
        next
          case macro: False
          with ae have "Ms_of (Result C2) ?File = Ms_of (Result C1) ?File @
              [\<lparr>BeginSpelled = NextSpelled C1 ?File, EndSpelled = NextSpelled C2 ?File,
                BeginExpanded = NextExpanded C1, EndExpanded = NextExpanded C2\<rparr>]"
            by (simp add: advance_effect_def same_staticD [OF st1])
          with M True have "M \<in> set (Ms_of (Result C1) ?File) \<or>
              M = \<lparr>BeginSpelled = NextSpelled C1 ?File, EndSpelled = NextSpelled C2 ?File,
                BeginExpanded = NextExpanded C1, EndExpanded = NextExpanded C2\<rparr>" by auto
          then show ?thesis
          proof
            assume "M \<in> set (Ms_of (Result C1) ?File)"
            with sn1 show ?thesis by (simp add: spelled_nonempty_def)
          next
            assume "M = \<lparr>BeginSpelled = NextSpelled C1 ?File, EndSpelled = NextSpelled C2 ?File,
                BeginExpanded = NextExpanded C1, EndExpanded = NextExpanded C2\<rparr>"
            with adv(2) macro show ?thesis by simp
          qed
        qed
      qed
    qed
    from eff(4) adv(1) sn2 show "?I C2" by simp
  qed
  then have B: "base_inv TB0 B" "spelled_nonempty B" by simp_all
  then have keys: "FileKeys (Result B) = FileKeys TB0" by (simp add: base_inv_def same_static_def)
  let ?J = "\<lambda>C. base_inv TB0 C \<and> spelled_nonempty C"
  have "?J B'"
  proof (rule drain_files_rule [OF drain, where I = ?J])
    show "?J B" using B by simp
  next
    fix G C C1
    assume J: "?J C" and G: "G \<in> set (FileKeys (Result B))"
      and d: "discard SM CE (Some G) C = Some C1"
    from G keys post(2) have tr: "tracked TB0 G" by (auto simp: bst_inv_def)
    have e: "getFileID SM (getLocForEndOfFile SM G) = G"
      by (rule tracked_eof_file [OF _ _ tr]) (use post eof in simp_all)
    from J have base: "base_inv TB0 C" and sn: "spelled_nonempty C" by simp_all
    note eff = drain_step_effects [OF base tr e d]
    from eff(1) obtain New where de: "discard_effect SM CE (Some G) G New C C1" by blast
    from nonempty_discard_step [OF de sn] eff(2) show "?J C1" by simp
  qed
  then show ?thesis by (simp add: spelled_nonempty_def TB)
qed

lemma Ms_of_tracked: "Files TB F = Some MF \<Longrightarrow> Ms_of TB F = Mappings MF"
  by (simp add: Ms_of_def Files_at_def)

section \<open>The contract, in a form that evaluates\<close>

lemma eof_last_bounded:
  "eof_last SM ET =
     (\<forall>i < length ET - 1.
        Kind (ET ! i) \<noteq> tok_eof \<and>
        (\<not> isFileID SM (Location (ET ! i)) \<longrightarrow> exploc SM (ET ! i) \<noteq> exploc SM (last ET)))"
  unfolding eof_last_def by (simp add: less_diff_conv)

lemma stream_order_bounded:
  "stream_order SM ET =
     (\<forall>i < length ET. \<forall>e < i. tokfile SM (ET ! e) = tokfile SM (ET ! i) \<longrightarrow>
        exploc SM (ET ! e) < exploc SM (ET ! i) \<or>
        (exploc SM (ET ! e) = exploc SM (ET ! i) \<and> \<not> isFileID SM (Location (ET ! e)) \<and>
         exploc SM (ET ! Suc e) = exploc SM (ET ! e)))"
  unfolding stream_order_def by blast

lemmas contract_defs = eof_files_def eof_last_bounded spelled_in_files_def stream_order_bounded
  macros_captured_def expansions_disjoint_def reader_defs tokfile_def exploc_def lookup_def
  isValid_def MarkedFile_default_def All_less_Suc

lemma S2_contract:
  "eof_files Ex_SM S2_Expanded" "eof_last Ex_SM S2_Expanded"
  "spelled_in_files Ex_SM S2_Buffer" "stream_order Ex_SM S2_Expanded"
  "macros_captured Ex_SM S2_Expansions S2_Buffer"
  "expansions_disjoint Ex_SM S2_Expansions S2_Buffer"
  by (simp_all add: contract_defs scenario_defs S2_Expanded_def S2_Buffer_def S2_File_def
      S2_Expansions_def)

text \<open>
  The file \<^verbatim>\<open>#define E\<close>, \<^verbatim>\<open>E E 1\<close>: two uses of an empty macro, one after the other,
  before the only expanded token.
\<close>

definition EE_Lexer :: LexerEnv where
  "EE_Lexer = \<lparr>rawLex = (\<lambda>F. ([Ex_raw 1 1 (tok_other 0), Ex_raw 2 6 tok_raw_identifier,
      Ex_raw 9 1 tok_raw_identifier, Ex_raw 11 1 tok_raw_identifier,
      Ex_raw 13 1 tok_raw_identifier, Ex_raw 15 1 (tok_other 1)], Ex_raw 16 0 tok_eof)),
    getTokenID = (\<lambda>s. tok_identifier)\<rparr>"

definition EE_Expanded :: "Token list" where
  "EE_Expanded = [Ex_tok 15 1 (tok_other 1), Ex_tok 16 0 tok_eof]"

definition EE_Expansions :: PPExpansions where
  "EE_Expansions = [11 \<mapsto> 11, 13 \<mapsto> 13]"

definition EE_File :: MarkedFile where
  "EE_File = \<lparr>SpelledTokens = [Ex_tok 1 1 (tok_other 0), Ex_tok 2 6 tok_identifier,
       Ex_tok 9 1 tok_identifier, Ex_tok 11 1 tok_identifier, Ex_tok 13 1 tok_identifier,
       Ex_tok 15 1 (tok_other 1)],
     Mappings = [\<lparr>BeginSpelled = 0, EndSpelled = 3, BeginExpanded = 0, EndExpanded = 0\<rparr>,
                 \<lparr>BeginSpelled = 3, EndSpelled = 4, BeginExpanded = 0, EndExpanded = 0\<rparr>,
                 \<lparr>BeginSpelled = 4, EndSpelled = 5, BeginExpanded = 0, EndExpanded = 0\<rparr>],
     File_BeginExpanded = 0, File_EndExpanded = 1\<rparr>"

definition EE_Buffer :: TokenBuffer where
  "EE_Buffer = \<lparr>ExpandedTokens = EE_Expanded, Files = [1 \<mapsto> EE_File], FileKeys = [1]\<rparr>"

lemma EE_build_fields:
  "\<exists>TB. build EE_Lexer Ex_SM EE_Expansions EE_Expanded = Some (Inr TB) \<and>
     ExpandedTokens TB = EE_Expanded \<and> FileKeys TB = [1] \<and>
     Files TB 1 = Some EE_File \<and> (\<forall>F. F \<noteq> 1 \<longrightarrow> Files TB F = None)"
  by (simp add: builder_defs scenario_defs EE_Lexer_def EE_Expanded_def EE_Expansions_def
      EE_File_def)

lemma EE_build: "build EE_Lexer Ex_SM EE_Expansions EE_Expanded = Some (Inr EE_Buffer)"
proof -
  from EE_build_fields obtain TB where
    b: "build EE_Lexer Ex_SM EE_Expansions EE_Expanded = Some (Inr TB)"
    and f: "ExpandedTokens TB = EE_Expanded" "FileKeys TB = [1]"
      "Files TB 1 = Some EE_File" "\<forall>F. F \<noteq> 1 \<longrightarrow> Files TB F = None"
    by blast
  have "Files TB = [1 \<mapsto> EE_File]" using f(3,4) by (intro ext) simp
  with f(1,2) have "TB = EE_Buffer" by (simp add: EE_Buffer_def)
  with b show ?thesis by simp
qed

lemma EE_contract:
  "eof_files Ex_SM EE_Expanded" "eof_last Ex_SM EE_Expanded"
  "spelled_in_files Ex_SM EE_Buffer" "stream_order Ex_SM EE_Expanded"
  "macros_captured Ex_SM EE_Expansions EE_Buffer"
  "expansions_disjoint Ex_SM EE_Expansions EE_Buffer"
  by (simp_all add: contract_defs scenario_defs EE_Expanded_def EE_Buffer_def EE_File_def
      EE_Expansions_def)

text \<open>
  C1, as it stands, fails on the expanded side: the second and the third mapping of
  the file above are both empty at the expanded index 0, so BeginExpanded does not
  increase strictly. The input meets the contract of the collaborators.
\<close>

theorem build_mappings_ordered_counterexample:
  "build EE_Lexer Ex_SM EE_Expansions EE_Expanded = Some (Inr EE_Buffer) \<and>
   Files EE_Buffer 1 = Some EE_File \<and>
   Mappings EE_File ! 1 = \<lparr>BeginSpelled = 3, EndSpelled = 4, BeginExpanded = 0, EndExpanded = 0\<rparr> \<and>
   Mappings EE_File ! 2 = \<lparr>BeginSpelled = 4, EndSpelled = 5, BeginExpanded = 0, EndExpanded = 0\<rparr> \<and>
   \<not> BeginExpanded (Mappings EE_File ! 1) < BeginExpanded (Mappings EE_File ! 2) \<and>
   eof_files Ex_SM EE_Expanded \<and> eof_last Ex_SM EE_Expanded \<and>
   spelled_in_files Ex_SM EE_Buffer \<and> stream_order Ex_SM EE_Expanded \<and>
   macros_captured Ex_SM EE_Expansions EE_Buffer \<and>
   expansions_disjoint Ex_SM EE_Expansions EE_Buffer"
  using EE_build EE_contract by (simp add: EE_Buffer_def EE_File_def)

text \<open>
  C1, amended. Let the end-of-file token be the last expanded token only, let no macro
  expand at its expansion location, and let the end location of the file of every
  expanded token lie in that file. After the builder completes, the mappings of every
  file are ordered and non-overlapping on the spelled side and on the expanded side,
  but not strictly: every mapping has BeginSpelled \<le> EndSpelled and
  BeginExpanded \<le> EndExpanded and ends, on each side, at or before the begin of every
  later mapping, so that BeginSpelled and BeginExpanded never decrease along the
  sequence. The order is strict only after a non-empty side: a mapping with a non-empty
  spelled side has its BeginSpelled strictly below that of every later mapping, and
  one with a non-empty expanded side its BeginExpanded.
\<close>

theorem build_mappings_ordered:
  assumes "build LE SM CE ET = Some (Inr TB)"
    and "eof_files SM ET" and "eof_last SM ET"
    and "Files TB F = Some MF"
  shows "(i < length (Mappings MF) \<longrightarrow>
            BeginSpelled (Mappings MF ! i) \<le> EndSpelled (Mappings MF ! i) \<and>
            BeginExpanded (Mappings MF ! i) \<le> EndExpanded (Mappings MF ! i)) \<and>
         (i < j \<and> j < length (Mappings MF) \<longrightarrow>
            EndSpelled (Mappings MF ! i) \<le> BeginSpelled (Mappings MF ! j) \<and>
            EndExpanded (Mappings MF ! i) \<le> BeginExpanded (Mappings MF ! j) \<and>
            BeginSpelled (Mappings MF ! i) \<le> BeginSpelled (Mappings MF ! j) \<and>
            BeginExpanded (Mappings MF ! i) \<le> BeginExpanded (Mappings MF ! j) \<and>
            (BeginSpelled (Mappings MF ! i) < EndSpelled (Mappings MF ! i) \<longrightarrow>
               BeginSpelled (Mappings MF ! i) < BeginSpelled (Mappings MF ! j)) \<and>
            (BeginExpanded (Mappings MF ! i) < EndExpanded (Mappings MF ! i) \<longrightarrow>
               BeginExpanded (Mappings MF ! i) < BeginExpanded (Mappings MF ! j)))"
proof -
  let ?Ms = "Mappings MF"
  from build_chain [OF assms(1-3), of F] have c: "chain ?Ms"
    by (simp add: Ms_of_tracked [OF assms(4)])
  have ends: "BeginSpelled (?Ms ! k) \<le> EndSpelled (?Ms ! k) \<and>
      BeginExpanded (?Ms ! k) \<le> EndExpanded (?Ms ! k)" if "k < length ?Ms" for k
    using c that by (simp add: chain_def)
  have later: "EndSpelled (?Ms ! i) \<le> BeginSpelled (?Ms ! j) \<and>
      EndExpanded (?Ms ! i) \<le> BeginExpanded (?Ms ! j)" if "i < j \<and> j < length ?Ms"
    using c that unfolding chain_def by (simp add: sorted_wrt_iff_nth_less)
  show ?thesis
  proof (intro conjI impI)
    assume i: "i < length ?Ms"
    from ends [OF i] show "BeginSpelled (?Ms ! i) \<le> EndSpelled (?Ms ! i)"
      and "BeginExpanded (?Ms ! i) \<le> EndExpanded (?Ms ! i)" by simp_all
  next
    assume ij: "i < j \<and> j < length ?Ms"
    then have i: "i < length ?Ms" by simp
    note l = later [OF ij] and e = ends [OF i]
    from l show "EndSpelled (?Ms ! i) \<le> BeginSpelled (?Ms ! j)"
      and "EndExpanded (?Ms ! i) \<le> BeginExpanded (?Ms ! j)" by simp_all
    from l e show "BeginSpelled (?Ms ! i) \<le> BeginSpelled (?Ms ! j)"
      and "BeginExpanded (?Ms ! i) \<le> BeginExpanded (?Ms ! j)" by simp_all
    {
      assume "BeginSpelled (?Ms ! i) < EndSpelled (?Ms ! i)"
      with l show "BeginSpelled (?Ms ! i) < BeginSpelled (?Ms ! j)" by simp
    }
    {
      assume "BeginExpanded (?Ms ! i) < EndExpanded (?Ms ! i)"
      with l show "BeginExpanded (?Ms ! i) < BeginExpanded (?Ms ! j)" by simp
    }
  qed
qed

theorem build_mappings_ordered_witness:
  "build S2_Lexer Ex_SM S2_Expansions S2_Expanded = Some (Inr S2_Buffer) \<and>
   eof_files Ex_SM S2_Expanded \<and> eof_last Ex_SM S2_Expanded \<and>
   Files S2_Buffer 1 = Some S2_File \<and> (0 :: nat) < 1 \<and> 1 < length (Mappings S2_File) \<and>
   Mappings S2_File ! 0 = \<lparr>BeginSpelled = 0, EndSpelled = 4, BeginExpanded = 0, EndExpanded = 0\<rparr> \<and>
   Mappings S2_File ! 1 = \<lparr>BeginSpelled = 7, EndSpelled = 8, BeginExpanded = 3, EndExpanded = 4\<rparr> \<and>
   BeginSpelled (Mappings S2_File ! 0) \<le> EndSpelled (Mappings S2_File ! 0) \<and>
   BeginExpanded (Mappings S2_File ! 0) \<le> EndExpanded (Mappings S2_File ! 0) \<and>
   EndSpelled (Mappings S2_File ! 0) \<le> BeginSpelled (Mappings S2_File ! 1) \<and>
   EndExpanded (Mappings S2_File ! 0) \<le> BeginExpanded (Mappings S2_File ! 1) \<and>
   BeginSpelled (Mappings S2_File ! 0) < EndSpelled (Mappings S2_File ! 0) \<and>
   BeginSpelled (Mappings S2_File ! 0) < BeginSpelled (Mappings S2_File ! 1) \<and>
   BeginExpanded (Mappings S2_File ! 0) \<le> BeginExpanded (Mappings S2_File ! 1)"
proof -
  have f: "Files S2_Buffer 1 = Some S2_File" by (simp add: S2_Buffer_def)
  have l: "(0 :: nat) < 1" "1 < length (Mappings S2_File)" by (simp_all add: S2_File_def)
  have m: "Mappings S2_File ! 0
      = \<lparr>BeginSpelled = 0, EndSpelled = 4, BeginExpanded = 0, EndExpanded = 0\<rparr>"
    "Mappings S2_File ! 1
      = \<lparr>BeginSpelled = 7, EndSpelled = 8, BeginExpanded = 3, EndExpanded = 4\<rparr>"
    by (simp_all add: S2_File_def)
  from build_mappings_ordered [OF S2_build S2_contract(1,2) f, of 0 1] S2_build S2_contract(1,2)
    f l m
  show ?thesis by simp
qed

text \<open>
  A file whose raw tokens and preprocessed tokens disagree:
  \<^verbatim>\<open>#define X 1\<close>, \<^verbatim>\<open>#warning /*\<close>, \<^verbatim>\<open>X\<close>, \<^verbatim>\<open>#warning */\<close>.
  The preprocessor reads the line of a \<^verbatim>\<open>#warning\<close> as raw text, so for it the use of
  \<^verbatim>\<open>X\<close> on the third line is a macro expansion, at location 25. The raw lexer of
  \<open>tokenize\<close> takes the text from \<^verbatim>\<open>/*\<close> to \<^verbatim>\<open>*/\<close> for a comment: the file has the six
  spelled tokens of its first two lines and none at the use of \<^verbatim>\<open>X\<close>.
\<close>

definition Hid_Lexer :: LexerEnv where
  "Hid_Lexer = \<lparr>rawLex = (\<lambda>F. ([Ex_raw 1 1 (tok_other 0), Ex_raw 2 6 tok_raw_identifier,
      Ex_raw 9 1 tok_raw_identifier, Ex_raw 11 1 (tok_other 1), Ex_raw 13 1 (tok_other 0),
      Ex_raw 14 7 tok_raw_identifier], Ex_raw 39 0 tok_eof)),
    getTokenID = (\<lambda>s. tok_identifier)\<rparr>"

definition Hid_Expanded :: "Token list" where
  "Hid_Expanded = [Ex_tok 25000 1 (tok_other 1), Ex_tok 39 0 tok_eof]"

definition Hid_Expansions :: PPExpansions where
  "Hid_Expansions = [25 \<mapsto> 25]"

definition Hid_File :: MarkedFile where
  "Hid_File = \<lparr>SpelledTokens = [Ex_tok 1 1 (tok_other 0), Ex_tok 2 6 tok_identifier,
       Ex_tok 9 1 tok_identifier, Ex_tok 11 1 (tok_other 1), Ex_tok 13 1 (tok_other 0),
       Ex_tok 14 7 tok_identifier],
     Mappings = [\<lparr>BeginSpelled = 0, EndSpelled = 6, BeginExpanded = 0, EndExpanded = 0\<rparr>,
                 \<lparr>BeginSpelled = 6, EndSpelled = 6, BeginExpanded = 0, EndExpanded = 1\<rparr>],
     File_BeginExpanded = 0, File_EndExpanded = 1\<rparr>"

definition Hid_Buffer :: TokenBuffer where
  "Hid_Buffer = \<lparr>ExpandedTokens = Hid_Expanded, Files = [1 \<mapsto> Hid_File], FileKeys = [1]\<rparr>"

lemma Hid_build_fields:
  "\<exists>TB. build Hid_Lexer Ex_SM Hid_Expansions Hid_Expanded = Some (Inr TB) \<and>
     ExpandedTokens TB = Hid_Expanded \<and> FileKeys TB = [1] \<and>
     Files TB 1 = Some Hid_File \<and> (\<forall>F. F \<noteq> 1 \<longrightarrow> Files TB F = None)"
  by (simp add: builder_defs scenario_defs Hid_Lexer_def Hid_Expanded_def Hid_Expansions_def
      Hid_File_def)

lemma Hid_build: "build Hid_Lexer Ex_SM Hid_Expansions Hid_Expanded = Some (Inr Hid_Buffer)"
proof -
  from Hid_build_fields obtain TB where
    b: "build Hid_Lexer Ex_SM Hid_Expansions Hid_Expanded = Some (Inr TB)"
    and f: "ExpandedTokens TB = Hid_Expanded" "FileKeys TB = [1]"
      "Files TB 1 = Some Hid_File" "\<forall>F. F \<noteq> 1 \<longrightarrow> Files TB F = None"
    by blast
  have "Files TB = [1 \<mapsto> Hid_File]" using f(3,4) by (intro ext) simp
  with f(1,2) have "TB = Hid_Buffer" by (simp add: Hid_Buffer_def)
  with b show ?thesis by simp
qed

text \<open>
  C6 does not hold of the code. \<open>FlushMapping\<close>, for \<open>discard\<close>, pushes a mapping only
  when its spelled side is not empty, and the comment on \<open>advance\<close> says that it
  increases \<open>NextSpelled\<close> by at least one; but the macro branch of \<open>advance\<close> pushes
  its mapping with no test, whatever the loop over the spelled tokens has consumed. For the
  file above \<open>discard\<close> skips the six spelled tokens, which all lie before the use of
  \<^verbatim>\<open>X\<close>, and \<open>advance\<close> then finds no spelled token at or before the end of the
  expansion: \<open>build\<close> completes, and the mapping of the expansion has the empty
  spelled side from 6 to 6. The lemma \<open>build_nonempty\<close> above gives the inputs on which
  the claim does hold: those where every macro token expands at the location of a
  spelled token of its file.
\<close>

theorem advance_pushes_empty_spelled_side:
  "build Hid_Lexer Ex_SM Hid_Expansions Hid_Expanded = Some (Inr Hid_Buffer) \<and>
   Files Hid_Buffer 1 = Some Hid_File \<and>
   Mappings Hid_File = [\<lparr>BeginSpelled = 0, EndSpelled = 6, BeginExpanded = 0, EndExpanded = 0\<rparr>,
                        \<lparr>BeginSpelled = 6, EndSpelled = 6, BeginExpanded = 0, EndExpanded = 1\<rparr>] \<and>
   BeginSpelled (Mappings Hid_File ! 1) = EndSpelled (Mappings Hid_File ! 1) \<and>
   \<not> BeginSpelled (Mappings Hid_File ! 1) < EndSpelled (Mappings Hid_File ! 1)"
  using Hid_build by (simp add: Hid_Buffer_def Hid_File_def)

text \<open>
  With two uses of \<^verbatim>\<open>X\<close> on the third line,
  \<^verbatim>\<open>#define X 1\<close>, \<^verbatim>\<open>#warning /*\<close>, \<^verbatim>\<open>X X\<close>, \<^verbatim>\<open>#warning */\<close>,
  the two mappings of \<open>advance\<close> are both empty at the spelled index 6. On such inputs
  BeginSpelled repeats as well, which is why C1, amended, has the order by BeginSpelled
  strict only after a mapping with a non-empty spelled side.
\<close>

definition Hid2_Lexer :: LexerEnv where
  "Hid2_Lexer = \<lparr>rawLex = (\<lambda>F. ([Ex_raw 1 1 (tok_other 0), Ex_raw 2 6 tok_raw_identifier,
      Ex_raw 9 1 tok_raw_identifier, Ex_raw 11 1 (tok_other 1), Ex_raw 13 1 (tok_other 0),
      Ex_raw 14 7 tok_raw_identifier], Ex_raw 41 0 tok_eof)),
    getTokenID = (\<lambda>s. tok_identifier)\<rparr>"

definition Hid2_Expanded :: "Token list" where
  "Hid2_Expanded = [Ex_tok 25000 1 (tok_other 1), Ex_tok 27000 1 (tok_other 1),
     Ex_tok 41 0 tok_eof]"

definition Hid2_Expansions :: PPExpansions where
  "Hid2_Expansions = [25 \<mapsto> 25, 27 \<mapsto> 27]"

definition Hid2_File :: MarkedFile where
  "Hid2_File = \<lparr>SpelledTokens = [Ex_tok 1 1 (tok_other 0), Ex_tok 2 6 tok_identifier,
       Ex_tok 9 1 tok_identifier, Ex_tok 11 1 (tok_other 1), Ex_tok 13 1 (tok_other 0),
       Ex_tok 14 7 tok_identifier],
     Mappings = [\<lparr>BeginSpelled = 0, EndSpelled = 6, BeginExpanded = 0, EndExpanded = 0\<rparr>,
                 \<lparr>BeginSpelled = 6, EndSpelled = 6, BeginExpanded = 0, EndExpanded = 1\<rparr>,
                 \<lparr>BeginSpelled = 6, EndSpelled = 6, BeginExpanded = 1, EndExpanded = 2\<rparr>],
     File_BeginExpanded = 0, File_EndExpanded = 2\<rparr>"

lemma Hid2_build:
  "\<exists>TB. build Hid2_Lexer Ex_SM Hid2_Expansions Hid2_Expanded = Some (Inr TB) \<and>
     ExpandedTokens TB = Hid2_Expanded \<and> FileKeys TB = [1] \<and>
     Files TB 1 = Some Hid2_File \<and> (\<forall>F. F \<noteq> 1 \<longrightarrow> Files TB F = None)"
  by (simp add: builder_defs scenario_defs Hid2_Lexer_def Hid2_Expanded_def Hid2_Expansions_def
      Hid2_File_def)

lemma Hid2_contract: "eof_files Ex_SM Hid2_Expanded" "eof_last Ex_SM Hid2_Expanded"
  by (simp_all add: contract_defs scenario_defs Hid2_Expanded_def)

section \<open>The spelled tokens of the finished buffer\<close>

lemma ST_of_emplace: "ST_of (Files_emplace TB G) F = ST_of TB F"
  by (simp add: ST_of_def Files_at_def Files_emplace_def MarkedFile_default_def
      split: option.splits)

lemma ST_of_Mappings_update:
  "ST_of (TB\<lparr>Files := (Files TB)(G \<mapsto> (Files_at TB G)\<lparr>Mappings := X\<rparr>)\<rparr>) F = ST_of TB F"
  by (simp add: ST_of_def Files_at_def)

lemma discard_ST_of:
  assumes "discard SM CE Drain B = Some B'"
  shows "ST_of (Result B') F = ST_of (Result B) F"
proof -
  let ?File = "getFileID SM (discard_target SM Drain B)"
  let ?TB1 = "Files_emplace (Result B) ?File"
  let ?TB2 = "case Drain of Some D \<Rightarrow> Files_emplace ?TB1 D | None \<Rightarrow> ?TB1"
  from assms obtain X where
    "Result B' = ?TB2\<lparr>Files := (Files ?TB2)(?File \<mapsto> (Files_at ?TB2 ?File)\<lparr>Mappings := X\<rparr>)\<rparr>"
    by (auto simp: discard_def discard_target_def Let_def split: option.splits prod.splits)
  then have "ST_of (Result B') F = ST_of ?TB2 F" by (simp only: ST_of_Mappings_update)
  also have "\<dots> = ST_of (Result B) F" by (cases Drain) (simp_all add: ST_of_emplace)
  finally show ?thesis .
qed

lemma advance_ST_of:
  assumes "advance SM CE B = Inr B'"
  shows "ST_of (Result B') F = ST_of (Result B) F"
proof -
  let ?File = "getFileID SM (getExpansionLoc SM
      (Location (ExpandedTokens (Result B) ! NextExpanded B)))"
  let ?TB1 = "Files_emplace (Result B) ?File"
  from assms have "Result B' = ?TB1 \<or>
      (\<exists>X. Result B' = ?TB1\<lparr>Files := (Files ?TB1)(?File \<mapsto> (Files_at ?TB1 ?File)\<lparr>Mappings := X\<rparr>)\<rparr>)"
    by (auto simp: advance_def Let_def split: if_splits)
  then have "ST_of (Result B') F = ST_of ?TB1 F"
    by (auto simp only: ST_of_Mappings_update)
  then show ?thesis by (simp add: ST_of_emplace)
qed

lemma build_spelled_tokens:
  assumes run: "build LE SM CE ET = Some (Inr TB)"
  shows "ST_of TB F = [] \<or> tokenize LE F = Inr (ST_of TB F)"
proof -
  from run obtain TB0 B B' where
    bst: "buildSpelledTokens LE SM \<lparr>ExpandedTokens = ET, Files = Map.empty, FileKeys = []\<rparr>
        = Inr TB0"
    and loop: "build_loop SM CE \<lparr>Result = TB0, NextExpanded = 0, NextSpelled = (\<lambda>F. 0)\<rparr>
        = Some (Inr B)"
    and drain: "drain_files SM CE (FileKeys (Result B)) B = Some B'" and TB: "TB = Result B'"
    by (rule build_cases)
  note post = buildSpelledTokens_post [OF bst]
  let ?I = "\<lambda>C. \<forall>G. ST_of (Result C) G = ST_of TB0 G"
  have "?I B \<and> \<not> NextExpanded B < length (ExpandedTokens (Result B)) - 1"
  proof (rule build_loop_rule [OF loop, where I = ?I])
    show "?I \<lparr>Result = TB0, NextExpanded = 0, NextSpelled = (\<lambda>F. 0)\<rparr>" by simp
  next
    fix C C1 C2
    assume "?I C" "discard SM CE None C = Some C1" "advance SM CE C1 = Inr C2"
    then show "?I C2" by (simp add: discard_ST_of advance_ST_of)
  qed
  then have B: "?I B" by simp
  have "?I B'"
  proof (rule drain_files_rule [OF drain, where I = ?I, OF B])
    fix G C C1
    assume "?I C" "discard SM CE (Some G) C = Some C1"
    then show "?I C1" by (simp add: discard_ST_of)
  qed
  then have eq: "ST_of TB F = ST_of TB0 F" by (simp add: TB)
  show ?thesis
  proof (cases "tracked TB0 F")
    case True
    with post(2) have "tokenize LE F = Inr (ST_of TB0 F)" by (simp add: bst_inv_def)
    then show ?thesis by (simp add: eq)
  next
    case False
    then have "ST_of TB0 F = []" by (simp add: reader_defs MarkedFile_default_def)
    then show ?thesis by (simp add: eq)
  qed
qed

text \<open>
  C5. Let the lexer report every token before its last one as not the end of the
  file with a kind other than end-of-file, and let the identifier table give no
  spelling the kind end-of-file. Then the sequence \<open>tokenize\<close> returns for a file
  contains no end-of-file token; it has the lexer's last token appended exactly when
  that token is not end-of-file; and no \<open>SpelledTokens\<close> of a buffer that \<open>build\<close>
  returns contains an end-of-file token.
\<close>

theorem tokenize_never_stores_eof:
  assumes "\<forall>F. \<forall>T \<in> set (fst (rawLex LE F)). getKind T \<noteq> tok_eof"
    and "\<forall>s. getTokenID LE s \<noteq> tok_eof"
  shows "(tokenize LE FID = Inr Tokens \<longrightarrow>
            (\<forall>X \<in> set Tokens. Kind X \<noteq> tok_eof) \<and>
            length Tokens = length (fst (rawLex LE FID))
               + (if getKind (snd (rawLex LE FID)) = tok_eof then 0 else 1)) \<and>
         (build LE SM CE ET = Some (Inr TB) \<and> Files TB F = Some MF \<longrightarrow>
            (\<forall>X \<in> set (SpelledTokens MF). Kind X \<noteq> tok_eof))"
proof (intro conjI impI)
  assume t: "tokenize LE FID = Inr Tokens"
  from assms(1) have a: "\<forall>T \<in> set (fst (rawLex LE FID)). getKind T \<noteq> tok_eof" by blast
  show "\<forall>X \<in> set Tokens. Kind X \<noteq> tok_eof" by (rule tokenize_no_eof(1) [OF t a assms(2)])
  show "length Tokens = length (fst (rawLex LE FID))
               + (if getKind (snd (rawLex LE FID)) = tok_eof then 0 else 1)"
    by (rule tokenize_no_eof(2) [OF t a assms(2)])
next
  assume b: "build LE SM CE ET = Some (Inr TB) \<and> Files TB F = Some MF"
  then have st: "ST_of TB F = SpelledTokens MF" by (simp add: ST_of_def Files_at_def)
  from assms(1) have a: "\<forall>T \<in> set (fst (rawLex LE F)). getKind T \<noteq> tok_eof" by blast
  from b build_spelled_tokens [of LE SM CE ET TB F]
  have "SpelledTokens MF = [] \<or> tokenize LE F = Inr (SpelledTokens MF)" by (simp add: st)
  then show "\<forall>X \<in> set (SpelledTokens MF). Kind X \<noteq> tok_eof"
  proof
    assume "SpelledTokens MF = []"
    then show ?thesis by simp
  next
    assume "tokenize LE F = Inr (SpelledTokens MF)"
    then show ?thesis by (rule tokenize_no_eof(1) [OF _ a assms(2)])
  qed
qed

lemma S2_tokenize: "tokenize S2_Lexer 1 = Inr (SpelledTokens S2_File)"
  by (simp add: tokenize_def AddToken_def Token_of_def isValid_def S2_Lexer_def S2_File_def
      scenario_defs)

theorem tokenize_never_stores_eof_witness:
  "(\<forall>F. list_all (\<lambda>T. getKind T \<noteq> tok_eof) (fst (rawLex S2_Lexer F))) \<and>
   (\<forall>s. getTokenID S2_Lexer s \<noteq> tok_eof) \<and>
   tokenize S2_Lexer 1 = Inr (SpelledTokens S2_File) \<and>
   getKind (snd (rawLex S2_Lexer 1)) = tok_eof \<and>
   length (SpelledTokens S2_File) = length (fst (rawLex S2_Lexer 1)) \<and>
   build S2_Lexer Ex_SM S2_Expansions S2_Expanded = Some (Inr S2_Buffer) \<and>
   Files S2_Buffer 1 = Some S2_File \<and>
   list_all (\<lambda>X. Kind X \<noteq> tok_eof) (SpelledTokens S2_File)"
proof -
  have a: "\<forall>F. \<forall>T \<in> set (fst (rawLex S2_Lexer F)). getKind T \<noteq> tok_eof"
    by (simp add: S2_Lexer_def scenario_defs)
  have b: "\<forall>s. getTokenID S2_Lexer s \<noteq> tok_eof" by (simp add: S2_Lexer_def)
  have c: "getKind (snd (rawLex S2_Lexer 1)) = tok_eof" by (simp add: S2_Lexer_def scenario_defs)
  have f: "Files S2_Buffer 1 = Some S2_File" by (simp add: S2_Buffer_def)
  from tokenize_never_stores_eof [OF a b, of 1 "SpelledTokens S2_File" Ex_SM S2_Expansions
      S2_Expanded S2_Buffer 1 S2_File] S2_tokenize S2_build f c
  have "length (SpelledTokens S2_File) = length (fst (rawLex S2_Lexer 1))"
    and "\<forall>X \<in> set (SpelledTokens S2_File). Kind X \<noteq> tok_eof" by simp_all
  with a b c f S2_tokenize S2_build show ?thesis by (simp add: list_all_iff)
qed

section \<open>The expanded side of a mapping lies in its file\<close>

text \<open>
  \<open>mapping_files\<close>: the expanded tokens that a mapping of a file covers expand in
  that file.
\<close>

definition mapping_files :: "SourceManager \<Rightarrow> Token list \<Rightarrow> Builder \<Rightarrow> bool" where
  "mapping_files SM ET B =
     (\<forall>F. \<forall>M \<in> set (Ms_of (Result B) F).
        \<forall>k. BeginExpanded M \<le> k \<and> k < EndExpanded M \<longrightarrow> tokfile SM (ET ! k) = F)"

lemma mapping_files_discard_step:
  assumes de: "discard_effect SM CE Drain File New B B1" and mf: "mapping_files SM ET B"
  shows "mapping_files SM ET B1"
  unfolding mapping_files_def
proof (intro allI ballI impI)
  fix F M k
  assume M: "M \<in> set (Ms_of (Result B1) F)" and k: "BeginExpanded M \<le> k \<and> k < EndExpanded M"
  from de have ms: "Ms_of (Result B1) F
            = (if F = File then Ms_of (Result B) File @ New else Ms_of (Result B) F)"
    and em: "empties (discard_at Drain B) (NextSpelled B File) (NextSpelled B1 File) New"
    by (simp_all add: discard_effect_def)
  from M ms have "M \<in> set (Ms_of (Result B) F) \<or> M \<in> set New" by (auto split: if_splits)
  then show "tokfile SM (ET ! k) = F"
  proof
    assume "M \<in> set (Ms_of (Result B) F)"
    with mf k show ?thesis unfolding mapping_files_def by blast
  next
    assume "M \<in> set New"
    from empties_elem [OF em this] k show ?thesis by simp
  qed
qed

lemma mapping_files_advance_step:
  assumes ae: "advance_effect SM CE File B1 B2"
    and st: "same_static TB0 (Result B1)"
    and lt: "NextExpanded B1 < length (ExpandedTokens TB0)"
    and File: "File = tokfile SM (ExpandedTokens TB0 ! NextExpanded B1)"
    and mf: "mapping_files SM (ExpandedTokens TB0) B1"
  shows "mapping_files SM (ExpandedTokens TB0) B2"
  unfolding mapping_files_def
proof (intro allI ballI impI)
  let ?ET = "ExpandedTokens TB0"
  let ?e = "NextExpanded B1"
  note s = same_staticD [OF st]
  fix F M k
  assume M: "M \<in> set (Ms_of (Result B2) F)" and k: "BeginExpanded M \<le> k \<and> k < EndExpanded M"
  let ?N = "\<lparr>BeginSpelled = NextSpelled B1 File, EndSpelled = NextSpelled B2 File,
                BeginExpanded = ?e, EndExpanded = NextExpanded B2\<rparr>"
  have "M \<in> set (Ms_of (Result B1) F) \<or>
      (F = File \<and> \<not> isFileID SM (Location (?ET ! ?e)) \<and> M = ?N)"
  proof (cases "F = File")
    case False
    with ae M show ?thesis by (simp add: advance_effect_def)
  next
    case True
    show ?thesis
    proof (cases "isFileID SM (Location (?ET ! ?e))")
      case isfile: True
      with ae have "Ms_of (Result B2) File = Ms_of (Result B1) File"
        by (simp add: advance_effect_def s)
      with M True show ?thesis by simp
    next
      case macro: False
      with ae have "Ms_of (Result B2) File = Ms_of (Result B1) File @ [?N]"
        by (simp add: advance_effect_def s)
      with M True macro show ?thesis by auto
    qed
  qed
  then show "tokfile SM (?ET ! k) = F"
  proof
    assume "M \<in> set (Ms_of (Result B1) F)"
    with mf k show ?thesis unfolding mapping_files_def by blast
  next
    assume new: "F = File \<and> \<not> isFileID SM (Location (?ET ! ?e)) \<and> M = ?N"
    then have macro: "\<not> isFileID SM (Location (ExpandedTokens (Result B1) ! ?e))"
      by (simp add: s)
    from lt have lt': "?e < length (ExpandedTokens (Result B1))" by (simp add: s)
    note run = advance_macro_run [OF ae macro lt', unfolded s]
    from new k have "?e \<le> k \<and> k < NextExpanded B2" by simp
    with run(3) have "exploc SM (?ET ! k) = exploc SM (?ET ! ?e)" by blast
    then have "tokfile SM (?ET ! k) = tokfile SM (?ET ! ?e)" by (simp only: tokfile_exploc)
    with new File show ?thesis by simp
  qed
qed

lemma build_mapping_bounds:
  assumes run: "build LE SM CE ET = Some (Inr TB)"
    and eof: "eof_files SM ET" and last: "eof_last SM ET"
    and M: "M \<in> set (Ms_of TB F)"
  shows "EndSpelled M \<le> length (ST_of TB F)"
    and "EndExpanded M \<le> EndExpanded_of TB F"
    and "\<forall>k. BeginExpanded M \<le> k \<and> k < EndExpanded M \<longrightarrow> tokfile SM (ET ! k) = F"
proof -
  from run obtain TB0 B B' where ne: "ET \<noteq> []" "Kind (last ET) = tok_eof"
    and bst: "buildSpelledTokens LE SM \<lparr>ExpandedTokens = ET, Files = Map.empty, FileKeys = []\<rparr>
        = Inr TB0"
    and loop: "build_loop SM CE \<lparr>Result = TB0, NextExpanded = 0, NextSpelled = (\<lambda>F. 0)\<rparr>
        = Some (Inr B)"
    and drain: "drain_files SM CE (FileKeys (Result B)) B = Some B'" and TB: "TB = Result B'"
    by (rule build_cases)
  note post = buildSpelledTokens_post [OF bst]
  let ?B0 = "\<lparr>Result = TB0, NextExpanded = 0, NextSpelled = (\<lambda>F. 0)\<rparr>"
  let ?I = "\<lambda>C. base_inv TB0 C \<and> chain_inv TB0 C \<and> expanded_behind C \<and>
      mapping_files SM (ExpandedTokens TB0) C"
  have none: "Ms_of TB0 G = []" for G using post(2) by (simp add: bst_inv_def)
  have init: "?I ?B0"
    by (simp add: base_inv_def same_static_refl chain_inv_def expanded_behind_def none chain_def
        mapping_files_def)
  have "?I B \<and> \<not> NextExpanded B < length (ExpandedTokens (Result B)) - 1"
  proof (rule build_loop_rule [OF loop, where I = ?I, OF init])
    fix C C1 C2
    assume I: "?I C" and lt: "NextExpanded C < length (ExpandedTokens (Result C)) - 1"
      and d: "discard SM CE None C = Some C1" and a: "advance SM CE C1 = Inr C2"
    from I have base: "base_inv TB0 C" and ci: "chain_inv TB0 C" and eb: "expanded_behind C"
      and mf: "mapping_files SM (ExpandedTokens TB0) C"
      by simp_all
    from base have et: "ExpandedTokens (Result C) = ExpandedTokens TB0"
      by (simp add: base_inv_def same_static_def)
    let ?File = "tokfile SM (ExpandedTokens TB0 ! NextExpanded C)"
    from lt have lt0: "NextExpanded C < length (ExpandedTokens TB0) - 1" by (simp add: et)
    note eff = main_step_effects [OF base post(3) lt0 d a refl]
    from eff(1) obtain New where de: "discard_effect SM CE None ?File New C C1" by blast
    then have e1: "NextExpanded C1 = NextExpanded C" by (simp add: discard_effect_def)
    have at: "\<forall>M \<in> set (Ms_of (Result C) ?File). EndExpanded M \<le> discard_at None C"
      using eb by (simp add: expanded_behind_def discard_at_def)
    have le: "discard_at None C \<le> EndExpanded_of TB0 ?File"
      using post(3) lt0 by (simp add: files_cover_def discard_at_def)
    note dis = chain_discard_step [OF de ci at le]
    have eb1: "expanded_behind C1"
      unfolding expanded_behind_def e1
    proof (intro allI ballI)
      fix G M assume "M \<in> set (Ms_of (Result C1) G)"
      with dis(2) have "M \<in> set (Ms_of (Result C) G) \<or> EndExpanded M = discard_at None C"
        by blast
      with eb show "EndExpanded M \<le> NextExpanded C"
        by (auto simp: expanded_behind_def discard_at_def)
    qed
    from eff(3) have st1: "same_static TB0 (Result C1)" by (simp add: base_inv_def)
    have "chain_inv TB0 C2" "expanded_behind C2"
      by (rule chain_advance_step [OF eff(2) st1 post(3) _ _ _ dis(1) eb1];
          use last lt0 post(1) in \<open>simp add: e1\<close>)+
    moreover have mf1: "mapping_files SM (ExpandedTokens TB0) C1"
      by (rule mapping_files_discard_step [OF de mf])
    have "mapping_files SM (ExpandedTokens TB0) C2"
      by (rule mapping_files_advance_step [OF eff(2) st1 _ _ mf1]) (use lt0 in \<open>simp_all add: e1\<close>)
    ultimately show "?I C2" using eff(4) by simp
  qed
  then have B: "base_inv TB0 B" "chain_inv TB0 B" "mapping_files SM (ExpandedTokens TB0) B"
    by simp_all
  then have keys: "FileKeys (Result B) = FileKeys TB0" by (simp add: base_inv_def same_static_def)
  let ?J = "\<lambda>C. base_inv TB0 C \<and> chain_inv TB0 C \<and> mapping_files SM (ExpandedTokens TB0) C"
  have "?J B'"
  proof (rule drain_files_rule [OF drain, where I = ?J])
    show "?J B" using B by simp
  next
    fix F C C1
    assume J: "?J C" and F: "F \<in> set (FileKeys (Result B))"
      and d: "discard SM CE (Some F) C = Some C1"
    from F keys post(2) have tr: "tracked TB0 F" by (auto simp: bst_inv_def)
    have e: "getFileID SM (getLocForEndOfFile SM F) = F"
      by (rule tracked_eof_file [OF _ _ tr]) (use post eof in simp_all)
    from J have base: "base_inv TB0 C" and ci: "chain_inv TB0 C"
      and mf: "mapping_files SM (ExpandedTokens TB0) C" by simp_all
    note eff = drain_step_effects [OF base tr e d]
    from eff(1) obtain New where de: "discard_effect SM CE (Some F) F New C C1" by blast
    have at0: "discard_at (Some F) C = EndExpanded_of TB0 F"
      using base by (simp add: discard_at_def base_inv_def same_static_def)
    have at: "\<forall>M \<in> set (Ms_of (Result C) F). EndExpanded M \<le> discard_at (Some F) C"
      using ci by (simp add: at0 chain_inv_def)
    have le: "discard_at (Some F) C \<le> EndExpanded_of TB0 F" by (simp add: at0)
    from chain_discard_step(1) [OF de ci at le] eff(2) mapping_files_discard_step [OF de mf]
    show "?J C1" by simp
  qed
  then have base: "base_inv TB0 B'" and ci: "chain_inv TB0 B'"
    and mf: "mapping_files SM (ExpandedTokens TB0) B'" by simp_all
  from base have ss: "same_static TB0 TB" and ns: "NextSpelled B' F \<le> length (ST_of TB0 F)"
    by (simp_all add: base_inv_def TB)
  note s = same_staticD [OF ss]
  from ci M have "EndSpelled M \<le> NextSpelled B' F" and ee: "EndExpanded M \<le> EndExpanded_of TB0 F"
    by (simp_all add: chain_inv_def TB)
  with ns show "EndSpelled M \<le> length (ST_of TB F)" by (simp add: s)
  from ee show "EndExpanded M \<le> EndExpanded_of TB F" by (simp add: s)
  from mf M show "\<forall>k. BeginExpanded M \<le> k \<and> k < EndExpanded M \<longrightarrow> tokfile SM (ET ! k) = F"
    unfolding mapping_files_def TB post(1) by blast
qed

lemma build_files_bounds:
  assumes run: "build LE SM CE ET = Some (Inr TB)"
    and eof: "eof_files SM ET" and tr: "tracked TB F"
  shows "ExpandedTokens TB = ET" and "EndExpanded_of TB F \<le> length ET"
proof -
  from run eof obtain TB0 where
    bst: "buildSpelledTokens LE SM \<lparr>ExpandedTokens = ET, Files = Map.empty, FileKeys = []\<rparr> = Inr TB0"
    and ss: "same_static TB0 TB"
    by (rule build_base)
  note post = buildSpelledTokens_post [OF bst]
  note s = same_staticD [OF ss]
  show "ExpandedTokens TB = ET" by (simp add: s post(1))
  from tr have "tracked TB0 F" by (simp add: s)
  with post(4) have "EndExpanded_of TB0 F \<le> length (ExpandedTokens TB0)"
    by (simp add: files_first_def)
  then show "EndExpanded_of TB F \<le> length ET" by (simp add: s post(1))
qed

section \<open>The spelled range of the expanded side of a mapping\<close>

lemma chain_sorted:
  assumes "chain Ms"
  shows "sorted_wrt (\<lambda>A B. BeginExpanded A \<le> BeginExpanded B) Ms"
proof -
  from assms have s: "sorted_wrt (\<lambda>A B. EndSpelled A \<le> BeginSpelled B \<and>
      EndExpanded A \<le> BeginExpanded B) Ms"
    and e: "\<forall>M \<in> set Ms. BeginExpanded M \<le> EndExpanded M"
    by (simp_all add: chain_def)
  show ?thesis unfolding sorted_wrt_iff_nth_less
  proof (intro allI impI)
    fix i j assume ij: "i < j" "j < length Ms"
    with s have "EndExpanded (Ms ! i) \<le> BeginExpanded (Ms ! j)"
      by (simp add: sorted_wrt_iff_nth_less)
    moreover from ij e have "BeginExpanded (Ms ! i) \<le> EndExpanded (Ms ! i)" by simp
    ultimately show "BeginExpanded (Ms ! i) \<le> BeginExpanded (Ms ! j)" by simp
  qed
qed

lemma chain_rightmost:
  assumes c: "chain Ms" and M: "M \<in> set Ms"
    and i: "BeginExpanded M \<le> i" "i < EndExpanded M"
  shows "rightmost_mapping Ms i = Some M"
proof -
  from M obtain k where k: "k < length Ms" "Ms ! k = M" by (auto simp: in_set_conv_nth)
  from c have s: "sorted_wrt (\<lambda>A B. EndSpelled A \<le> BeginSpelled B \<and>
      EndExpanded A \<le> BeginExpanded B) Ms" by (simp add: chain_def)
  have "find (\<lambda>M. BeginExpanded M \<le> i) (rev Ms) = Some (Ms ! k)"
  proof (rule find_rev_last [OF k(1)])
    show "BeginExpanded (Ms ! k) \<le> i" using k i by simp
    fix j assume j: "k < j" "j < length Ms"
    with s have "EndExpanded (Ms ! k) \<le> BeginExpanded (Ms ! j)"
      by (simp add: sorted_wrt_iff_nth_less)
    with k i show "\<not> BeginExpanded (Ms ! j) \<le> i" by simp
  qed
  with k show ?thesis by (simp add: rightmost_mapping_def)
qed

lemma spelledForExpandedToken_in_mapping:
  assumes F: "Files TB F = Some MF" and c: "chain (Mappings MF)" and M: "M \<in> set (Mappings MF)"
    and i: "BeginExpanded M \<le> i" "i < EndExpanded M" and len: "i < length (ExpandedTokens TB)"
    and tf: "tokfile SM (ExpandedTokens TB ! i) = F"
  shows "spelledForExpandedToken SM TB i = Inr ((F, BeginSpelled M), Some M)"
proof -
  let ?It = "partition_point (Mappings MF) (\<lambda>M. BeginExpanded M \<le> i)"
  from rightmost_mapping_partition_point [OF chain_sorted [OF c], of i] chain_rightmost [OF c M i]
  have "(if ?It = 0 then None else Some (Mappings MF ! (?It - 1))) = Some M" by simp
  then have It: "?It \<noteq> 0" "Mappings MF ! (?It - 1) = M" by (simp_all split: if_splits)
  from tf have f: "getFileID SM (getExpansionLoc SM (Location (ExpandedTokens TB ! i))) = F"
    by (simp add: tokfile_def)
  show ?thesis unfolding spelledForExpandedToken_def using len F It i(2) by (simp add: f Let_def)
qed

text \<open>
  \<open>spelled_located\<close>: every spelled token of a file is at a location of that file.
\<close>

definition spelled_located :: "SourceManager \<Rightarrow> TokenBuffer \<Rightarrow> bool" where
  "spelled_located SM TB = (\<forall>F. \<forall>T \<in> set (ST_of TB F). getFileID SM (Location T) = F)"

lemma build_spelledForExpanded:
  assumes run: "build LE SM CE ET = Some (Inr TB)"
    and eof: "eof_files SM ET" and last: "eof_last SM ET"
    and sl: "spelled_located SM TB"
    and F: "Files TB F = Some MF" and M: "M \<in> set (Mappings MF)"
    and ne: "BeginExpanded M < EndExpanded M" and sp: "BeginSpelled M < EndSpelled M"
  shows "spelledForExpanded SM TB (makeArrayRef (BeginExpanded M) (EndExpanded M))
     = Inr (Some (F, ArrayRef (BeginSpelled M) (EndSpelled M - BeginSpelled M)))"
proof -
  note ms = Ms_of_tracked [OF F]
  from F have st: "ST_of TB F = SpelledTokens MF" and tr: "tracked TB F"
    and ee: "EndExpanded_of TB F = File_EndExpanded MF"
    by (simp_all add: reader_defs)
  from M have M': "M \<in> set (Ms_of TB F)" by (simp add: ms)
  from build_chain [OF run eof last, of F] have c: "chain (Mappings MF)" by (simp add: ms)
  note b = build_mapping_bounds [OF run eof last M']
  note fb = build_files_bounds [OF run eof tr]
  from sp b(1) have inb: "BeginSpelled M < length (SpelledTokens MF)" by (simp add: st)
  let ?b = "BeginExpanded M" and ?l = "EndExpanded M - 1"
  from b(2) fb(2) have le: "EndExpanded M \<le> length (ExpandedTokens TB)" by (simp add: fb(1))
  have fileb: "tokfile SM (ExpandedTokens TB ! ?b) = F" and filel: "tokfile SM (ExpandedTokens TB ! ?l) = F"
    using b(3) ne by (simp_all add: fb(1))
  have first: "spelledForExpandedToken SM TB ?b = Inr ((F, BeginSpelled M), Some M)"
    by (rule spelledForExpandedToken_in_mapping [OF F c M _ ne _ fileb]) (use ne le in simp_all)
  have lastt: "spelledForExpandedToken SM TB ?l = Inr ((F, BeginSpelled M), Some M)"
    by (rule spelledForExpandedToken_in_mapping [OF F c M _ _ _ filel]) (use ne le in simp_all)
  have d: "deref TB (F, BeginSpelled M) = Inr (SpelledTokens MF ! BeginSpelled M)"
    using F inb by (simp add: deref_def)
  from inb have "SpelledTokens MF ! BeginSpelled M \<in> set (ST_of TB F)" by (simp add: st)
  with sl have fid: "getFileID SM (Location (SpelledTokens MF ! BeginSpelled M)) = F"
    unfolding spelled_located_def by blast
  have idx: "?b + (EndExpanded M - ?b) - 1 = ?l" using ne by simp
  from ne have inp: "makeArrayRef ?b (EndExpanded M) = ArrayRef ?b (EndExpanded M - ?b)"
    by (simp add: makeArrayRef_ordered)
  from sp have out: "makeArrayRef (BeginSpelled M) (EndSpelled M)
      = ArrayRef (BeginSpelled M) (EndSpelled M - BeginSpelled M)"
    by (simp add: makeArrayRef_ordered)
  show ?thesis
    unfolding spelledForExpanded_def inp
    using ne first lastt d fid F
    by (simp add: out idx Let_def)
qed

text \<open>
  C3, as it stands, fails for a mapping with an empty expanded side. In the buffer of
  \<^verbatim>\<open>#define X 1\<close>, \<^verbatim>\<open>int a = X;\<close> the directive is the mapping of the spelled tokens
  0 to 4 to the empty expanded range at 0, and \<open>spelledForExpanded\<close> of that range is
  none, not the spelled range: the query gives up on every empty range.
\<close>

theorem spelledForExpanded_mapping_counterexample:
  "build S2_Lexer Ex_SM S2_Expansions S2_Expanded = Some (Inr S2_Buffer) \<and>
   Files S2_Buffer 1 = Some S2_File \<and>
   \<lparr>BeginSpelled = 0, EndSpelled = 4, BeginExpanded = 0, EndExpanded = 0\<rparr>
     \<in> set (Mappings S2_File) \<and>
   makeArrayRef 0 0 = ArrayRef 0 0 \<and> makeArrayRef 0 4 = ArrayRef 0 4 \<and>
   spelledForExpanded Ex_SM S2_Buffer (makeArrayRef 0 0) = Inr None \<and>
   spelledForExpanded Ex_SM S2_Buffer (makeArrayRef 0 0) \<noteq> Inr (Some (1, makeArrayRef 0 4))"
  using S2_build by (simp add: S2_Buffer_def S2_File_def spelledForExpanded_def makeArrayRef_def)

text \<open>
  C3, amended. Let the end-of-file token be the last expanded token only, let no macro
  expand at its expansion location, let the end location of the file of every expanded
  token lie in that file, and let every spelled token be at a location of its file.
  After the builder completes, for every mapping M of every file: when the expanded
  side of M is empty, \<open>spelledForExpanded\<close> of the expanded tokens from BeginExpanded
  to EndExpanded of M is none; when the expanded side and the spelled side of M are
  both not empty, it is the spelled range of that file that begins at BeginSpelled of
  M and holds EndSpelled - BeginSpelled tokens. Nothing is said of a mapping with a
  non-empty expanded side and an empty spelled side.
\<close>

theorem spelledForExpanded_mapping:
  assumes "build LE SM CE ET = Some (Inr TB)"
    and "eof_files SM ET" and "eof_last SM ET"
    and "spelled_located SM TB"
    and "Files TB F = Some MF" and "M \<in> set (Mappings MF)"
  shows "BeginExpanded M \<le> EndExpanded M \<and>
         (BeginExpanded M = EndExpanded M \<longrightarrow>
            spelledForExpanded SM TB (makeArrayRef (BeginExpanded M) (EndExpanded M)) = Inr None) \<and>
         (BeginExpanded M < EndExpanded M \<and> BeginSpelled M < EndSpelled M \<longrightarrow>
            spelledForExpanded SM TB (makeArrayRef (BeginExpanded M) (EndExpanded M))
              = Inr (Some (F, ArrayRef (BeginSpelled M) (EndSpelled M - BeginSpelled M))))"
proof (intro conjI impI)
  from build_chain [OF assms(1-3), of F] assms(6)
  show "BeginExpanded M \<le> EndExpanded M"
    by (simp add: Ms_of_tracked [OF assms(5)] chain_def)
next
  assume "BeginExpanded M = EndExpanded M"
  then show "spelledForExpanded SM TB (makeArrayRef (BeginExpanded M) (EndExpanded M)) = Inr None"
    by (simp add: spelledForExpanded_def makeArrayRef_def)
next
  assume "BeginExpanded M < EndExpanded M \<and> BeginSpelled M < EndSpelled M"
  then show "spelledForExpanded SM TB (makeArrayRef (BeginExpanded M) (EndExpanded M))
      = Inr (Some (F, ArrayRef (BeginSpelled M) (EndSpelled M - BeginSpelled M)))"
    by (intro build_spelledForExpanded [OF assms]) simp_all
qed

lemma S2_located: "spelled_located Ex_SM S2_Buffer"
  by (simp add: spelled_located_def reader_defs scenario_defs S2_Buffer_def S2_File_def
      MarkedFile_default_def)

theorem spelledForExpanded_mapping_witness:
  "build S2_Lexer Ex_SM S2_Expansions S2_Expanded = Some (Inr S2_Buffer) \<and>
   eof_files Ex_SM S2_Expanded \<and> eof_last Ex_SM S2_Expanded \<and>
   spelled_located Ex_SM S2_Buffer \<and>
   Files S2_Buffer 1 = Some S2_File \<and>
   \<lparr>BeginSpelled = 7, EndSpelled = 8, BeginExpanded = 3, EndExpanded = 4\<rparr>
     \<in> set (Mappings S2_File) \<and>
   makeArrayRef 3 4 = ArrayRef 3 1 \<and>
   spelledForExpanded Ex_SM S2_Buffer (makeArrayRef 3 4) = Inr (Some (1, ArrayRef 7 1))"
proof -
  have f: "Files S2_Buffer 1 = Some S2_File" by (simp add: S2_Buffer_def)
  have m: "\<lparr>BeginSpelled = 7, EndSpelled = 8, BeginExpanded = 3, EndExpanded = 4\<rparr>
     \<in> set (Mappings S2_File)" by (simp add: S2_File_def)
  have r: "makeArrayRef 3 4 = ArrayRef 3 1" by (simp add: makeArrayRef_def)
  from spelledForExpanded_mapping [OF S2_build S2_contract(1,2) S2_located f m]
    S2_build S2_contract(1,2) S2_located f m r
  show ?thesis by simp
qed

section \<open>The spelled index of an expanded token\<close>

text \<open>
  \<open>spelled_index\<close> is the index in the spelled tokens of its file that
  \<open>spelledForExpandedToken\<close> computes for an expanded token; \<open>cursor\<close> is the pair of
  indices the computation counts from for a token behind all mappings of the file.
\<close>

definition spelled_index :: "Mapping list \<Rightarrow> nat \<Rightarrow> nat \<Rightarrow> nat" where
  "spelled_index Ms BE i =
     (case rightmost_mapping Ms i of
        None \<Rightarrow> i - BE
      | Some M \<Rightarrow> if i < EndExpanded M then BeginSpelled M
                  else EndSpelled M + (i - EndExpanded M))"

definition cursor :: "Mapping list \<Rightarrow> nat \<Rightarrow> nat \<times> nat" where
  "cursor Ms BE = (if Ms = [] then (0, BE) else (EndSpelled (last Ms), EndExpanded (last Ms)))"

lemma find_append_split:
  "find P (xs @ ys) = (case find P xs of None \<Rightarrow> find P ys | Some x \<Rightarrow> Some x)"
  by (induction xs) auto

lemma rightmost_append_later:
  assumes "\<forall>X \<in> set New. i < BeginExpanded X"
  shows "rightmost_mapping (Ms @ New) i = rightmost_mapping Ms i"
proof -
  from assms have "find (\<lambda>M. BeginExpanded M \<le> i) (rev New) = None"
    by (auto simp: find_None_iff)
  then show ?thesis by (simp add: rightmost_mapping_def find_append_split)
qed

lemma rightmost_last:
  assumes "Ms \<noteq> []" "BeginExpanded (last Ms) \<le> i"
  shows "rightmost_mapping Ms i = Some (last Ms)"
proof -
  from assms(1) obtain ys y where Ms: "Ms = ys @ [y]" by (cases Ms rule: rev_cases) auto
  with assms(2) show ?thesis by (simp add: rightmost_mapping_def)
qed

lemma spelled_index_append_later:
  "\<forall>X \<in> set New. i < BeginExpanded X \<Longrightarrow> spelled_index (Ms @ New) BE i = spelled_index Ms BE i"
  by (simp add: spelled_index_def rightmost_append_later)

lemma spelled_index_cursor:
  assumes c: "chain Ms" and b: "\<forall>M \<in> set Ms. EndExpanded M \<le> e" and i: "e \<le> i"
  shows "spelled_index Ms BE i = fst (cursor Ms BE) + (i - snd (cursor Ms BE))"
proof (cases "Ms = []")
  case True
  then show ?thesis by (simp add: spelled_index_def cursor_def rightmost_mapping_def)
next
  case False
  then have l: "last Ms \<in> set Ms" by simp
  with c have "BeginExpanded (last Ms) \<le> EndExpanded (last Ms)" by (simp add: chain_def)
  moreover from l b have le: "EndExpanded (last Ms) \<le> e" by simp
  ultimately have "BeginExpanded (last Ms) \<le> i" using i by simp
  from rightmost_last [OF False this] le i False show ?thesis
    by (simp add: spelled_index_def cursor_def)
qed

lemma spelled_index_snoc_inside:
  assumes "BeginExpanded N \<le> i" "i < EndExpanded N"
  shows "spelled_index (Ms @ [N]) BE i = BeginSpelled N"
  using rightmost_last [of "Ms @ [N]" i] assms by (simp add: spelled_index_def)

text \<open>
  The index that the code computes is \<open>spelled_index\<close> taken in 32-bit unsigned
  arithmetic, so it is never above it.
\<close>

lemma spelledForExpandedToken_index:
  assumes len: "i < length (ExpandedTokens TB)"
    and F: "Files TB (tokfile SM (ExpandedTokens TB ! i)) = Some MF"
    and c: "chain (Mappings MF)" and be: "File_BeginExpanded MF \<le> i"
  shows "\<exists>s m. spelledForExpandedToken SM TB i
                 = Inr ((tokfile SM (ExpandedTokens TB ! i), s), m) \<and>
               s \<le> spelled_index (Mappings MF) (File_BeginExpanded MF) i"
proof -
  from F have F': "Files TB (getFileID SM (getExpansionLoc SM (Location (ExpandedTokens TB ! i))))
      = Some MF" by (simp add: tokfile_def)
  note code = spelledForExpandedToken_rightmost [OF len F' chain_sorted [OF c]]
  show ?thesis
  proof (cases "rightmost_mapping (Mappings MF) i")
    case None
    with code be show ?thesis by (simp add: spelled_index_def unsigned_sub_def tokfile_def)
  next
    case (Some M)
    have "unsigned_add (EndSpelled M) (unsigned_sub i (EndExpanded M))
        \<le> EndSpelled M + (i - EndExpanded M)" if "\<not> i < EndExpanded M"
      using that by (simp add: unsigned_add_def unsigned_sub_def)
    with code Some show ?thesis by (simp add: spelled_index_def tokfile_def)
  qed
qed

section \<open>Expanded tokens keep step with the spelled tokens\<close>

text \<open>
  \<open>spelled_end\<close>: the location of the last spelled token that an expanded token
  accounts for: its own location for a file token, the captured end of the expansion
  for a macro token.

  The contract \<open>files_resume\<close>: when the expanded tokens come back to a file after
  tokens of another file, a spelled token of the file lies after everything the file
  has expanded so far and before the token that comes back (the directive that left
  the file).
\<close>

definition spelled_end :: "SourceManager \<Rightarrow> PPExpansions \<Rightarrow> Token \<Rightarrow> SourceLocation" where
  "spelled_end SM CE T =
     (if isFileID SM (Location T) then Location T else lookup CE (exploc SM T))"

definition files_resume :: "SourceManager \<Rightarrow> PPExpansions \<Rightarrow> TokenBuffer \<Rightarrow> bool" where
  "files_resume SM CE TB =
     (\<forall>e p. p < e \<and> e + 1 < length (ExpandedTokens TB) \<and>
        tokfile SM (ExpandedTokens TB ! p) = tokfile SM (ExpandedTokens TB ! e) \<and>
        tokfile SM (ExpandedTokens TB ! (e - 1)) \<noteq> tokfile SM (ExpandedTokens TB ! e) \<longrightarrow>
        (\<exists>S \<in> set (ST_of TB (tokfile SM (ExpandedTokens TB ! e))).
           Location S < exploc SM (ExpandedTokens TB ! e) \<and>
           (\<forall>k < e. tokfile SM (ExpandedTokens TB ! k) = tokfile SM (ExpandedTokens TB ! e) \<longrightarrow>
              spelled_end SM CE (ExpandedTokens TB ! k) < Location S)))"

lemma files_resume_static:
  assumes "same_static TB0 TB"
  shows "files_resume SM CE TB0 = files_resume SM CE TB"
  unfolding files_resume_def using assms by (simp add: same_static_def)

text \<open>
  The invariants. \<open>placed\<close>: the spelled index of every expanded token passed, the
  end-of-file token apart, is within the spelled tokens of its file. \<open>synced\<close>: each
  file has a point \<open>L\<close> in the expanded tokens, after its last token passed, where
  its two cursors are as far from the \<open>cursor\<close> of its mappings. \<open>consumed_upto\<close>:
  every spelled token passed is at or before the \<open>spelled_end\<close> of an expanded token
  of the file that is passed.
\<close>

definition placed :: "SourceManager \<Rightarrow> TokenBuffer \<Rightarrow> Builder \<Rightarrow> bool" where
  "placed SM TB0 B =
     (\<forall>i. i < NextExpanded B \<and> i + 1 < length (ExpandedTokens TB0) \<longrightarrow>
        spelled_index (Ms_of (Result B) (tokfile SM (ExpandedTokens TB0 ! i)))
            (BeginExpanded_of TB0 (tokfile SM (ExpandedTokens TB0 ! i))) i
          < length (ST_of TB0 (tokfile SM (ExpandedTokens TB0 ! i))))"

definition in_step :: "TokenBuffer \<Rightarrow> Builder \<Rightarrow> FileID \<Rightarrow> nat \<Rightarrow> bool" where
  "in_step TB0 B F L =
     (NextSpelled B F + snd (cursor (Ms_of (Result B) F) (BeginExpanded_of TB0 F))
        = L + fst (cursor (Ms_of (Result B) F) (BeginExpanded_of TB0 F)))"

definition synced :: "SourceManager \<Rightarrow> TokenBuffer \<Rightarrow> Builder \<Rightarrow> bool" where
  "synced SM TB0 B =
     (\<forall>F. \<exists>L. BeginExpanded_of TB0 F \<le> L \<and>
        (L \<le> NextExpanded B \<or> L = BeginExpanded_of TB0 F) \<and>
        (\<forall>k. L \<le> k \<and> k < NextExpanded B \<longrightarrow> tokfile SM (ExpandedTokens TB0 ! k) \<noteq> F) \<and>
        in_step TB0 B F L)"

definition consumed_upto :: "SourceManager \<Rightarrow> PPExpansions \<Rightarrow> TokenBuffer \<Rightarrow> Builder \<Rightarrow> bool" where
  "consumed_upto SM CE TB0 B =
     (\<forall>F j. j < NextSpelled B F \<longrightarrow>
        (\<exists>k < NextExpanded B. tokfile SM (ExpandedTokens TB0 ! k) = F \<and>
           Location (ST_of TB0 F ! j) \<le> spelled_end SM CE (ExpandedTokens TB0 ! k)))"

lemma placed_discard_step:
  assumes de: "discard_effect SM CE Drain File New B B1"
    and pl: "placed SM TB0 B"
    and later: "\<forall>i. i < NextExpanded B \<and> i + 1 < length (ExpandedTokens TB0) \<and>
        tokfile SM (ExpandedTokens TB0 ! i) = File \<longrightarrow> i < discard_at Drain B"
  shows "placed SM TB0 B1"
  unfolding placed_def
proof (intro allI impI)
  let ?ET = "ExpandedTokens TB0"
  fix i assume i: "i < NextExpanded B1 \<and> i + 1 < length ?ET"
  let ?F = "tokfile SM (?ET ! i)"
  from de have e1: "NextExpanded B1 = NextExpanded B"
    and ms: "Ms_of (Result B1) ?F
            = (if ?F = File then Ms_of (Result B) File @ New else Ms_of (Result B) ?F)"
    and em: "empties (discard_at Drain B) (NextSpelled B File) (NextSpelled B1 File) New"
    by (simp_all add: discard_effect_def)
  from i e1 have i': "i < NextExpanded B \<and> i + 1 < length ?ET" by simp
  with pl have old: "spelled_index (Ms_of (Result B) ?F) (BeginExpanded_of TB0 ?F) i
      < length (ST_of TB0 ?F)" unfolding placed_def by blast
  show "spelled_index (Ms_of (Result B1) ?F) (BeginExpanded_of TB0 ?F) i < length (ST_of TB0 ?F)"
  proof (cases "?F = File")
    case False
    with old ms show ?thesis by simp
  next
    case True
    with later i' have "i < discard_at Drain B" by blast
    with empties_elem [OF em] have "\<forall>X \<in> set New. i < BeginExpanded X" by simp
    from spelled_index_append_later [OF this] old ms True show ?thesis by simp
  qed
qed

lemma in_step_discard_step:
  assumes de: "discard_effect SM CE None File New B B1"
    and File: "File = tokfile SM (ExpandedTokens TB0 ! NextExpanded B)"
    and st: "same_static TB0 (Result B)"
    and lt: "NextExpanded B + 1 < length (ExpandedTokens TB0)"
    and cover: "files_cover SM TB0" and first: "files_first SM TB0"
    and sf: "spelled_in_files SM TB0" and fr: "files_resume SM CE TB0"
    and sy: "synced SM TB0 B" and cu: "consumed_upto SM CE TB0 B"
  shows "in_step TB0 B1 File (NextExpanded B)"
proof -
  let ?ET = "ExpandedTokens TB0"
  let ?e = "NextExpanded B"
  let ?ST = "ST_of TB0 File"
  let ?BE = "BeginExpanded_of TB0 File"
  let ?n = "NextSpelled B File"
  note s = same_staticD [OF st]
  from de have ms: "Ms_of (Result B1) File = Ms_of (Result B) File @ New"
    and em: "empties (discard_at None B) ?n (NextSpelled B1 File) New"
    and ex: "\<not> (NextSpelled B1 File < length (ST_of (Result B) File) \<and>
         Location (ST_of (Result B) File ! NextSpelled B1 File) < discard_target SM None B)"
    by (simp_all add: discard_effect_def)
  have tg: "discard_target SM None B = exploc SM (?ET ! ?e)"
    by (simp add: discard_target_def exploc_def s)
  have at: "discard_at None B = ?e" by (simp add: discard_at_def)
  from lt have lt': "?e < length ?ET" by simp
  from cover lt' File have tr: "tracked TB0 File" and be: "?BE \<le> ?e"
    by (simp_all add: files_cover_def)
  show ?thesis
  proof (cases "New = []")
    case False
    from empties_last [OF em False] False show ?thesis
      by (simp add: in_step_def ms cursor_def at)
  next
    case True
    with em have n1: "NextSpelled B1 File = ?n" by simp
    from True ms have ms': "Ms_of (Result B1) File = Ms_of (Result B) File" by simp
    from sy obtain L where L: "?BE \<le> L" "L \<le> ?e \<or> L = ?BE"
      "\<forall>k. L \<le> k \<and> k < ?e \<longrightarrow> tokfile SM (?ET ! k) \<noteq> File" "in_step TB0 B File L"
      unfolding synced_def by blast
    from L(2) be have Le: "L \<le> ?e" by auto
    have "L = ?e"
    proof (rule ccontr)
      assume "L \<noteq> ?e"
      with Le have Llt: "L < ?e" by simp
      then have prev: "tokfile SM (?ET ! (?e - 1)) \<noteq> File" using L(3) by simp
      show False
      proof (cases "\<exists>p < ?e. tokfile SM (?ET ! p) = File")
        case False
        from first tr have "tokfile SM (?ET ! ?BE) = File" by (simp add: files_first_def)
        with False have "\<not> ?BE < ?e" by blast
        with L(1) Llt show False by simp
      next
        case True
        then obtain p where p: "p < ?e" "tokfile SM (?ET ! p) = File" by blast
        from fr [unfolded files_resume_def, rule_format, of p ?e] p lt prev File
        obtain S where S: "S \<in> set ?ST" "Location S < exploc SM (?ET ! ?e)"
          "\<forall>k < ?e. tokfile SM (?ET ! k) = File \<longrightarrow> spelled_end SM CE (?ET ! k) < Location S"
          by auto
        from S(1) obtain j where j: "j < length ?ST" "?ST ! j = S"
          by (auto simp: in_set_conv_nth)
        have nj: "?n \<le> j"
        proof (rule ccontr)
          assume "\<not> ?n \<le> j"
          then have "j < ?n" by simp
          with cu obtain k where k: "k < ?e" "tokfile SM (?ET ! k) = File"
            "Location (?ST ! j) \<le> spelled_end SM CE (?ET ! k)"
            unfolding consumed_upto_def by blast
          with S(3) j(2) show False by fastforce
        qed
        from sf have "sorted_wrt (\<lambda>A B. Location A \<le> Location B) ?ST"
          by (simp add: spelled_in_files_def)
        from sorted_locations_nth [OF this nj j(1)] j(2) S(2)
        have "Location (?ST ! ?n) < exploc SM (?ET ! ?e)" by simp
        moreover from nj j(1) have "?n < length ?ST" by simp
        ultimately show False using ex by (simp add: n1 tg s)
      qed
    qed
    with L(4) show ?thesis by (simp add: in_step_def ms' n1)
  qed
qed

lemma in_step_advance_step:
  assumes ae: "advance_effect SM CE File B1 B2"
    and File: "File = tokfile SM (ExpandedTokens TB0 ! NextExpanded B1)"
    and st: "same_static TB0 (Result B1)"
    and lt: "NextExpanded B1 < length (ExpandedTokens TB0)"
    and prog: "NextExpanded B2 \<noteq> NextExpanded B1"
    and sf: "spelled_in_files SM TB0"
    and sync: "in_step TB0 B1 File (NextExpanded B1)"
  shows "in_step TB0 B2 File (NextExpanded B2)"
    and "NextExpanded B1 < NextExpanded B2"
    and "\<forall>k. NextExpanded B1 \<le> k \<and> k < NextExpanded B2 \<longrightarrow>
           tokfile SM (ExpandedTokens TB0 ! k) = File"
    and "isFileID SM (Location (ExpandedTokens TB0 ! NextExpanded B1)) \<longrightarrow>
           (\<forall>k. NextExpanded B1 \<le> k \<and> k < NextExpanded B2 \<longrightarrow>
              NextSpelled B1 File + (k - NextExpanded B1) < NextSpelled B2 File \<and>
              NextSpelled B1 File + (k - NextExpanded B1) < length (ST_of TB0 File) \<and>
              isFileID SM (Location (ExpandedTokens TB0 ! k)) \<and>
              Location (ST_of TB0 File ! (NextSpelled B1 File + (k - NextExpanded B1)))
                = Location (ExpandedTokens TB0 ! k))"
proof -
  let ?ET = "ExpandedTokens TB0"
  let ?e = "NextExpanded B1"
  let ?ST = "ST_of TB0 File"
  let ?n = "NextSpelled B1 File"
  let ?BE = "BeginExpanded_of TB0 File"
  note s = same_staticD [OF st]
  from sf have inF: "\<And>T. T \<in> set ?ST \<Longrightarrow> isFileID SM (Location T) \<and>
        getExpansionLoc SM (Location T) = Location T \<and> getFileID SM (Location T) = File"
    by (simp_all add: spelled_in_files_def)
  have "in_step TB0 B2 File (NextExpanded B2) \<and> ?e < NextExpanded B2 \<and>
      (\<forall>k. ?e \<le> k \<and> k < NextExpanded B2 \<longrightarrow> tokfile SM (?ET ! k) = File) \<and>
      (isFileID SM (Location (?ET ! ?e)) \<longrightarrow>
           (\<forall>k. ?e \<le> k \<and> k < NextExpanded B2 \<longrightarrow>
              ?n + (k - ?e) < NextSpelled B2 File \<and> ?n + (k - ?e) < length ?ST \<and>
              isFileID SM (Location (?ET ! k)) \<and>
              Location (?ST ! (?n + (k - ?e))) = Location (?ET ! k)))"
  proof (cases "isFileID SM (Location (?ET ! ?e))")
    case True
    with ae have ms: "Ms_of (Result B2) File = Ms_of (Result B1) File"
      and run: "(NextSpelled B2 File, NextExpanded B2) = file_run ?ST ?ET ?n ?e"
      by (simp_all add: advance_effect_def s)
    let ?R = "file_run ?ST ?ET ?n ?e"
    from run have n2: "NextSpelled B2 File = fst ?R" and e2: "NextExpanded B2 = snd ?R"
      by (simp_all add: prod_eq_iff)
    note fr = file_run_post [of ?n ?ST ?ET ?e]
    from fr have ge: "?n \<le> fst ?R" "?e \<le> snd ?R" and diff: "fst ?R - ?n = snd ?R - ?e"
      and match: "\<And>k. k < fst ?R - ?n \<Longrightarrow> ?n + k < length ?ST \<and> ?e + k < length ?ET \<and>
          Location (?ST ! (?n + k)) = Location (?ET ! (?e + k))"
      by blast+
    from prog e2 ge(2) have p: "?e < NextExpanded B2" by simp
    from sync ge diff have a: "in_step TB0 B2 File (NextExpanded B2)"
      unfolding in_step_def ms n2 e2 by linarith
    have b: "?n + (k - ?e) < NextSpelled B2 File \<and> ?n + (k - ?e) < length ?ST \<and>
        isFileID SM (Location (?ET ! k)) \<and>
        Location (?ST ! (?n + (k - ?e))) = Location (?ET ! k) \<and> tokfile SM (?ET ! k) = File"
      if "?e \<le> k \<and> k < NextExpanded B2" for k
    proof -
      from that e2 have "k - ?e < snd ?R - ?e" "?e + (k - ?e) = k" by linarith+
      then have k: "k - ?e < fst ?R - ?n" "?e + (k - ?e) = k" by (simp_all only: diff)
      from match [OF k(1)] k(2) have m: "?n + (k - ?e) < length ?ST"
        "Location (?ST ! (?n + (k - ?e))) = Location (?ET ! k)" by simp_all
      from m(1) have "?ST ! (?n + (k - ?e)) \<in> set ?ST" by simp
      from inF [OF this] m(2) have "isFileID SM (Location (?ET ! k))" "tokfile SM (?ET ! k) = File"
        by (simp_all add: tokfile_def)
      with m k(1) show ?thesis by (simp add: n2)
    qed
    from a p b True show ?thesis by blast
  next
    case False
    let ?N = "\<lparr>BeginSpelled = ?n, EndSpelled = NextSpelled B2 File,
                BeginExpanded = ?e, EndExpanded = NextExpanded B2\<rparr>"
    from False ae have ms: "Ms_of (Result B2) File = Ms_of (Result B1) File @ [?N]"
      by (simp_all add: advance_effect_def s)
    from lt have lt': "?e < length (ExpandedTokens (Result B1))" by (simp add: s)
    from False have macro: "\<not> isFileID SM (Location (ExpandedTokens (Result B1) ! ?e))"
      by (simp add: s)
    note run = advance_macro_run [OF ae macro lt', unfolded s]
    have a: "in_step TB0 B2 File (NextExpanded B2)" by (simp add: in_step_def ms cursor_def)
    have b: "tokfile SM (?ET ! k) = File" if "?e \<le> k \<and> k < NextExpanded B2" for k
    proof -
      from run(3) that have "exploc SM (?ET ! k) = exploc SM (?ET ! ?e)" by blast
      then have "tokfile SM (?ET ! k) = tokfile SM (?ET ! ?e)" by (simp only: tokfile_exploc)
      with File show ?thesis by simp
    qed
    from a run(1) b False show ?thesis by blast
  qed
  then show "in_step TB0 B2 File (NextExpanded B2)"
    and "NextExpanded B1 < NextExpanded B2"
    and "\<forall>k. NextExpanded B1 \<le> k \<and> k < NextExpanded B2 \<longrightarrow>
           tokfile SM (ExpandedTokens TB0 ! k) = File"
    and "isFileID SM (Location (ExpandedTokens TB0 ! NextExpanded B1)) \<longrightarrow>
           (\<forall>k. NextExpanded B1 \<le> k \<and> k < NextExpanded B2 \<longrightarrow>
              NextSpelled B1 File + (k - NextExpanded B1) < NextSpelled B2 File \<and>
              NextSpelled B1 File + (k - NextExpanded B1) < length (ST_of TB0 File) \<and>
              isFileID SM (Location (ExpandedTokens TB0 ! k)) \<and>
              Location (ST_of TB0 File ! (NextSpelled B1 File + (k - NextExpanded B1)))
                = Location (ExpandedTokens TB0 ! k))"
    by blast+
qed

lemma placed_advance_step:
  assumes ae: "advance_effect SM CE File B1 B2"
    and File: "File = tokfile SM (ExpandedTokens TB0 ! NextExpanded B1)"
    and st: "same_static TB0 (Result B1)"
    and lt: "NextExpanded B1 < length (ExpandedTokens TB0)"
    and step: "NextExpanded B1 < NextExpanded B2"
    and inF: "\<forall>k. NextExpanded B1 \<le> k \<and> k < NextExpanded B2 \<longrightarrow>
           tokfile SM (ExpandedTokens TB0 ! k) = File"
    and run: "isFileID SM (Location (ExpandedTokens TB0 ! NextExpanded B1)) \<longrightarrow>
           (\<forall>k. NextExpanded B1 \<le> k \<and> k < NextExpanded B2 \<longrightarrow>
              NextSpelled B1 File + (k - NextExpanded B1) < length (ST_of TB0 File))"
    and mac: "\<not> isFileID SM (Location (ExpandedTokens TB0 ! NextExpanded B1)) \<longrightarrow>
           NextSpelled B1 File < NextSpelled B2 File"
    and n2: "NextSpelled B2 File \<le> length (ST_of TB0 File)"
    and cover: "files_cover SM TB0"
    and ci: "chain_inv TB0 B1" and eb: "expanded_behind B1"
    and sync: "in_step TB0 B1 File (NextExpanded B1)"
    and pl: "placed SM TB0 B1"
  shows "placed SM TB0 B2"
  unfolding placed_def
proof (intro allI impI)
  let ?ET = "ExpandedTokens TB0"
  let ?e = "NextExpanded B1"
  let ?ST = "ST_of TB0 File"
  let ?n = "NextSpelled B1 File"
  let ?BE = "BeginExpanded_of TB0 File"
  let ?Ms = "Ms_of (Result B1) File"
  let ?N = "\<lparr>BeginSpelled = ?n, EndSpelled = NextSpelled B2 File,
                BeginExpanded = ?e, EndExpanded = NextExpanded B2\<rparr>"
  note s = same_staticD [OF st]
  fix i assume i: "i < NextExpanded B2 \<and> i + 1 < length ?ET"
  let ?F = "tokfile SM (?ET ! i)"
  from ae have oth: "\<And>G. G \<noteq> File \<Longrightarrow> Ms_of (Result B2) G = Ms_of (Result B1) G"
    by (simp add: advance_effect_def)
  have msF: "Ms_of (Result B2) File
      = (if isFileID SM (Location (?ET ! ?e)) then ?Ms else ?Ms @ [?N])"
    using ae by (simp add: advance_effect_def s)
  show "spelled_index (Ms_of (Result B2) ?F) (BeginExpanded_of TB0 ?F) i < length (ST_of TB0 ?F)"
  proof (cases "i < ?e")
    case True
    with pl i have old: "spelled_index (Ms_of (Result B1) ?F) (BeginExpanded_of TB0 ?F) i
        < length (ST_of TB0 ?F)" unfolding placed_def by blast
    show ?thesis
    proof (cases "?F = File")
      case False
      with old oth show ?thesis by simp
    next
      case F: True
      have "spelled_index (?Ms @ [?N]) ?BE i = spelled_index ?Ms ?BE i"
        by (rule spelled_index_append_later) (use True in simp)
      with old F msF show ?thesis by simp
    qed
  next
    case False
    with i have k: "?e \<le> i \<and> i < NextExpanded B2" by simp
    with inF have F: "?F = File" by blast
    show ?thesis
    proof (cases "isFileID SM (Location (?ET ! ?e))")
      case isf: True
      from ci have c: "chain ?Ms" by (simp add: chain_inv_def)
      from eb have b: "\<forall>M \<in> set ?Ms. EndExpanded M \<le> ?e" by (simp add: expanded_behind_def)
      from k have ei: "?e \<le> i" by simp
      note idx = spelled_index_cursor [OF c b ei, of ?BE]
      from cover lt File have be: "?BE \<le> ?e" by (simp add: files_cover_def)
      have ce: "snd (cursor ?Ms ?BE) \<le> ?e"
      proof (cases "?Ms = []")
        case True
        with be show ?thesis by (simp add: cursor_def)
      next
        case False
        then have "last ?Ms \<in> set ?Ms" by simp
        with b False show ?thesis by (simp add: cursor_def)
      qed
      from sync have "?n + snd (cursor ?Ms ?BE) = ?e + fst (cursor ?Ms ?BE)"
        by (simp add: in_step_def)
      with ce ei have "fst (cursor ?Ms ?BE) + (i - snd (cursor ?Ms ?BE)) = ?n + (i - ?e)"
        by linarith
      with idx have "spelled_index ?Ms ?BE i = ?n + (i - ?e)" by simp
      moreover from run isf k have "?n + (i - ?e) < length ?ST" by blast
      ultimately show ?thesis using F msF isf by simp
    next
      case macro: False
      have "spelled_index (?Ms @ [?N]) ?BE i = BeginSpelled ?N"
        by (rule spelled_index_snoc_inside) (use k in simp_all)
      moreover from mac macro n2 have "?n < length ?ST" by simp
      ultimately show ?thesis using F msF macro by simp
    qed
  qed
qed

lemma synced_step:
  assumes sy: "synced SM TB0 B"
    and oth: "\<forall>G. G \<noteq> File \<longrightarrow> NextSpelled B2 G = NextSpelled B G \<and>
        Ms_of (Result B2) G = Ms_of (Result B) G"
    and step: "NextExpanded B < NextExpanded B2"
    and inF: "\<forall>k. NextExpanded B \<le> k \<and> k < NextExpanded B2 \<longrightarrow>
           tokfile SM (ExpandedTokens TB0 ! k) = File"
    and be: "BeginExpanded_of TB0 File \<le> NextExpanded B"
    and sync: "in_step TB0 B2 File (NextExpanded B2)"
  shows "synced SM TB0 B2"
  unfolding synced_def
proof
  let ?ET = "ExpandedTokens TB0"
  fix F
  show "\<exists>L. BeginExpanded_of TB0 F \<le> L \<and> (L \<le> NextExpanded B2 \<or> L = BeginExpanded_of TB0 F) \<and>
        (\<forall>k. L \<le> k \<and> k < NextExpanded B2 \<longrightarrow> tokfile SM (?ET ! k) \<noteq> F) \<and> in_step TB0 B2 F L"
  proof (cases "F = File")
    case True
    with sync be step show ?thesis by (intro exI [of _ "NextExpanded B2"]) simp
  next
    case False
    from sy obtain L where L: "BeginExpanded_of TB0 F \<le> L"
      "L \<le> NextExpanded B \<or> L = BeginExpanded_of TB0 F"
      "\<forall>k. L \<le> k \<and> k < NextExpanded B \<longrightarrow> tokfile SM (?ET ! k) \<noteq> F" "in_step TB0 B F L"
      unfolding synced_def by blast
    have a: "L \<le> NextExpanded B2 \<or> L = BeginExpanded_of TB0 F" using L(2) step by auto
    have b: "tokfile SM (?ET ! k) \<noteq> F" if "L \<le> k \<and> k < NextExpanded B2" for k
    proof (cases "k < NextExpanded B")
      case True
      with L(3) that show ?thesis by blast
    next
      case k: False
      with inF that have "tokfile SM (?ET ! k) = File" by simp
      with False show ?thesis by simp
    qed
    from L(4) oth False have c: "in_step TB0 B2 F L" by (simp add: in_step_def)
    from L(1) a b c show ?thesis by blast
  qed
qed

lemma consumed_step:
  assumes de: "discard_effect SM CE None File New B B1"
    and ae: "advance_effect SM CE File B1 B2"
    and File: "File = tokfile SM (ExpandedTokens TB0 ! NextExpanded B)"
    and st: "same_static TB0 (Result B)" and st1: "same_static TB0 (Result B1)"
    and lt: "NextExpanded B < length (ExpandedTokens TB0)"
    and step: "NextExpanded B < NextExpanded B2"
    and sf: "spelled_in_files SM TB0" and mc: "macros_captured SM CE TB0"
    and dj: "expansions_disjoint SM CE TB0"
    and cu: "consumed_upto SM CE TB0 B"
  shows "consumed_upto SM CE TB0 B2"
  unfolding consumed_upto_def
proof (intro allI impI)
  let ?ET = "ExpandedTokens TB0"
  let ?e = "NextExpanded B"
  let ?X = "exploc SM (?ET ! ?e)"
  let ?ST = "ST_of TB0 File"
  let ?n = "NextSpelled B File"
  let ?n1 = "NextSpelled B1 File"
  note s = same_staticD [OF st]
  note s1 = same_staticD [OF st1]
  fix F j assume j: "j < NextSpelled B2 F"
  from de have e1: "NextExpanded B1 = ?e"
    and ns: "\<And>G. G \<noteq> File \<Longrightarrow> NextSpelled B1 G = NextSpelled B G"
    and sk: "\<And>j. ?n \<le> j \<Longrightarrow> j < ?n1 \<Longrightarrow>
           skipped (ST_of (Result B) File) CE (discard_target SM None B) ?n j"
    by (simp_all add: discard_effect_def)
  from ae have oth: "\<And>G. G \<noteq> File \<Longrightarrow> NextSpelled B2 G = NextSpelled B1 G"
    by (simp add: advance_effect_def)
  have tg: "discard_target SM None B = ?X" by (simp add: discard_target_def exploc_def s)
  from sf have inF: "\<And>T. T \<in> set ?ST \<Longrightarrow> isFileID SM (Location T) \<and>
        getExpansionLoc SM (Location T) = Location T \<and> getFileID SM (Location T) = File"
    by (simp_all add: spelled_in_files_def)
  have T: "?ET ! ?e \<in> set ?ET" using lt by simp
  have old: "\<exists>k < NextExpanded B2. tokfile SM (?ET ! k) = F \<and>
           Location (ST_of TB0 F ! j) \<le> spelled_end SM CE (?ET ! k)" if "j < NextSpelled B F"
  proof -
    from cu that obtain k where "k < ?e" "tokfile SM (?ET ! k) = F"
      "Location (ST_of TB0 F ! j) \<le> spelled_end SM CE (?ET ! k)"
      unfolding consumed_upto_def by blast
    with step show ?thesis by (intro exI [of _ k]) simp
  qed
  show "\<exists>k < NextExpanded B2. tokfile SM (?ET ! k) = F \<and>
           Location (ST_of TB0 F ! j) \<le> spelled_end SM CE (?ET ! k)"
  proof (cases "F = File")
    case False
    with j oth ns have "j < NextSpelled B F" by simp
    then show ?thesis by (rule old)
  next
    case F: True
    have fileloc: "Location (?ST ! (?n1 + k)) = Location (?ET ! (?e + k)) \<Longrightarrow> ?n1 + k < length ?ST \<Longrightarrow>
        tokfile SM (?ET ! (?e + k)) = File \<and>
        spelled_end SM CE (?ET ! (?e + k)) = Location (?ST ! (?n1 + k)) \<and>
        exploc SM (?ET ! (?e + k)) = Location (?ST ! (?n1 + k))" for k
    proof -
      assume m: "Location (?ST ! (?n1 + k)) = Location (?ET ! (?e + k))" "?n1 + k < length ?ST"
      from m(2) have "?ST ! (?n1 + k) \<in> set ?ST" by simp
      from inF [OF this] m(1) show ?thesis
        by (simp add: tokfile_def spelled_end_def exploc_def)
    qed
    have Xend: "?X \<le> spelled_end SM CE (?ET ! ?e)"
    proof (cases "isFileID SM (Location (?ET ! ?e))")
      case True
      with ae have run: "(NextSpelled B2 File, NextExpanded B2) = file_run ?ST ?ET ?n1 ?e"
        by (simp_all add: advance_effect_def s1 e1)
      let ?R = "file_run ?ST ?ET ?n1 ?e"
      note fr = file_run_post [of ?n1 ?ST ?ET ?e]
      from fr have diff: "fst ?R - ?n1 = snd ?R - ?e"
        and match: "\<And>k. k < fst ?R - ?n1 \<Longrightarrow> ?n1 + k < length ?ST \<and> ?e + k < length ?ET \<and>
          Location (?ST ! (?n1 + k)) = Location (?ET ! (?e + k))"
        by blast+
      from run step have "?e < snd ?R" by (simp add: prod_eq_iff)
      with diff have "0 < fst ?R - ?n1" by simp
      from match [OF this] fileloc [of 0] show ?thesis by simp
    next
      case False
      from mc [unfolded macros_captured_def, rule_format, OF T False] False
      show ?thesis by (simp add: spelled_end_def)
    qed
    show ?thesis
    proof (cases "j < ?n")
      case True
      with F old show ?thesis by simp
    next
      case nj: False
      show ?thesis
      proof (cases "j < ?n1")
        case True
        from sk [OF _ True] nj have skj: "skipped ?ST CE ?X ?n j" by (simp add: tg s)
        from skj consider "Location (?ST ! j) < ?X"
          | m where "m < length ?ST" "Location (?ST ! m) < ?X"
              "isValid (lookup CE (Location (?ST ! m)))"
              "Location (?ST ! j) \<le> lookup CE (Location (?ST ! m))"
          unfolding skipped_def by blast
        then have "Location (?ST ! j) < ?X"
        proof cases
          case 1
          then show ?thesis .
        next
          case 2
          have S: "?ST ! m \<in> set (ST_of TB0 (tokfile SM (?ET ! ?e)))"
            using 2(1) by (simp add: File)
          from dj [unfolded expansions_disjoint_def, rule_format, OF T S] 2(2,3)
          have "lookup CE (Location (?ST ! m)) < ?X" by blast
          with 2(4) show ?thesis by simp
        qed
        with Xend have "Location (?ST ! j) \<le> spelled_end SM CE (?ET ! ?e)" by simp
        with step File F show ?thesis by (intro exI [of _ ?e]) simp
      next
        case n1j: False
        show ?thesis
        proof (cases "isFileID SM (Location (?ET ! ?e))")
          case True
          with ae have run: "(NextSpelled B2 File, NextExpanded B2) = file_run ?ST ?ET ?n1 ?e"
            by (simp_all add: advance_effect_def s1 e1)
          let ?R = "file_run ?ST ?ET ?n1 ?e"
          from run have n2: "NextSpelled B2 File = fst ?R" and e2: "NextExpanded B2 = snd ?R"
            by (simp_all add: prod_eq_iff)
          note fr = file_run_post [of ?n1 ?ST ?ET ?e]
          from fr have diff: "fst ?R - ?n1 = snd ?R - ?e"
            and match: "\<And>k. k < fst ?R - ?n1 \<Longrightarrow> ?n1 + k < length ?ST \<and> ?e + k < length ?ET \<and>
              Location (?ST ! (?n1 + k)) = Location (?ET ! (?e + k))"
            by blast+
          let ?k = "j - ?n1"
          from n1j j F n2 have k: "?k < fst ?R - ?n1" "?n1 + ?k = j" by simp_all
          from match [OF k(1)] fileloc [of ?k] k(2)
          have "tokfile SM (?ET ! (?e + ?k)) = File"
            "spelled_end SM CE (?ET ! (?e + ?k)) = Location (?ST ! j)" by simp_all
          moreover from k(1) diff e2 have "?e + ?k < NextExpanded B2" by simp
          ultimately show ?thesis using F by (intro exI [of _ "?e + ?k"]) simp
        next
          case False
          with ae have n2: "NextSpelled B2 File = consume_spelled ?ST (lookup CE ?X) ?n1"
            by (simp_all add: advance_effect_def s1 e1)
          from n1j j F n2 have "?n1 \<le> j" "j < consume_spelled ?ST (lookup CE ?X) ?n1" by simp_all
          from consume_spelled_between [OF this] False
          have "Location (?ST ! j) \<le> spelled_end SM CE (?ET ! ?e)" by (simp add: spelled_end_def)
          with step File F show ?thesis by (intro exI [of _ ?e]) simp
        qed
      qed
    qed
  qed
qed

lemma build_placed:
  assumes run: "build LE SM CE ET = Some (Inr TB)"
    and eof: "eof_files SM ET" and last: "eof_last SM ET"
    and sf: "spelled_in_files SM TB" and so: "stream_order SM ET"
    and mc: "macros_captured SM CE TB" and dj: "expansions_disjoint SM CE TB"
    and fr: "files_resume SM CE TB"
    and i: "i + 1 < length ET"
  shows "spelled_index (Ms_of TB (tokfile SM (ET ! i))) (BeginExpanded_of TB (tokfile SM (ET ! i))) i
     < length (ST_of TB (tokfile SM (ET ! i)))"
proof -
  from run obtain TB0 B B' where ne: "ET \<noteq> []" "Kind (last ET) = tok_eof"
    and bst: "buildSpelledTokens LE SM \<lparr>ExpandedTokens = ET, Files = Map.empty, FileKeys = []\<rparr>
        = Inr TB0"
    and loop: "build_loop SM CE \<lparr>Result = TB0, NextExpanded = 0, NextSpelled = (\<lambda>F. 0)\<rparr>
        = Some (Inr B)"
    and drain: "drain_files SM CE (FileKeys (Result B)) B = Some B'" and TB: "TB = Result B'"
    by (rule build_cases)
  from run eof obtain TB0' where
    "buildSpelledTokens LE SM \<lparr>ExpandedTokens = ET, Files = Map.empty, FileKeys = []\<rparr>
        = Inr TB0'" and "same_static TB0' TB"
    by (rule build_base)
  with bst have ss: "same_static TB0 TB" by simp
  note post = buildSpelledTokens_post [OF bst]
  note con = contracts_static [OF ss]
  from sf have sf0: "spelled_in_files SM TB0" by (simp only: con)
  from mc have mc0: "macros_captured SM CE TB0" by (simp only: con)
  from dj have dj0: "expansions_disjoint SM CE TB0" by (simp only: con)
  from fr have fr0: "files_resume SM CE TB0" by (simp only: files_resume_static [OF ss])
  from so have so0: "stream_order SM (ExpandedTokens TB0)" by (simp only: post(1))
  from last have last0: "eof_last SM (ExpandedTokens TB0)" by (simp only: post(1))
  let ?ET = "ExpandedTokens TB0"
  let ?B0 = "\<lparr>Result = TB0, NextExpanded = 0, NextSpelled = (\<lambda>F. 0)\<rparr>"
  let ?I = "\<lambda>C. base_inv TB0 C \<and> chain_inv TB0 C \<and> expanded_behind C \<and> ahead SM TB0 C \<and>
      placed SM TB0 C \<and> synced SM TB0 C \<and> consumed_upto SM CE TB0 C"
  have none: "Ms_of TB0 G = []" for G using post(2) by (simp add: bst_inv_def)
  have sy0: "synced SM TB0 ?B0"
    unfolding synced_def
  proof
    fix F
    show "\<exists>L. BeginExpanded_of TB0 F \<le> L \<and>
        (L \<le> NextExpanded ?B0 \<or> L = BeginExpanded_of TB0 F) \<and>
        (\<forall>k. L \<le> k \<and> k < NextExpanded ?B0 \<longrightarrow> tokfile SM (?ET ! k) \<noteq> F) \<and>
        in_step TB0 ?B0 F L"
      by (intro exI [of _ "BeginExpanded_of TB0 F"]) (simp add: in_step_def none cursor_def)
  qed
  have init: "?I ?B0"
    using sy0
    by (simp add: base_inv_def same_static_refl chain_inv_def expanded_behind_def none chain_def
        ahead_def placed_def consumed_upto_def)
  have "?I B \<and> \<not> NextExpanded B < length (ExpandedTokens (Result B)) - 1"
  proof (rule build_loop_rule [OF loop, where I = ?I, OF init])
    fix C C1 C2
    assume I: "?I C" and lt: "NextExpanded C < length (ExpandedTokens (Result C)) - 1"
      and d: "discard SM CE None C = Some C1" and a: "advance SM CE C1 = Inr C2"
      and prog: "NextExpanded C2 \<noteq> NextExpanded C1"
    from I have base: "base_inv TB0 C" and ci: "chain_inv TB0 C" and eb: "expanded_behind C"
      and ah: "ahead SM TB0 C" and pl: "placed SM TB0 C" and sy: "synced SM TB0 C"
      and cu: "consumed_upto SM CE TB0 C"
      by simp_all
    from base have st: "same_static TB0 (Result C)" by (simp add: base_inv_def)
    note s = same_staticD [OF st]
    let ?File = "tokfile SM (?ET ! NextExpanded C)"
    from lt have lt0: "NextExpanded C < length ?ET - 1" by (simp add: s)
    then have lt1: "NextExpanded C < length ?ET" and lt2: "NextExpanded C + 1 < length ?ET"
      by simp_all
    note eff = main_step_effects [OF base post(3) lt0 d a refl]
    from eff(1) obtain New where de: "discard_effect SM CE None ?File New C C1" by blast
    then have e1: "NextExpanded C1 = NextExpanded C"
      and ex: "\<not> (NextSpelled C1 ?File < length (ST_of (Result C) ?File) \<and>
         Location (ST_of (Result C) ?File ! NextSpelled C1 ?File) < discard_target SM None C)"
      and nsd: "\<forall>G. G \<noteq> ?File \<longrightarrow> NextSpelled C1 G = NextSpelled C G"
      and msd: "\<forall>G. Ms_of (Result C1) G
            = (if G = ?File then Ms_of (Result C) ?File @ New else Ms_of (Result C) G)"
      by (simp_all add: discard_effect_def)
    have ae: "advance_effect SM CE ?File C1 C2" by (rule eff(2))
    then have otha: "\<forall>G. G \<noteq> ?File \<longrightarrow> NextSpelled C2 G = NextSpelled C1 G \<and>
           Ms_of (Result C2) G = Ms_of (Result C1) G"
      by (simp add: advance_effect_def)
    from eff(3) have st1: "same_static TB0 (Result C1)" by (simp add: base_inv_def)
    have F1: "?File = tokfile SM (?ET ! NextExpanded C1)" by (simp add: e1)
    have lt1': "NextExpanded C1 < length ?ET" using lt1 by (simp add: e1)
    \<comment> \<open>the chain\<close>
    have at: "\<forall>M \<in> set (Ms_of (Result C) ?File). EndExpanded M \<le> discard_at None C"
      using eb by (simp add: expanded_behind_def discard_at_def)
    have le: "discard_at None C \<le> EndExpanded_of TB0 ?File"
      using post(3) lt0 by (simp add: files_cover_def discard_at_def)
    note dis = chain_discard_step [OF de ci at le]
    have eb1: "expanded_behind C1"
      unfolding expanded_behind_def e1
    proof (intro allI ballI)
      fix G M assume "M \<in> set (Ms_of (Result C1) G)"
      with dis(2) have "M \<in> set (Ms_of (Result C) G) \<or> EndExpanded M = discard_at None C"
        by blast
      with eb show "EndExpanded M \<le> NextExpanded C"
        by (auto simp: expanded_behind_def discard_at_def)
    qed
    have ci2: "chain_inv TB0 C2" and eb2: "expanded_behind C2"
      by (rule chain_advance_step [OF ae st1 post(3) last0 _ _ dis(1) eb1];
          use lt0 in \<open>simp add: e1\<close>)+
    \<comment> \<open>the cursors\<close>
    have tg: "discard_target SM None C = exploc SM (?ET ! NextExpanded C)"
      by (simp add: discard_target_def exploc_def s)
    from ex have exit: "\<not> (NextSpelled C1 ?File < length (ST_of TB0 ?File) \<and>
         Location (ST_of TB0 ?File ! NextSpelled C1 ?File)
           < exploc SM (?ET ! NextExpanded C1))"
      by (simp add: tg s e1)
    have ah1: "ahead SM TB0 C1" by (rule ahead_discard_step [OF de refl st lt1 so0 dj0 ah])
    note adv = ahead_advance_step [OF ae F1 st1 lt1' exit sf0 so0 mc0 dj0 ah1]
    \<comment> \<open>the spelled indices\<close>
    have pl1: "placed SM TB0 C1"
      by (rule placed_discard_step [OF de pl]) (simp add: discard_at_def)
    have "in_step TB0 C1 ?File (NextExpanded C)"
      by (rule in_step_discard_step [OF de refl st lt2 post(3,4) sf0 fr0 sy cu])
    then have sync1: "in_step TB0 C1 ?File (NextExpanded C1)" by (simp add: e1)
    note ins = in_step_advance_step [OF ae F1 st1 lt1' prog sf0 sync1]
    from ins(4) have runlen: "isFileID SM (Location (?ET ! NextExpanded C1)) \<longrightarrow>
           (\<forall>k. NextExpanded C1 \<le> k \<and> k < NextExpanded C2 \<longrightarrow>
              NextSpelled C1 ?File + (k - NextExpanded C1) < length (ST_of TB0 ?File))"
      by blast
    from eff(4) have n2: "NextSpelled C2 ?File \<le> length (ST_of TB0 ?File)"
      by (simp add: base_inv_def)
    have pl2: "placed SM TB0 C2"
      by (rule placed_advance_step [OF ae F1 st1 lt1' ins(2,3) runlen adv(2) n2 post(3) dis(1)
            eb1 sync1 pl1])
    have oth: "\<forall>G. G \<noteq> ?File \<longrightarrow> NextSpelled C2 G = NextSpelled C G \<and>
        Ms_of (Result C2) G = Ms_of (Result C) G"
      using nsd msd otha by simp
    from ins(2) have step: "NextExpanded C < NextExpanded C2" by (simp add: e1)
    from ins(3) have inF: "\<forall>k. NextExpanded C \<le> k \<and> k < NextExpanded C2 \<longrightarrow>
           tokfile SM (?ET ! k) = ?File" by (simp only: e1)
    from post(3) lt1 have be: "BeginExpanded_of TB0 ?File \<le> NextExpanded C"
      by (simp add: files_cover_def)
    have sy2: "synced SM TB0 C2" by (rule synced_step [OF sy oth step inF be ins(1)])
    have cu2: "consumed_upto SM CE TB0 C2"
      by (rule consumed_step [OF de ae refl st st1 lt1 step sf0 mc0 dj0 cu])
    from eff(4) ci2 eb2 adv(1) pl2 sy2 cu2 show "?I C2" by simp
  qed
  then have B: "base_inv TB0 B" "placed SM TB0 B"
    and fin: "\<not> NextExpanded B < length (ExpandedTokens (Result B)) - 1" by simp_all
  from B(1) have keys: "FileKeys (Result B) = FileKeys TB0"
    and etB: "ExpandedTokens (Result B) = ?ET" by (simp_all add: base_inv_def same_static_def)
  let ?J = "\<lambda>C. base_inv TB0 C \<and> placed SM TB0 C \<and> NextExpanded C = NextExpanded B"
  have "?J B'"
  proof (rule drain_files_rule [OF drain, where I = ?J])
    show "?J B" using B by simp
  next
    fix G C C1
    assume J: "?J C" and G: "G \<in> set (FileKeys (Result B))"
      and d: "discard SM CE (Some G) C = Some C1"
    from G keys post(2) have tr: "tracked TB0 G" by (auto simp: bst_inv_def)
    have e: "getFileID SM (getLocForEndOfFile SM G) = G"
      by (rule tracked_eof_file [OF _ _ tr]) (use post eof in simp_all)
    from J have base: "base_inv TB0 C" and pl: "placed SM TB0 C"
      and eq: "NextExpanded C = NextExpanded B" by simp_all
    note eff = drain_step_effects [OF base tr e d]
    from eff(1) obtain New where de: "discard_effect SM CE (Some G) G New C C1" by blast
    then have e1: "NextExpanded C1 = NextExpanded C" by (simp add: discard_effect_def)
    have at0: "discard_at (Some G) C = EndExpanded_of TB0 G"
      using base by (simp add: discard_at_def base_inv_def same_static_def)
    have later: "\<forall>k. k < NextExpanded C \<and> k + 1 < length ?ET \<and> tokfile SM (?ET ! k) = G
        \<longrightarrow> k < discard_at (Some G) C"
    proof (intro allI impI)
      fix k assume k: "k < NextExpanded C \<and> k + 1 < length ?ET \<and> tokfile SM (?ET ! k) = G"
      with last0 have "Kind (?ET ! k) \<noteq> tok_eof" unfolding eof_last_def by blast
      moreover from k have "k < length ?ET" by simp
      ultimately have "k < EndExpanded_of TB0 (tokfile SM (?ET ! k))"
        using post(3) unfolding files_cover_def by blast
      with k show "k < discard_at (Some G) C" by (simp add: at0)
    qed
    from placed_discard_step [OF de pl later] eff(2) e1 eq show "?J C1" by simp
  qed
  then have pl: "placed SM TB0 B'" and eq: "NextExpanded B' = NextExpanded B" by simp_all
  note s = same_staticD [OF ss]
  from i fin have "i < NextExpanded B' \<and> i + 1 < length ?ET" by (simp add: eq etB post(1))
  with pl have "spelled_index (Ms_of (Result B') (tokfile SM (?ET ! i)))
            (BeginExpanded_of TB0 (tokfile SM (?ET ! i))) i
          < length (ST_of TB0 (tokfile SM (?ET ! i)))"
    unfolding placed_def by blast
  then show ?thesis by (simp add: TB [symmetric] s post(1))
qed

lemma files_resume_bounded:
  "files_resume SM CE TB =
     (\<forall>e < length (ExpandedTokens TB) - 1. \<forall>p < e.
        tokfile SM (ExpandedTokens TB ! p) = tokfile SM (ExpandedTokens TB ! e) \<and>
        tokfile SM (ExpandedTokens TB ! (e - 1)) \<noteq> tokfile SM (ExpandedTokens TB ! e) \<longrightarrow>
        (\<exists>S \<in> set (ST_of TB (tokfile SM (ExpandedTokens TB ! e))).
           Location S < exploc SM (ExpandedTokens TB ! e) \<and>
           (\<forall>k < e. tokfile SM (ExpandedTokens TB ! k) = tokfile SM (ExpandedTokens TB ! e) \<longrightarrow>
              spelled_end SM CE (ExpandedTokens TB ! k) < Location S)))"
  unfolding files_resume_def by (simp add: less_diff_conv) blast

lemma build_spelled_index:
  assumes run: "build LE SM CE ET = Some (Inr TB)"
    and eof: "eof_files SM ET" and last: "eof_last SM ET"
    and sf: "spelled_in_files SM TB" and so: "stream_order SM ET"
    and mc: "macros_captured SM CE TB" and dj: "expansions_disjoint SM CE TB"
    and fr: "files_resume SM CE TB"
    and i: "i + 1 < length ET"
  shows "\<exists>MF s m. Files TB (tokfile SM (ET ! i)) = Some MF \<and>
     spelledForExpandedToken SM TB i = Inr ((tokfile SM (ET ! i), s), m) \<and>
     s < length (SpelledTokens MF)"
proof -
  let ?F = "tokfile SM (ET ! i)"
  from run eof obtain TB0 where
    bst: "buildSpelledTokens LE SM \<lparr>ExpandedTokens = ET, Files = Map.empty, FileKeys = []\<rparr> = Inr TB0"
    and ss: "same_static TB0 TB"
    by (rule build_base)
  note post = buildSpelledTokens_post [OF bst]
  note s = same_staticD [OF ss]
  have et: "ExpandedTokens TB = ET" by (simp add: s post(1))
  from i have il: "i < length (ExpandedTokens TB0)" by (simp add: post(1))
  with post(3) have "tracked TB0 (tokfile SM (ExpandedTokens TB0 ! i))"
    and "BeginExpanded_of TB0 (tokfile SM (ExpandedTokens TB0 ! i)) \<le> i"
    unfolding files_cover_def by blast+
  then have "tracked TB ?F" and be: "BeginExpanded_of TB ?F \<le> i" by (simp_all add: s post(1))
  then obtain MF where MF: "Files TB ?F = Some MF" by (auto simp: tracked_def)
  then have rd: "Ms_of TB ?F = Mappings MF" "ST_of TB ?F = SpelledTokens MF"
    "BeginExpanded_of TB ?F = File_BeginExpanded MF" by (simp_all add: reader_defs)
  from build_chain [OF run eof last, of ?F] have c: "chain (Mappings MF)" by (simp add: rd)
  from spelledForExpandedToken_index [of i TB SM MF] i MF c be
  obtain s m where "spelledForExpandedToken SM TB i = Inr ((?F, s), m)"
    and "s \<le> spelled_index (Mappings MF) (File_BeginExpanded MF) i"
    by (auto simp: et rd)
  moreover from build_placed [OF run eof last sf so mc dj fr i]
  have "spelled_index (Mappings MF) (File_BeginExpanded MF) i < length (SpelledTokens MF)"
    by (simp add: rd)
  ultimately have "spelledForExpandedToken SM TB i = Inr ((?F, s), m)"
    and "s < length (SpelledTokens MF)" by simp_all
  with MF show ?thesis by blast
qed



text \<open>
  Scenario of two files: file 1 is \<^verbatim>\<open>a\<close>, a directive that includes file 2, and
  \<^verbatim>\<open>b\<close>; file 2 is \<^verbatim>\<open>x\<close>. The expanded tokens leave file 1 after \<^verbatim>\<open>a\<close> and come back
  to it with \<^verbatim>\<open>b\<close>; the three tokens of the directive lie between.
\<close>

definition Inc_Lexer :: LexerEnv where
  "Inc_Lexer = \<lparr>rawLex = (\<lambda>F. if F = 1
       then ([Ex_raw 1 1 tok_raw_identifier, Ex_raw 3 1 (tok_other 0),
              Ex_raw 4 7 tok_raw_identifier, Ex_raw 12 3 (tok_other 4),
              Ex_raw 16 1 tok_raw_identifier], Ex_raw 20 0 tok_eof)
       else ([Ex_raw 101 1 tok_raw_identifier], Ex_raw 102 0 tok_eof)),
    getTokenID = (\<lambda>s. tok_identifier)\<rparr>"

definition Inc_Expanded :: "Token list" where
  "Inc_Expanded = [Ex_tok 1 1 tok_identifier, Ex_tok 101 1 tok_identifier,
     Ex_tok 16 1 tok_identifier, Ex_tok 20 0 tok_eof]"

definition Inc_File1 :: MarkedFile where
  "Inc_File1 = \<lparr>SpelledTokens = [Ex_tok 1 1 tok_identifier, Ex_tok 3 1 (tok_other 0),
       Ex_tok 4 7 tok_identifier, Ex_tok 12 3 (tok_other 4), Ex_tok 16 1 tok_identifier],
     Mappings = [\<lparr>BeginSpelled = 1, EndSpelled = 4, BeginExpanded = 2, EndExpanded = 2\<rparr>],
     File_BeginExpanded = 0, File_EndExpanded = 3\<rparr>"

definition Inc_File2 :: MarkedFile where
  "Inc_File2 = \<lparr>SpelledTokens = [Ex_tok 101 1 tok_identifier], Mappings = [],
     File_BeginExpanded = 1, File_EndExpanded = 2\<rparr>"

definition Inc_Buffer :: TokenBuffer where
  "Inc_Buffer = \<lparr>ExpandedTokens = Inc_Expanded, Files = [1 \<mapsto> Inc_File1, 2 \<mapsto> Inc_File2],
     FileKeys = [1, 2]\<rparr>"

lemma Inc_build_fields:
  "\<exists>TB. build Inc_Lexer Ex_SM Map.empty Inc_Expanded = Some (Inr TB) \<and>
     ExpandedTokens TB = Inc_Expanded \<and> FileKeys TB = [1, 2] \<and>
     Files TB 1 = Some Inc_File1 \<and> Files TB 2 = Some Inc_File2 \<and>
     (\<forall>F. F \<noteq> 1 \<and> F \<noteq> 2 \<longrightarrow> Files TB F = None)"
  by (simp add: builder_defs scenario_defs Inc_Lexer_def Inc_Expanded_def Inc_File1_def
      Inc_File2_def)

lemma Inc_build: "build Inc_Lexer Ex_SM Map.empty Inc_Expanded = Some (Inr Inc_Buffer)"
proof -
  from Inc_build_fields obtain TB where
    b: "build Inc_Lexer Ex_SM Map.empty Inc_Expanded = Some (Inr TB)"
    and f: "ExpandedTokens TB = Inc_Expanded" "FileKeys TB = [1, 2]"
      "Files TB 1 = Some Inc_File1" "Files TB 2 = Some Inc_File2"
      "\<forall>F. F \<noteq> 1 \<and> F \<noteq> 2 \<longrightarrow> Files TB F = None"
    by blast
  have "Files TB = [1 \<mapsto> Inc_File1, 2 \<mapsto> Inc_File2]" using f(3,4,5) by (intro ext) simp
  with f(1,2) have "TB = Inc_Buffer" by (simp add: Inc_Buffer_def)
  with b show ?thesis by simp
qed

lemma Inc_contract:
  "eof_files Ex_SM Inc_Expanded" "eof_last Ex_SM Inc_Expanded"
  "spelled_in_files Ex_SM Inc_Buffer" "stream_order Ex_SM Inc_Expanded"
  "macros_captured Ex_SM Map.empty Inc_Buffer"
  "expansions_disjoint Ex_SM Map.empty Inc_Buffer"
  "files_resume Ex_SM Map.empty Inc_Buffer"
  by (simp_all add: files_resume_bounded spelled_end_def contract_defs scenario_defs
      Inc_Expanded_def Inc_Buffer_def Inc_File1_def Inc_File2_def)

text \<open>
  C10, as it stands, fails for the end-of-file token. In the buffer of
  \<^verbatim>\<open>#define X 1\<close>, \<^verbatim>\<open>int a = X;\<close> the file has 9 spelled tokens, and for the
  end-of-file token, the expanded token 5, \<open>spelledForExpandedToken\<close> counts from the
  mapping of \<^verbatim>\<open>X\<close> to the index 8 + (5 - 4) = 9: one past the last spelled token, where
  no spelled token is.
\<close>

theorem spelledForExpandedToken_eof_counterexample:
  "build S2_Lexer Ex_SM S2_Expansions S2_Expanded = Some (Inr S2_Buffer) \<and>
   length (ExpandedTokens S2_Buffer) = 6 \<and>
   Kind (ExpandedTokens S2_Buffer ! 5) = tok_eof \<and>
   Files S2_Buffer 1 = Some S2_File \<and>
   spelledForExpandedToken Ex_SM S2_Buffer 5 = Inr ((1, 9), None) \<and>
   length (SpelledTokens S2_File) = 9 \<and>
   \<not> 9 < length (SpelledTokens S2_File) \<and>
   deref S2_Buffer (1, 9) = Inl OutOfBounds"
  using S2_build
  by (simp add: query_defs scenario_defs S2_Buffer_def S2_File_def S2_Expanded_def)

text \<open>
  C10, amended. Let the collaborators keep their contract:
  \<^item> \<open>eof_last\<close>: no expanded token before the last is an end-of-file token, and no
    macro token expands at the expansion location of the last token;
  \<^item> \<open>eof_files\<close>: the end location of the file of every expanded token lies in that
    file;
  \<^item> \<open>spelled_in_files\<close>: the spelled tokens of every file are ordered by location,
    and each is at a file location of that file, which is its own expansion location;
  \<^item> \<open>stream_order\<close>: of two expanded tokens of one file the later has the greater
    expansion location, or the same one when the earlier is a macro token whose
    successor expands there too;
  \<^item> \<open>macros_captured\<close>: every macro token expands at the location of a spelled token
    of its file, and the captured end of that expansion is not before it;
  \<^item> \<open>expansions_disjoint\<close>: a captured expansion that begins at a spelled token
    before the expansion location of an expanded token of the file ends before that
    location;
  \<^item> \<open>files_resume\<close>: when the expanded tokens come back to a file after tokens of
    another file, a spelled token of the file lies after the \<open>spelled_end\<close> of every
    earlier expanded token of the file and before the expansion location of the token
    that comes back.

  Then, after the builder completes, for every expanded token other than the final
  end-of-file token the file of the token is tracked, and the spelled index that
  \<open>spelledForExpandedToken\<close> computes for it is strictly within the spelled tokens of
  that file, so the pointer returned refers to a spelled token. The end-of-file token
  is left out: the spelled tokens never hold an end-of-file token. Nothing is said of
  inputs outside the contract, such as the file of C6.
\<close>

theorem spelledForExpandedToken_in_bounds:
  assumes "build LE SM CE ET = Some (Inr TB)"
    and "eof_files SM ET" and "eof_last SM ET"
    and "spelled_in_files SM TB" and "stream_order SM ET"
    and "macros_captured SM CE TB" and "expansions_disjoint SM CE TB"
    and "files_resume SM CE TB"
    and "i + 1 < length ET"
  shows "\<exists>MF s m. Files TB (tokfile SM (ET ! i)) = Some MF \<and>
     spelledForExpandedToken SM TB i = Inr ((tokfile SM (ET ! i), s), m) \<and>
     s < length (SpelledTokens MF) \<and> deref TB (tokfile SM (ET ! i), s) = Inr (SpelledTokens MF ! s)"
proof -
  from build_spelled_index [OF assms] obtain MF s m where
    "Files TB (tokfile SM (ET ! i)) = Some MF"
    "spelledForExpandedToken SM TB i = Inr ((tokfile SM (ET ! i), s), m)"
    "s < length (SpelledTokens MF)" by blast
  moreover from this have "deref TB (tokfile SM (ET ! i), s) = Inr (SpelledTokens MF ! s)"
    by (simp add: deref_def)
  ultimately show ?thesis by blast
qed

theorem spelledForExpandedToken_in_bounds_witness:
  "build Inc_Lexer Ex_SM Map.empty Inc_Expanded = Some (Inr Inc_Buffer) \<and>
   eof_files Ex_SM Inc_Expanded \<and> eof_last Ex_SM Inc_Expanded \<and>
   spelled_in_files Ex_SM Inc_Buffer \<and> stream_order Ex_SM Inc_Expanded \<and>
   macros_captured Ex_SM Map.empty Inc_Buffer \<and>
   expansions_disjoint Ex_SM Map.empty Inc_Buffer \<and>
   files_resume Ex_SM Map.empty Inc_Buffer \<and>
   (2 :: nat) + 1 < length Inc_Expanded \<and>
   tokfile Ex_SM (Inc_Expanded ! 2) = 1 \<and>
   Files Inc_Buffer 1 = Some Inc_File1 \<and>
   spelledForExpandedToken Ex_SM Inc_Buffer 2 = Inr ((1, 4), None) \<and>
   4 < length (SpelledTokens Inc_File1) \<and>
   deref Inc_Buffer (1, 4) = Inr (Ex_tok 16 1 tok_identifier)"
proof -
  have i: "(2 :: nat) + 1 < length Inc_Expanded" by (simp add: Inc_Expanded_def)
  have f: "tokfile Ex_SM (Inc_Expanded ! 2) = 1" "Files Inc_Buffer 1 = Some Inc_File1"
    by (simp_all add: tokfile_def scenario_defs Inc_Expanded_def Inc_Buffer_def)
  have q: "spelledForExpandedToken Ex_SM Inc_Buffer 2 = Inr ((1, 4), None)"
    "4 < length (SpelledTokens Inc_File1)"
    "deref Inc_Buffer (1, 4) = Inr (Ex_tok 16 1 tok_identifier)"
    by (simp_all add: query_defs scenario_defs Inc_Buffer_def Inc_File1_def Inc_Expanded_def)
  from spelledForExpandedToken_in_bounds [OF Inc_build Inc_contract i]
    Inc_build Inc_contract i f q
  show ?thesis by simp
qed

end
